theory Spec2Isabelle
  imports Main "HOL-Library.Word"
begin

unbundle bit_operations_syntax

chapter \<open>The embedding\<close>

section \<open>Condition kinds (ir.h) and swap_cond (codegen_expr.c)\<close>

text \<open>
  Modelled from the spec: the declaration of \<open>enum ConditionKind\<close> lives in ir.h, which
  is not among the sources. The spec lists the kinds as EQ, NE, LT, LE, GE, GT (signed and
  unsigned), preceded by the synthetic NONE and ANY; codegen_expr.c relies on exactly that
  order (\<open>cond >= COND_LT\<close>, \<open>COND_GT - (cond - COND_LT)\<close>, \<open>cond += COND_ULT - COND_LT\<close>).
  The enumerators are C integers, and the code computes with them, so they are integers
  here too.
\<close>

type_synonym ConditionKind = int

definition COND_NONE :: ConditionKind where "COND_NONE = 0"
definition COND_ANY :: ConditionKind where "COND_ANY = 1"
definition COND_EQ :: ConditionKind where "COND_EQ = 2"
definition COND_NE :: ConditionKind where "COND_NE = 3"
definition COND_LT :: ConditionKind where "COND_LT = 4"
definition COND_LE :: ConditionKind where "COND_LE = 5"
definition COND_GE :: ConditionKind where "COND_GE = 6"
definition COND_GT :: ConditionKind where "COND_GT = 7"
definition COND_ULT :: ConditionKind where "COND_ULT = 8"
definition COND_ULE :: ConditionKind where "COND_ULE = 9"
definition COND_UGE :: ConditionKind where "COND_UGE = 10"
definition COND_UGT :: ConditionKind where "COND_UGT = 11"

lemmas cond_defs =
  COND_NONE_def COND_ANY_def COND_EQ_def COND_NE_def COND_LT_def COND_LE_def
  COND_GE_def COND_GT_def COND_ULT_def COND_ULE_def COND_UGE_def COND_UGT_def

text \<open>
  \<^verbatim>\<open>static enum ConditionKind swap_cond(enum ConditionKind cond) {
    assert(COND_EQ <= cond && cond <= COND_GT);
    if (cond >= COND_LT)
      cond = COND_GT - (cond - COND_LT);
    return cond;
  }\<close>
  A failed assertion aborts: the result is \<open>None\<close>.
\<close>

definition swap_cond :: "ConditionKind \<Rightarrow> ConditionKind option" where
  "swap_cond cond =
     (if COND_EQ \<le> cond \<and> cond \<le> COND_GT
      then Some (if cond \<ge> COND_LT then COND_GT - (cond - COND_LT) else cond)
      else None)"

text \<open>The meaning of a signed condition kind as a relation between two integers.\<close>

definition cond_holds :: "ConditionKind \<Rightarrow> int \<Rightarrow> int \<Rightarrow> bool" where
  "cond_holds c a b =
     (if c = COND_EQ then a = b
      else if c = COND_NE then a \<noteq> b
      else if c = COND_LT then a < b
      else if c = COND_LE then a \<le> b
      else if c = COND_GE then a \<ge> b
      else if c = COND_GT then a > b
      else False)"

section \<open>Front-end diagnostics: parse_error (fe_misc.c)\<close>

text \<open>
  \<open>enum ParseErrorLevel\<close> is declared in fe_misc.h; parse_error tells three levels apart.
  The two counters are C \<open>int\<close>s: 32-bit words read as two's complement, \<open>++\<close> wrapping.
  Writing the message to stderr does not touch the counters and is left out.
\<close>

datatype ParseErrorLevel = PE_WARNING | PE_NOFATAL | PE_FATAL

definition MAX_ERROR_COUNT :: int where "MAX_ERROR_COUNT = 25"

record fe_counters =
  compile_warning_count :: "32 word"
  compile_error_count :: "32 word"

datatype 'a outcome = Exit int 'a | Return 'a

fun state_of :: "'a outcome \<Rightarrow> 'a" where
  "state_of (Exit _ s) = s"
| "state_of (Return s) = s"

fun exit_code :: "'a outcome \<Rightarrow> int option" where
  "exit_code (Exit c _) = Some c"
| "exit_code (Return _) = None"

definition parse_error :: "ParseErrorLevel \<Rightarrow> fe_counters \<Rightarrow> fe_counters outcome" where
  "parse_error level s =
     (if level = PE_WARNING
      then Return (s\<lparr>compile_warning_count := compile_warning_count s + 1\<rparr>)
      else
        (let s' = s\<lparr>compile_error_count := compile_error_count s + 1\<rparr>
         in if level = PE_FATAL \<or> sint (compile_error_count s') \<ge> MAX_ERROR_COUNT
            then Exit 1 s'
            else Return s'))"

section \<open>RISC-V back-end: callee-save registers (ir_riscv64.c)\<close>

text \<open>
  The register-name macros (A0, S2, FS0, SP, ...) come from riscv64.h, which is not among
  the sources; they stand for the assembler names of the registers and are strings here.
  POINTER_SIZE comes from arch_config.h; it is 8 on RISC-V 64.
\<close>

definition kReg64s :: "string list" where
  "kReg64s =
    [''a0'', ''a1'', ''a2'', ''a3'', ''a4'', ''a5'', ''a6'', ''a7'',
     ''s2'', ''s3'', ''s4'', ''s5'', ''s6'', ''s7'', ''s8'', ''s9'', ''s10'', ''s11'', ''fp'',
     ''t0'', ''t1'', ''t2'']"

definition kCalleeSaveRegs :: "nat list" where
  "kCalleeSaveRegs = [8, 9, 10, 11, 12, 13, 14, 15, 16, 17, 18]"

definition kFReg64s :: "string list" where
  "kFReg64s =
    [''fa0'', ''fa1'', ''fa2'', ''fa3'', ''fa4'', ''fa5'', ''fa6'', ''fa7'',
     ''fs0'', ''fs1'', ''fs2'', ''fs3'', ''fs4'', ''fs5'', ''fs6'', ''fs7'', ''fs8'', ''fs9'',
     ''fs10'', ''fs11'',
     ''ft0'', ''ft1'', ''ft2'', ''ft3'', ''ft4'', ''ft5'', ''ft6'', ''ft7'', ''ft8'', ''ft9'',
     ''ft10'', ''ft11'']"

definition kCalleeSaveFRegs :: "nat list" where
  "kCalleeSaveFRegs = [8, 9, 10, 11, 12, 13, 14, 15, 17, 18, 19]"

definition POINTER_SIZE :: int where "POINTER_SIZE = 8"

definition SP :: string where "SP = ''sp''"

text \<open>\<open>ALIGN(x, align)\<close> for a power of two: round up.\<close>

definition ALIGN :: "nat \<Rightarrow> nat \<Rightarrow> nat" where
  "ALIGN x align = ((x + (align - 1)) div align) * align"

text \<open>The instructions the two functions emit: \<open>SD reg ofs base\<close> is \<open>sd reg, ofs(base)\<close>.\<close>

datatype insn =
    ADDI string string int
  | SD string int string
  | FSD string int string
  | LD string int string
  | FLD string int string

text \<open>
  \<^verbatim>\<open>for (int i = 0; i < n; ++i) {
    int ireg = indices[i];
    if (bit & (1 << ireg))
      saves[count++] = regs[ireg];
  }\<close>
  The result is the filled prefix of \<open>saves\<close>; \<open>count\<close> is its length. Every index of
  the two tables is below 31, so \<open>1 << ireg\<close> is a positive \<open>int\<close> and widens to the
  same bit of the \<open>unsigned long\<close>.
\<close>

fun enum_callee_save_regs :: "64 word \<Rightarrow> nat list \<Rightarrow> string list \<Rightarrow> string list" where
  "enum_callee_save_regs bits [] regs = []"
| "enum_callee_save_regs bits (ireg # indices) regs =
     (if bits AND push_bit ireg 1 \<noteq> 0 then [regs ! ireg] else [])
     @ enum_callee_save_regs bits indices regs"

definition push_callee_save_regs :: "64 word \<Rightarrow> 64 word \<Rightarrow> insn list \<times> nat" where
  "push_callee_save_regs used fused =
     (let isaves = enum_callee_save_regs used kCalleeSaveRegs kReg64s;
          fsaves = enum_callee_save_regs fused kCalleeSaveFRegs kFReg64s;
          saves = isaves @ fsaves;
          count = length isaves;
          fcount = length fsaves;
          total = count + fcount;
          total_aligned = ALIGN total 2
      in ((if total_aligned > 0 then [ADDI SP SP (- POINTER_SIZE * int total_aligned)] else [])
          @ map (\<lambda>i. SD (saves ! i) ((int total - 1 - int i) * POINTER_SIZE) SP) [0..<count]
          @ map (\<lambda>i. FSD (saves ! (i + count))
                         ((int total - 1 - int count - int i) * POINTER_SIZE) SP) [0..<fcount],
          total_aligned))"

definition pop_callee_save_regs :: "64 word \<Rightarrow> 64 word \<Rightarrow> insn list" where
  "pop_callee_save_regs used fused =
     (let isaves = enum_callee_save_regs used kCalleeSaveRegs kReg64s;
          fsaves = enum_callee_save_regs fused kCalleeSaveFRegs kFReg64s;
          saves = isaves @ fsaves;
          count = length isaves;
          fcount = length fsaves;
          total = count + fcount
      in if total = 0 then []
         else map (\<lambda>i. FLD (saves ! (i + count))
                            ((int total - 1 - int count - int i) * POINTER_SIZE) SP)
                  (rev [0..<fcount])
            @ map (\<lambda>i. LD (saves ! i) ((int count - 1 - int i) * POINTER_SIZE) SP)
                  (rev [0..<count])
            @ [ADDI SP SP (POINTER_SIZE * int (ALIGN total 2))])"

text \<open>Where a register is stored and where it is loaded from, relative to SP.\<close>

fun stored_at :: "string \<Rightarrow> insn list \<Rightarrow> int option" where
  "stored_at r [] = None"
| "stored_at r (SD r' ofs b # is) = (if r' = r then Some ofs else stored_at r is)"
| "stored_at r (FSD r' ofs b # is) = (if r' = r then Some ofs else stored_at r is)"
| "stored_at r (_ # is) = stored_at r is"

fun loaded_from :: "string \<Rightarrow> insn list \<Rightarrow> int option" where
  "loaded_from r [] = None"
| "loaded_from r (LD r' ofs b # is) = (if r' = r then Some ofs else loaded_from r is)"
| "loaded_from r (FLD r' ofs b # is) = (if r' = r then Some ofs else loaded_from r is)"
| "loaded_from r (_ # is) = loaded_from r is"

section \<open>RISC-V back-end: the IR tweaker (ir_riscv64.c)\<close>

text \<open>
  ir.h and regalloc.h are not among the sources. A VReg as ir_riscv64.c reads it: the flag
  bits VRF_CONST and VRF_FLONUM (the values of the masks are unknown, so each bit is a
  boolean), the literal \<open>fixnum\<close> of a constant, the size class \<open>vsize\<close>, and the
  number \<open>virt\<close> under which the allocator knows it.
\<close>

record VReg =
  virt :: nat
  VRF_CONST :: bool
  VRF_FLONUM :: bool
  fixnum :: int
  vsize :: nat

datatype IrKind =
    IR_BOFS | IR_IOFS | IR_SOFS | IR_LOAD | IR_LOAD_S | IR_STORE | IR_STORE_S
  | IR_ADD | IR_SUB | IR_MUL | IR_DIV | IR_MOD | IR_BITAND | IR_BITOR | IR_BITXOR
  | IR_LSHIFT | IR_RSHIFT | IR_NEG | IR_BITNOT | IR_COND | IR_JMP | IR_TJMP
  | IR_PRECALL | IR_PUSHARG | IR_CALL | IR_RESULT | IR_SUBSP | IR_CAST | IR_MOV | IR_ASM

text \<open>
  An IR instruction: operands are pointers, \<open>None\<close> is NULL. \<open>cond_kind\<close> is
  \<open>ir->cond.kind\<close> and \<open>jmp_cond\<close> is \<open>ir->jmp.cond\<close>.
\<close>

record IR =
  kind :: IrKind
  dst :: "VReg option"
  opr1 :: "VReg option"
  opr2 :: "VReg option"
  flag :: nat
  cond_kind :: int
  jmp_cond :: int

definition COND_MASK :: int where "COND_MASK = 7"

definition VRegSize4 :: nat where "VRegSize4 = 2"

text \<open>
  \<^verbatim>\<open>bool is_im12(intptr_t x) {
    return x <= ((1L << 11) - 1) && x >= -(1L << 11);
  }\<close>
\<close>

definition is_im12 :: "int \<Rightarrow> bool" where
  "is_im12 x \<longleftrightarrow> x \<le> 2 ^ 11 - 1 \<and> x \<ge> - (2 ^ 11)"

text \<open>
  Modelled from the spec: the allocator (regalloc.c) and the IR constructors (ir.c) are not
  among the sources. \<open>reg_alloc_spawn\<close> hands out a fresh VReg of the given size class,
  \<open>reg_alloc_spawn_const\<close> a VReg that carries a literal; \<open>new_ir_mov\<close> and
  \<open>new_ir_bop_raw\<close> build an instruction from their arguments. The allocator state is
  the number of VRegs it has handed out.
\<close>

type_synonym RegAlloc = nat

definition reg_alloc_spawn :: "RegAlloc \<Rightarrow> nat \<Rightarrow> VReg \<times> RegAlloc" where
  "reg_alloc_spawn ra vs =
     (\<lparr>virt = ra, VRF_CONST = False, VRF_FLONUM = False, fixnum = 0, vsize = vs\<rparr>, Suc ra)"

definition reg_alloc_spawn_const :: "RegAlloc \<Rightarrow> int \<Rightarrow> nat \<Rightarrow> VReg \<times> RegAlloc" where
  "reg_alloc_spawn_const ra v vs =
     (\<lparr>virt = ra, VRF_CONST = True, VRF_FLONUM = False, fixnum = v, vsize = vs\<rparr>, Suc ra)"

definition new_ir_mov :: "VReg \<Rightarrow> VReg \<Rightarrow> nat \<Rightarrow> IR" where
  "new_ir_mov d s f =
     \<lparr>kind = IR_MOV, dst = Some d, opr1 = Some s, opr2 = None, flag = f,
      cond_kind = 0, jmp_cond = 0\<rparr>"

definition new_ir_bop_raw :: "IrKind \<Rightarrow> VReg option \<Rightarrow> VReg option \<Rightarrow> VReg option \<Rightarrow> nat \<Rightarrow> IR" where
  "new_ir_bop_raw k d a b f =
     \<lparr>kind = k, dst = d, opr1 = a, opr2 = b, flag = f, cond_kind = 0, jmp_cond = 0\<rparr>"

text \<open>
  The state of one turn of the inner loop of tweak_irs: the instructions inserted in front
  of \<open>ir\<close> so far (each \<open>vec_insert(irs, j++, x)\<close> puts \<open>x\<close> directly before \<open>ir\<close>
  and steps \<open>j\<close> back onto \<open>ir\<close>), the instruction itself, and the allocator.
\<close>

type_synonym tweak = "IR list \<times> IR \<times> RegAlloc"

text \<open>
  \<^verbatim>\<open>static void insert_const_mov(VReg **pvreg, RegAlloc *ra, Vector *irs, int i) {
    VReg *c = *pvreg;
    VReg *tmp = reg_alloc_spawn(ra, c->vsize, 0);
    IR *mov = new_ir_mov(tmp, c, ((IR*)irs->data[i])->flag);
    vec_insert(irs, i, mov);
    *pvreg = tmp;
  }\<close>
  called on \<open>&ir->opr1\<close> and on \<open>&ir->opr2\<close>; \<open>irs->data[i]\<close> is \<open>ir\<close>.
\<close>

definition insert_const_mov1 :: "tweak \<Rightarrow> tweak option" where
  "insert_const_mov1 t =
     (case t of (pre, ir, ra) \<Rightarrow>
        (case opr1 ir of
           None \<Rightarrow> None
         | Some c \<Rightarrow>
             (case reg_alloc_spawn ra (vsize c) of (tmp, ra') \<Rightarrow>
                Some (pre @ [new_ir_mov tmp c (flag ir)], ir\<lparr>opr1 := Some tmp\<rparr>, ra'))))"

definition insert_const_mov2 :: "tweak \<Rightarrow> tweak option" where
  "insert_const_mov2 t =
     (case t of (pre, ir, ra) \<Rightarrow>
        (case opr2 ir of
           None \<Rightarrow> None
         | Some c \<Rightarrow>
             (case reg_alloc_spawn ra (vsize c) of (tmp, ra') \<Rightarrow>
                Some (pre @ [new_ir_mov tmp c (flag ir)], ir\<lparr>opr2 := Some tmp\<rparr>, ra'))))"

text \<open>
  \<^verbatim>\<open>static void swap_opr12(IR *ir) {
    VReg *tmp = ir->opr1;
    ir->opr1 = ir->opr2;
    ir->opr2 = tmp;
  }\<close>
\<close>

definition swap_opr12 :: "IR \<Rightarrow> IR" where
  "swap_opr12 ir = ir\<lparr>opr1 := opr2 ir, opr2 := opr1 ir\<rparr>"

text \<open>Reading a flag or the literal through an operand pointer; NULL has neither.\<close>

definition opr_const :: "VReg option \<Rightarrow> bool option" where
  "opr_const v = map_option VRF_CONST v"

text \<open>
  One turn of the \<open>switch (ir->kind)\<close> of tweak_irs. \<open>None\<close> is a failed assertion or a
  NULL operand read. The conditional steps are written with \<open>when\<close>.
\<close>

definition when1 :: "(IR \<Rightarrow> bool) \<Rightarrow> (tweak \<Rightarrow> tweak option) \<Rightarrow> tweak \<Rightarrow> tweak option" where
  "when1 p f t = (case t of (pre, ir, ra) \<Rightarrow> if p ir then f t else Some t)"

definition c1 :: "IR \<Rightarrow> bool" where
  "c1 ir = (case opr1 ir of Some v \<Rightarrow> VRF_CONST v | None \<Rightarrow> False)"

definition c2 :: "IR \<Rightarrow> bool" where
  "c2 ir = (case opr2 ir of Some v \<Rightarrow> VRF_CONST v | None \<Rightarrow> False)"

definition fix2 :: "IR \<Rightarrow> int" where
  "fix2 ir = (case opr2 ir of Some v \<Rightarrow> fixnum v | None \<Rightarrow> 0)"

definition fix1 :: "IR \<Rightarrow> int" where
  "fix1 ir = (case opr1 ir of Some v \<Rightarrow> fixnum v | None \<Rightarrow> 0)"

definition tweak_ir :: "RegAlloc \<Rightarrow> IR \<Rightarrow> tweak option" where
  "tweak_ir ra ir =
    (case kind ir of
       IR_LOAD \<Rightarrow>
         if opr1 ir = None then None
         else when1 c1 insert_const_mov1 ([], ir, ra)
     | IR_STORE \<Rightarrow>
         if opr2 ir = None then None
         else when1 c2 insert_const_mov2 ([], ir, ra)
     | IR_ADD \<Rightarrow>
         if opr1 ir = None \<or> opr2 ir = None \<or> (c1 ir \<and> c2 ir) then None
         else
           (let ir1 = (if c1 ir then swap_opr12 ir else ir)
            in when1 (\<lambda>i. c2 i \<and> (fix2 i > 0x0fff \<or> fix2 i < - 0x0fff))
                 insert_const_mov2 ([], ir1, ra))
     | IR_SUB \<Rightarrow>
         if opr1 ir = None \<or> opr2 ir = None \<or> (c1 ir \<and> c2 ir) then None
         else if c1 ir \<and> fix1 ir = 0
         then Some ([], ir\<lparr>kind := IR_NEG, opr1 := opr2 ir, opr2 := None\<rparr>, ra)
         else
           Option.bind (when1 c1 insert_const_mov1 ([], ir, ra))
             (when1 (\<lambda>i. c2 i \<and> (fix2 i > 0x0fff \<or> fix2 i < - 0x0fff)) insert_const_mov2)
     | IR_MUL \<Rightarrow>
         if opr1 ir = None \<or> opr2 ir = None \<or> (c1 ir \<and> c2 ir) then None
         else Option.bind (when1 c1 insert_const_mov1 ([], ir, ra)) (when1 c2 insert_const_mov2)
     | IR_DIV \<Rightarrow>
         if opr1 ir = None \<or> opr2 ir = None \<or> (c1 ir \<and> c2 ir) then None
         else Option.bind (when1 c1 insert_const_mov1 ([], ir, ra)) (when1 c2 insert_const_mov2)
     | IR_MOD \<Rightarrow>
         if opr1 ir = None \<or> opr2 ir = None \<or> (c1 ir \<and> c2 ir) then None
         else Option.bind (when1 c1 insert_const_mov1 ([], ir, ra)) (when1 c2 insert_const_mov2)
     | IR_BITAND \<Rightarrow>
         if opr1 ir = None \<or> opr2 ir = None \<or> (c1 ir \<and> c2 ir) then None
         else Option.bind (when1 c1 insert_const_mov1 ([], ir, ra))
                (when1 (\<lambda>i. c2 i \<and> \<not> is_im12 (fix2 i)) insert_const_mov2)
     | IR_BITOR \<Rightarrow>
         if opr1 ir = None \<or> opr2 ir = None \<or> (c1 ir \<and> c2 ir) then None
         else Option.bind (when1 c1 insert_const_mov1 ([], ir, ra))
                (when1 (\<lambda>i. c2 i \<and> \<not> is_im12 (fix2 i)) insert_const_mov2)
     | IR_BITXOR \<Rightarrow>
         if opr1 ir = None \<or> opr2 ir = None \<or> (c1 ir \<and> c2 ir) then None
         else Option.bind (when1 c1 insert_const_mov1 ([], ir, ra))
                (when1 (\<lambda>i. c2 i \<and> \<not> is_im12 (fix2 i)) insert_const_mov2)
     | IR_LSHIFT \<Rightarrow>
         if opr1 ir = None \<or> opr2 ir = None \<or> (c1 ir \<and> c2 ir) then None
         else when1 c1 insert_const_mov1 ([], ir, ra)
     | IR_RSHIFT \<Rightarrow>
         if opr1 ir = None \<or> opr2 ir = None \<or> (c1 ir \<and> c2 ir) then None
         else when1 c1 insert_const_mov1 ([], ir, ra)
     | IR_COND \<Rightarrow>
         if opr1 ir = None \<or> opr2 ir = None then None
         else
           (let cond = cond_kind ir AND COND_MASK
            in if cond = COND_EQ \<or> cond = COND_NE then
                 (if c1 ir then None
                  else if \<not> c2 ir \<or> fix2 ir \<noteq> 0 then
                    (case dst ir of
                       None \<Rightarrow> None
                     | Some d \<Rightarrow>
                         (case reg_alloc_spawn_const ra 0 (vsize d) of (z, ra') \<Rightarrow>
                            Some ([new_ir_bop_raw IR_SUB (dst ir) (opr1 ir) (opr2 ir) (flag ir)],
                                  ir\<lparr>opr1 := dst ir, opr2 := Some z\<rparr>, ra')))
                  else Some ([], ir, ra))
               else if cond = COND_LE \<or> cond = COND_GT then
                 when1 c2 insert_const_mov2 ([], ir, ra)
               else if cond = COND_LT \<or> cond = COND_GE then
                 when1 (\<lambda>i. c2 i \<and> (fix2 i < - 4096 \<or> fix2 i > 4096)) insert_const_mov2
                   ([], ir, ra)
               else Some ([], ir, ra))
     | IR_JMP \<Rightarrow>
         if (case opr1 ir of Some v \<Rightarrow> VRF_FLONUM v | None \<Rightarrow> False) then
           (let c1' = (if jmp_cond ir = COND_NE then COND_EQ else jmp_cond ir);
                c2' = (if jmp_cond ir = COND_NE then COND_EQ else COND_NE)
            in case reg_alloc_spawn ra VRegSize4 of (tmp, ra1) \<Rightarrow>
               case reg_alloc_spawn_const ra1 0 VRegSize4 of (z, ra2) \<Rightarrow>
                 Some ([(new_ir_bop_raw IR_COND (Some tmp) (opr1 ir) (opr2 ir) 0)
                          \<lparr>cond_kind := c1'\<rparr>],
                       ir\<lparr>jmp_cond := c2', opr1 := Some tmp, opr2 := Some z\<rparr>, ra2))
         else when1 (\<lambda>i. c2 i \<and> fix2 i \<noteq> 0) insert_const_mov2 ([], ir, ra)
     | IR_TJMP \<Rightarrow> insert_const_mov1 ([], ir, ra)
     | IR_PUSHARG \<Rightarrow>
         if opr1 ir = None then None
         else when1 c1 insert_const_mov1 ([], ir, ra)
     | _ \<Rightarrow> Some ([], ir, ra))"

text \<open>
  The inner loop \<open>for (int j = 0; j < irs->len; ++j)\<close> on the vector of one basic block:
  the turn at \<open>j\<close> replaces \<open>irs[j]\<close> by the inserted instructions followed by the
  tweaked one and leaves \<open>j\<close> behind them.
\<close>

function tweak_bb_irs :: "RegAlloc \<Rightarrow> IR list \<Rightarrow> nat \<Rightarrow> (IR list \<times> RegAlloc) option" where
  "tweak_bb_irs ra irs j =
     (if j < length irs then
        (case tweak_ir ra (irs ! j) of
           None \<Rightarrow> None
         | Some (pre, ir', ra') \<Rightarrow>
             tweak_bb_irs ra' (take j irs @ pre @ ir' # drop (Suc j) irs) (j + length pre + 1))
      else Some (irs, ra))"
  by pat_completeness auto
termination
  by (relation "measure (\<lambda>(ra, irs, j). length irs - j)") auto

text \<open>The outer loop over the basic blocks of the function: each block is its vector.\<close>

fun tweak_irs :: "RegAlloc \<Rightarrow> IR list list \<Rightarrow> (IR list list \<times> RegAlloc) option" where
  "tweak_irs ra [] = Some ([], ra)"
| "tweak_irs ra (bb # bbs) =
     (case tweak_bb_irs ra bb 0 of
        None \<Rightarrow> None
      | Some (bb', ra') \<Rightarrow>
          (case tweak_irs ra' bbs of
             None \<Rightarrow> None
           | Some (bbs', ra'') \<Rightarrow> Some (bb' # bbs', ra'')))"


text \<open>Sample operands: a register VReg and a constant VReg of size class 3.\<close>

definition sample_reg :: "nat \<Rightarrow> VReg" where
  "sample_reg n = \<lparr>virt = n, VRF_CONST = False, VRF_FLONUM = False, fixnum = 0, vsize = 3\<rparr>"

definition sample_const :: "nat \<Rightarrow> int \<Rightarrow> VReg" where
  "sample_const n v = \<lparr>virt = n, VRF_CONST = True, VRF_FLONUM = False, fixnum = v, vsize = 3\<rparr>"

section \<open>Expression lowering: types and VRegs of codegen_expr.c\<close>

text \<open>
  type.h, ast.h and ir.h are not among the sources. A \<open>Type\<close> as codegen_expr.c reads
  it: its kind, the members \<open>fixnum.kind\<close> and \<open>fixnum.is_unsigned\<close> of the union
  (read by gen_compare_expr whatever the kind is, so they are fields of every type here),
  and the results of \<open>type_size\<close> and \<open>align_size\<close>, which the spec names as the
  type metadata. codegen_expr.c is written against the earlier IR, in which a VReg carries a
  \<open>VRegType\<close> (size, alignment, the flag VRTF_UNSIGNED) rather than a size class; this
  VReg is \<open>VRegT\<close>. \<open>fixnum\<close> is an \<open>intptr_t\<close>: a 64-bit word.
\<close>

datatype TypeKind = TY_VOID | TY_FIXNUM | TY_FLONUM | TY_PTR | TY_ARRAY | TY_FUNC | TY_STRUCT
datatype FixnumKind = FX_CHAR | FX_SHORT | FX_INT | FX_LONG | FX_LLONG | FX_ENUM

record Type =
  tkind :: TypeKind
  fixnum_kind :: FixnumKind
  fixnum_is_unsigned :: bool
  type_size :: nat
  align_size :: nat

record VRegType =
  vt_size :: nat
  vt_align :: nat
  VRTF_UNSIGNED :: bool

record VRegT =
  vreg_id :: nat
  vreg_const :: bool
  vreg_fixnum :: "64 word"
  vtype :: VRegType

definition to_vtype :: "Type \<Rightarrow> VRegType" where
  "to_vtype type =
     \<lparr>vt_size = type_size type, vt_align = align_size type,
      VRTF_UNSIGNED = (if tkind type = TY_FIXNUM then fixnum_is_unsigned type else True)\<rparr>"

text \<open>
  \<^verbatim>\<open>VRegType *to_vtype(const Type *type)\<close> above. gen_cast ends in one of three ways:
  \<open>new_const_vreg(value, vtype)\<close>, the VReg it was given, or
  \<open>new_ir_cast(reg, vtype)\<close>; the two constructors are in ir.c, so the result names
  the call and its arguments.
\<close>

datatype cast_result =
    New_const_vreg "64 word" VRegType
  | Same_vreg VRegT
  | New_ir_cast VRegT VRegType

text \<open>
  \<open>1 << (bit - 1)\<close>: the \<open>1\<close> is an \<open>int\<close>, so the shift is done in 32 bits and
  the result is widened to \<open>intptr_t\<close> with its sign for the \<open>&\<close>. For a count of
  31 the 32-bit result is INT_MIN, as GCC and Clang compute it; a count of 32 or more
  (also \<open>bit = 0\<close>, where \<open>bit - 1\<close> wraps) has no result: \<open>None\<close>.
\<close>

definition int_shl1 :: "nat \<Rightarrow> 64 word option" where
  "int_shl1 n = (if n < 32 then Some (scast (push_bit n (1 :: 32 word))) else None)"

text \<open>
  \<^verbatim>\<open>static VReg *gen_cast(VReg *reg, const Type *dst_type) {
    if (reg->flag & VRF_CONST) {
      intptr_t value = reg->fixnum;
      size_t dst_size = type_size(dst_type);
      if (dst_size < (size_t)reg->vtype->size && dst_size < sizeof(intptr_t)) {
        // Assume that integer is represented in Two's complement
        size_t bit = dst_size * 8;
        intptr_t mask = (-1UL) << bit;
        if (dst_type->kind == TY_FIXNUM && !dst_type->fixnum.is_unsigned &&  // signed
            (value & (1 << (bit - 1))))  // negative
          value |= mask;
        else
          value &= ~mask;
      }
      VRegType *vtype = to_vtype(dst_type);
      return new_const_vreg(value, vtype);
    }
    int dst_size = type_size(dst_type);
    bool lu = dst_type->kind == TY_FIXNUM ? dst_type->fixnum.is_unsigned : true;
    bool ru = (reg->vtype->flag & VRTF_UNSIGNED) ? true : false;
    if (dst_size == reg->vtype->size && lu == ru)
      return reg;
    return new_ir_cast(reg, to_vtype(dst_type));
  }\<close>
\<close>

definition gen_cast :: "VRegT \<Rightarrow> Type \<Rightarrow> cast_result option" where
  "gen_cast reg dst_type =
     (if vreg_const reg then
        (let v = vreg_fixnum reg;
             dst_size = type_size dst_type
         in if dst_size < vt_size (vtype reg) \<and> dst_size < 8 then
              (let bits = dst_size * 8;
                   mask = push_bit bits (- 1 :: 64 word)
               in if tkind dst_type = TY_FIXNUM \<and> \<not> fixnum_is_unsigned dst_type then
                    (if bits = 0 then None
                     else case int_shl1 (bits - 1) of
                        None \<Rightarrow> None
                      | Some sgn_bit \<Rightarrow>
                          if v AND sgn_bit \<noteq> 0
                          then Some (New_const_vreg (v OR mask) (to_vtype dst_type))
                          else Some (New_const_vreg (v AND NOT mask) (to_vtype dst_type)))
                  else Some (New_const_vreg (v AND NOT mask) (to_vtype dst_type)))
            else Some (New_const_vreg v (to_vtype dst_type)))
      else
        (let dst_size = type_size dst_type;
             lu = (if tkind dst_type = TY_FIXNUM then fixnum_is_unsigned dst_type else True);
             ru = VRTF_UNSIGNED (vtype reg)
         in if dst_size = vt_size (vtype reg) \<and> lu = ru then Some (Same_vreg reg)
            else Some (New_ir_cast reg (to_vtype dst_type))))"

text \<open>
  The value a narrowing cast of a constant is to produce: the value reduced to the byte
  width of the destination, sign-extended from the destination's top bit when the
  destination is a signed fixnum type and that bit is set, zero-extended otherwise.
\<close>

definition narrow_value :: "Type \<Rightarrow> 64 word \<Rightarrow> 64 word" where
  "narrow_value dst_type v =
     (let bits = type_size dst_type * 8
      in if tkind dst_type = TY_FIXNUM \<and> \<not> fixnum_is_unsigned dst_type \<and> bit v (bits - 1)
         then signed_take_bit (bits - 1) v
         else take_bit bits v)"

text \<open>Sample operands: the type \<open>int\<close> and the VReg type of a \<open>long\<close>.\<close>

definition tyInt :: Type where
  "tyInt = \<lparr>tkind = TY_FIXNUM, fixnum_kind = FX_INT, fixnum_is_unsigned = False, type_size = 4, align_size = 4\<rparr>"

definition tyLongV :: VRegType where
  "tyLongV = \<lparr>vt_size = 8, vt_align = 8, VRTF_UNSIGNED = False\<rparr>"

section \<open>Expression lowering: gen_compare_expr, gen_cond_jmp and gen_expr (codegen_expr.c)\<close>

text \<open>
  The expressions, as a datatype. gen_cond_jmp tells apart the literal (EX_FIXNUM), the
  six comparisons, \<open>&&\<close>, \<open>||\<close>, \<open>!\<close> and the parenthesised group. Of the kinds it
  hands to gen_expr, four are embedded: a variable of fixnum or pointer type that is a
  local in a register (\<open>EX_VARIABLE t reg\<close>, with the VReg \<open>varinfo->reg\<close> that
  scope_find yields for its name), the assignment to such a variable
  (\<open>EX_ASSIGN t reg rhs\<close>), the comma expression and the conditional expression. Every
  other expression (a global, static or extern variable, an assignment through an address,
  EX_CAST, EX_FUNCALL, the arithmetic ones and the rest) is \<open>EX_OTHER n\<close>, the expression
  numbered \<open>n\<close>. The cases of gen_expr for these depend on scopes, addresses, calls and
  statements and are not embedded; what they do is a parameter of the embedding
  (\<open>lower\<close>, below). The six comparison kinds are consecutive enumerators of ExprKind in
  the order EQ, NE, LT, LE, GE, GT (ast.h is not among the sources;
  \<open>kind + (COND_EQ - EX_EQ)\<close> maps them onto the condition kinds).
\<close>

datatype CmpKind = EX_EQ | EX_NE | EX_LT | EX_LE | EX_GE | EX_GT

datatype Expr =
    EX_FIXNUM Type "64 word"
  | EX_COMPARE CmpKind Type Expr Expr
  | EX_LOGAND Type Expr Expr
  | EX_LOGIOR Type Expr Expr
  | EX_NOT Type Expr
  | EX_GROUP Type Expr
  | EX_VARIABLE Type VRegT
  | EX_ASSIGN Type VRegT Expr
  | EX_COMMA Type Expr Expr
  | EX_TERNARY Type Expr Expr Expr
  | EX_OTHER nat Type

fun expr_type :: "Expr \<Rightarrow> Type" where
  "expr_type (EX_FIXNUM t v) = t"
| "expr_type (EX_COMPARE k t l r) = t"
| "expr_type (EX_LOGAND t l r) = t"
| "expr_type (EX_LOGIOR t l r) = t"
| "expr_type (EX_NOT t e) = t"
| "expr_type (EX_GROUP t e) = t"
| "expr_type (EX_VARIABLE t reg) = t"
| "expr_type (EX_ASSIGN t reg rhs) = t"
| "expr_type (EX_COMMA t l r) = t"
| "expr_type (EX_TERNARY t c tv fv) = t"
| "expr_type (EX_OTHER n t) = t"

fun is_EX_FIXNUM :: "Expr \<Rightarrow> bool" where
  "is_EX_FIXNUM (EX_FIXNUM t v) = True"
| "is_EX_FIXNUM _ = False"

fun cmp_offset :: "CmpKind \<Rightarrow> int" where
  "cmp_offset EX_EQ = 0"
| "cmp_offset EX_NE = 1"
| "cmp_offset EX_LT = 2"
| "cmp_offset EX_LE = 3"
| "cmp_offset EX_GE = 4"
| "cmp_offset EX_GT = 5"

text \<open>
  The instructions of the earlier IR that these functions emit, named after the
  constructor that emits them: \<open>new_ir_mov(dst, src)\<close>, \<open>new_ir_test(reg)\<close>,
  \<open>new_ir_cmp(opr1, opr2)\<close>, \<open>new_ir_jmp(cond, bb)\<close>, \<open>new_ir_cond(cond)\<close> (with
  its result VReg), \<open>new_ir_unary(IR_NOT, reg, vtype)\<close> (result and operand), and
  \<open>Ir_other d n\<close> for every other instruction (a load, a store, an arithmetic
  instruction, a call): it bears a number \<open>n\<close> and the VReg \<open>d\<close> it was created for. A
  basic block has a label and a vector of instructions.
\<close>

datatype ir =
    Ir_mov VRegT VRegT
  | Ir_test VRegT
  | Ir_cmp VRegT VRegT
  | Ir_jmp ConditionKind nat
  | Ir_cond VRegT ConditionKind
  | Ir_not VRegT VRegT
  | Ir_other VRegT nat

record BB =
  label :: nat
  irs :: "ir list"

text \<open>
  The state the lowering works on: the basic blocks of the function in the order of their
  \<open>next\<close> links, the current block \<open>curbb\<close> (by label), and the counters from which
  fresh labels and fresh VRegs are taken.

  Modelled from the spec: ir.c and regalloc.c are not among the sources. The constructors
  append their instruction to the current block; \<open>bb_split(bb)\<close> makes a new empty block
  and links it in directly after \<open>bb\<close>; \<open>add_new_reg\<close>, \<open>new_const_vreg\<close>,
  \<open>new_ir_cond\<close> and \<open>new_ir_unary\<close> take their result VReg fresh from the allocator,
  a constant VReg carrying its literal.
\<close>

record codegen =
  bbs :: "BB list"
  curbb :: nat
  bb_count :: nat
  vreg_count :: nat

definition new_ir :: "ir \<Rightarrow> codegen \<Rightarrow> codegen" where
  "new_ir i s =
     s\<lparr>bbs := map (\<lambda>b. if label b = curbb s then b\<lparr>irs := irs b @ [i]\<rparr> else b) (bbs s)\<rparr>"

fun insert_after :: "nat \<Rightarrow> BB \<Rightarrow> BB list \<Rightarrow> BB list" where
  "insert_after l nb [] = []"
| "insert_after l nb (b # bs) =
     (if label b = l then b # nb # bs else b # insert_after l nb bs)"

definition bb_split :: "nat \<Rightarrow> codegen \<Rightarrow> nat \<times> codegen" where
  "bb_split l s =
     (bb_count s,
      s\<lparr>bbs := insert_after l \<lparr>label = bb_count s, irs = []\<rparr> (bbs s),
        bb_count := Suc (bb_count s)\<rparr>)"

definition set_curbb :: "nat \<Rightarrow> codegen \<Rightarrow> codegen" where
  "set_curbb l s = s\<lparr>curbb := l\<rparr>"

definition reg_alloc_spawn_vt :: "VRegType \<Rightarrow> codegen \<Rightarrow> VRegT \<times> codegen" where
  "reg_alloc_spawn_vt vt s =
     (\<lparr>vreg_id = vreg_count s, vreg_const = False, vreg_fixnum = 0, vtype = vt\<rparr>,
      s\<lparr>vreg_count := Suc (vreg_count s)\<rparr>)"

definition add_new_reg :: "Type \<Rightarrow> codegen \<Rightarrow> VRegT \<times> codegen" where
  "add_new_reg type s = reg_alloc_spawn_vt (to_vtype type) s"

definition new_const_vreg :: "64 word \<Rightarrow> VRegType \<Rightarrow> codegen \<Rightarrow> VRegT \<times> codegen" where
  "new_const_vreg v vt s =
     (\<lparr>vreg_id = vreg_count s, vreg_const = True, vreg_fixnum = v, vtype = vt\<rparr>,
      s\<lparr>vreg_count := Suc (vreg_count s)\<rparr>)"

definition tyBool :: Type where
  "tyBool = \<lparr>tkind = TY_FIXNUM, fixnum_kind = FX_INT, fixnum_is_unsigned = False,
             type_size = 4, align_size = 4\<rparr>"

definition new_ir_mov_cg :: "VRegT \<Rightarrow> VRegT \<Rightarrow> codegen \<Rightarrow> codegen" where
  "new_ir_mov_cg d src s = new_ir (Ir_mov d src) s"

definition new_ir_test :: "VRegT \<Rightarrow> codegen \<Rightarrow> codegen" where
  "new_ir_test r s = new_ir (Ir_test r) s"

definition new_ir_cmp :: "VRegT \<Rightarrow> VRegT \<Rightarrow> codegen \<Rightarrow> codegen" where
  "new_ir_cmp a b s = new_ir (Ir_cmp a b) s"

definition new_ir_jmp :: "ConditionKind \<Rightarrow> nat \<Rightarrow> codegen \<Rightarrow> codegen" where
  "new_ir_jmp c bb s = new_ir (Ir_jmp c bb) s"

definition new_ir_cond :: "ConditionKind \<Rightarrow> codegen \<Rightarrow> VRegT \<times> codegen" where
  "new_ir_cond c s =
     (case reg_alloc_spawn_vt (to_vtype tyBool) s of (d, s1) \<Rightarrow> (d, new_ir (Ir_cond d c) s1))"

definition new_ir_unary_not :: "VRegT \<Rightarrow> VRegType \<Rightarrow> codegen \<Rightarrow> VRegT \<times> codegen" where
  "new_ir_unary_not r vt s =
     (case reg_alloc_spawn_vt vt s of (d, s1) \<Rightarrow> (d, new_ir (Ir_not d r) s1))"

definition is_fixnum :: "TypeKind \<Rightarrow> bool" where
  "is_fixnum k \<longleftrightarrow> k = TY_FIXNUM"

text \<open>\<open>is_im32\<close> (util.h): the value fits a signed 32-bit immediate.\<close>

definition is_im32 :: "64 word \<Rightarrow> bool" where
  "is_im32 x \<longleftrightarrow> sint x \<le> 2 ^ 31 - 1 \<and> sint x \<ge> - (2 ^ 31)"

text \<open>
  The jump that ends a comparison in gen_cond_jmp: \<open>kind\<close> is what gen_compare_expr
  returned, \<open>yes\<close> and \<open>no\<close> are the two conditions of the \<open>case\<close> it falls in.
  \<^verbatim>\<open>if (kind != COND_LT) tf = !tf;
  if (tf) new_ir_jmp(COND_LT, bb); else new_ir_jmp(COND_GE, bb);\<close>
\<close>

definition jmp_pair ::
  "ConditionKind \<Rightarrow> ConditionKind \<Rightarrow> ConditionKind \<Rightarrow> bool \<Rightarrow> nat \<Rightarrow> codegen \<Rightarrow> codegen" where
  "jmp_pair ckind yes no tf bb s =
     (let tf' = (if ckind \<noteq> yes then \<not> tf else tf)
      in if tf' then new_ir_jmp yes bb s else new_ir_jmp no bb s)"

text \<open>
  The lowering of the other expressions: whatever the remaining cases of gen_expr do with
  the expression numbered \<open>n\<close> (of the given type) in a lowering state, as a function to
  the VReg returned and the state afterwards, \<open>None\<close> for a failed assertion. It may
  return a VReg that exists already, write VRegs that exist already, split blocks, or emit
  any instructions. The three functions below take it as their first argument.
\<close>

type_synonym lower = "nat \<Rightarrow> Type \<Rightarrow> codegen \<Rightarrow> (VRegT \<times> codegen) option"

text \<open>
  The three functions call each other. A failed assertion is \<open>None\<close>. gen_compare_expr is
  lines 38 to 78, gen_cond_jmp lines 80 to 197, gen_expr lines 538 to 898 of
  codegen_expr.c: the cases EX_FIXNUM, EX_GROUP, EX_NOT, the comparisons, EX_LOGAND and
  EX_LOGIOR, then EX_VARIABLE (gen_variable, lines 290 to 300, for the local in a
  register), EX_ASSIGN (lines 626 to 642, for the local in a register), EX_COMMA (lines
  616 to 618) and EX_TERNARY (gen_ternary, lines 316 to 335); every other case is
  \<open>other\<close>.
\<close>

function (sequential)
  gen_expr :: "lower \<Rightarrow> Expr \<Rightarrow> codegen \<Rightarrow> (VRegT \<times> codegen) option" and
  gen_cond_jmp :: "lower \<Rightarrow> Expr \<Rightarrow> bool \<Rightarrow> nat \<Rightarrow> codegen \<Rightarrow> codegen option" and
  gen_compare_expr :: "lower \<Rightarrow> CmpKind \<Rightarrow> Expr \<Rightarrow> Expr \<Rightarrow> codegen \<Rightarrow> (ConditionKind \<times> codegen) option"
where
  "gen_expr other (EX_FIXNUM t v) s =
     (if tkind t = TY_FIXNUM then Some (new_const_vreg v (to_vtype t) s) else None)"
| "gen_expr other (EX_GROUP t e) s = gen_expr other e s"
| "gen_expr other (EX_NOT t e) s =
     (case gen_expr other e s of
        None \<Rightarrow> None
      | Some (reg, s1) \<Rightarrow>
          if tkind (expr_type e) \<in> {TY_FIXNUM, TY_PTR, TY_ARRAY, TY_FUNC}
          then Some (new_ir_unary_not reg (to_vtype t) s1)
          else None)"
| "gen_expr other (EX_COMPARE k t lhs rhs) s =
     (case gen_compare_expr other k lhs rhs s of
        None \<Rightarrow> None
      | Some (cond, s1) \<Rightarrow> Some (new_ir_cond cond s1))"
| "gen_expr other (EX_LOGAND t lhs rhs) s =
     (case bb_split (curbb s) s of (bb1, s1) \<Rightarrow>
      case bb_split bb1 s1 of (bb2, s2) \<Rightarrow>
      case bb_split bb2 s2 of (false_bb, s3) \<Rightarrow>
      case bb_split false_bb s3 of (next_bb, s4) \<Rightarrow>
      case gen_cond_jmp other lhs False false_bb s4 of
        None \<Rightarrow> None
      | Some s5 \<Rightarrow>
          (case gen_cond_jmp other rhs False false_bb (set_curbb bb1 s5) of
             None \<Rightarrow> None
           | Some s6 \<Rightarrow>
               (case add_new_reg tyBool (set_curbb bb2 s6) of (result, s7) \<Rightarrow>
                case new_const_vreg 1 (to_vtype tyBool) s7 of (one, s8) \<Rightarrow>
                case new_const_vreg 0 (to_vtype tyBool)
                       (set_curbb false_bb
                          (new_ir_jmp COND_ANY next_bb (new_ir_mov_cg result one s8)))
                of (zero, s9) \<Rightarrow>
                  Some (result, set_curbb next_bb (new_ir_mov_cg result zero s9)))))"
| "gen_expr other (EX_LOGIOR t lhs rhs) s =
     (case bb_split (curbb s) s of (bb1, s1) \<Rightarrow>
      case bb_split bb1 s1 of (bb2, s2) \<Rightarrow>
      case bb_split bb2 s2 of (true_bb, s3) \<Rightarrow>
      case bb_split true_bb s3 of (next_bb, s4) \<Rightarrow>
      case gen_cond_jmp other lhs True true_bb s4 of
        None \<Rightarrow> None
      | Some s5 \<Rightarrow>
          (case gen_cond_jmp other rhs True true_bb (set_curbb bb1 s5) of
             None \<Rightarrow> None
           | Some s6 \<Rightarrow>
               (case add_new_reg tyBool (set_curbb bb2 s6) of (result, s7) \<Rightarrow>
                case new_const_vreg 0 (to_vtype tyBool) s7 of (zero, s8) \<Rightarrow>
                case new_const_vreg 1 (to_vtype tyBool)
                       (set_curbb true_bb
                          (new_ir_jmp COND_ANY next_bb (new_ir_mov_cg result zero s8)))
                of (one, s9) \<Rightarrow>
                  Some (result, set_curbb next_bb (new_ir_mov_cg result one s9)))))"
| "gen_expr other (EX_VARIABLE t reg) s = Some (reg, s)"
| "gen_expr other (EX_ASSIGN t reg rhs) s =
     (case gen_expr other rhs s of
        None \<Rightarrow> None
      | Some (src, s1) \<Rightarrow> Some (src, new_ir_mov_cg reg src s1))"
| "gen_expr other (EX_COMMA t lhs rhs) s =
     (case gen_expr other lhs s of
        None \<Rightarrow> None
      | Some (unused, s1) \<Rightarrow> gen_expr other rhs s1)"
| "gen_expr other (EX_TERNARY t c tv fv) s =
     (case bb_split (curbb s) s of (tbb, s1) \<Rightarrow>
      case bb_split tbb s1 of (fbb, s2) \<Rightarrow>
      case bb_split fbb s2 of (nbb, s3) \<Rightarrow>
      case add_new_reg t s3 of (result, s4) \<Rightarrow>
      case gen_cond_jmp other c False fbb s4 of
        None \<Rightarrow> None
      | Some s5 \<Rightarrow>
          (case gen_expr other tv (set_curbb tbb s5) of
             None \<Rightarrow> None
           | Some (tval, s6) \<Rightarrow>
               (case gen_expr other fv
                       (set_curbb fbb (new_ir_jmp COND_ANY nbb (new_ir_mov_cg result tval s6)))
                of None \<Rightarrow> None
                 | Some (fval, s7) \<Rightarrow>
                     Some (result, set_curbb nbb (new_ir_mov_cg result fval s7)))))"
| "gen_expr other (EX_OTHER n t) s = other n t s"

| "gen_cond_jmp other (EX_FIXNUM t v) tf bb s =
     (let tf' = (if v = 0 then \<not> tf else tf)
      in if tf' then Some (new_ir_jmp COND_ANY bb s) else Some s)"
| "gen_cond_jmp other (EX_COMPARE k t lhs rhs) tf bb s =
     (case gen_compare_expr other k lhs rhs s of
        None \<Rightarrow> None
      | Some (ckind, s1) \<Rightarrow>
          if k = EX_EQ \<or> k = EX_NE then Some (jmp_pair ckind COND_EQ COND_NE tf bb s1)
          else if ckind = COND_LT \<or> ckind = COND_GE then Some (jmp_pair ckind COND_LT COND_GE tf bb s1)
          else if ckind = COND_GT \<or> ckind = COND_LE then Some (jmp_pair ckind COND_GT COND_LE tf bb s1)
          else if ckind = COND_ULT \<or> ckind = COND_UGE then Some (jmp_pair ckind COND_ULT COND_UGE tf bb s1)
          else if ckind = COND_UGT \<or> ckind = COND_ULE then Some (jmp_pair ckind COND_UGT COND_ULE tf bb s1)
          else None)"
| "gen_cond_jmp other (EX_NOT t e) tf bb s = gen_cond_jmp other e (\<not> tf) bb s"
| "gen_cond_jmp other (EX_LOGAND t lhs rhs) tf bb s =
     (case bb_split (curbb s) s of (bb1, s1) \<Rightarrow>
      case bb_split bb1 s1 of (bb2, s2) \<Rightarrow>
        if \<not> tf then
          (case gen_cond_jmp other lhs False bb s2 of
             None \<Rightarrow> None
           | Some s3 \<Rightarrow>
               (case gen_cond_jmp other rhs False bb (set_curbb bb1 s3) of
                  None \<Rightarrow> None
                | Some s4 \<Rightarrow> Some (set_curbb bb2 s4)))
        else
          (case gen_cond_jmp other lhs False bb2 s2 of
             None \<Rightarrow> None
           | Some s3 \<Rightarrow>
               (case gen_cond_jmp other rhs True bb (set_curbb bb1 s3) of
                  None \<Rightarrow> None
                | Some s4 \<Rightarrow> Some (set_curbb bb2 s4))))"
| "gen_cond_jmp other (EX_LOGIOR t lhs rhs) tf bb s =
     (case bb_split (curbb s) s of (bb1, s1) \<Rightarrow>
      case bb_split bb1 s1 of (bb2, s2) \<Rightarrow>
        if tf then
          (case gen_cond_jmp other lhs True bb s2 of
             None \<Rightarrow> None
           | Some s3 \<Rightarrow>
               (case gen_cond_jmp other rhs True bb (set_curbb bb1 s3) of
                  None \<Rightarrow> None
                | Some s4 \<Rightarrow> Some (set_curbb bb2 s4)))
        else
          (case gen_cond_jmp other lhs True bb2 s2 of
             None \<Rightarrow> None
           | Some s3 \<Rightarrow>
               (case gen_cond_jmp other rhs False bb (set_curbb bb1 s3) of
                  None \<Rightarrow> None
                | Some s4 \<Rightarrow> Some (set_curbb bb2 s4))))"
| "gen_cond_jmp other (EX_GROUP t e) tf bb s = gen_cond_jmp other e tf bb s"
| "gen_cond_jmp other e tf bb s =
     (case gen_expr other e s of
        None \<Rightarrow> None
      | Some (reg, s1) \<Rightarrow>
          Some (new_ir_jmp (if tf then COND_NE else COND_EQ) bb (new_ir_test reg s1)))"

| "gen_compare_expr other k lhs0 rhs0 s =
     (if tkind (expr_type lhs0) \<noteq> tkind (expr_type rhs0) then None
      else
        (let cond0 = cmp_offset k + COND_EQ;
             swap = (\<not> is_EX_FIXNUM rhs0 \<and> is_EX_FIXNUM lhs0);
             lhs = (if swap then rhs0 else lhs0);
             rhs = (if swap then lhs0 else rhs0)
         in case (if swap then swap_cond cond0 else Some cond0) of
              None \<Rightarrow> None
            | Some cond1 \<Rightarrow>
               (let cond = (if cond1 > COND_NE \<and>
                               (\<not> is_fixnum (tkind (expr_type lhs)) \<or>
                                fixnum_is_unsigned (expr_type lhs))
                            then cond1 + (COND_ULT - COND_LT) else cond1)
                in case gen_expr other lhs s of
                     None \<Rightarrow> None
                   | Some (lhs_reg, s1) \<Rightarrow>
                       (case rhs of
                          EX_FIXNUM rt v \<Rightarrow>
                            if v = 0 \<and> (cond = COND_EQ \<or> cond = COND_NE)
                            then Some (cond, new_ir_test lhs_reg s1)
                            else if fixnum_kind (expr_type lhs) \<noteq> FX_LONG \<or> is_im32 v
                            then (case new_const_vreg v (to_vtype rt) s1 of (num, s2) \<Rightarrow>
                                    Some (cond, new_ir_cmp lhs_reg num s2))
                            else if tkind (expr_type lhs) \<notin> {TY_FIXNUM, TY_PTR} then None
                            else
                              (case gen_expr other rhs s1 of
                                 None \<Rightarrow> None
                               | Some (rhs_reg, s2) \<Rightarrow>
                                   (case add_new_reg (expr_type lhs) s2 of (tmp, s3) \<Rightarrow>
                                      Some (cond, new_ir_cmp tmp rhs_reg
                                                    (new_ir_mov_cg tmp lhs_reg s3))))
                        | _ \<Rightarrow>
                            if tkind (expr_type lhs) \<notin> {TY_FIXNUM, TY_PTR} then None
                            else
                              (case gen_expr other rhs s1 of
                                 None \<Rightarrow> None
                               | Some (rhs_reg, s2) \<Rightarrow>
                                   (case add_new_reg (expr_type lhs) s2 of (tmp, s3) \<Rightarrow>
                                      Some (cond, new_ir_cmp tmp rhs_reg
                                                    (new_ir_mov_cg tmp lhs_reg s3))))))))"
  by pat_completeness auto
termination
  by (relation "measure (\<lambda>x. case x of
        Inl (other, e, s) \<Rightarrow> 2 * size e
      | Inr (Inl (other, e, tf, bb, s)) \<Rightarrow> 2 * size e + 1
      | Inr (Inr (other, k, l, r, s)) \<Rightarrow> 2 * (size l + size r) + 1)")
     (auto split: if_splits)

text \<open>
  The comparison with its operands exchanged, on the expression kinds: the mirrored
  comparison.
\<close>

fun mirror :: "CmpKind \<Rightarrow> CmpKind" where
  "mirror EX_EQ = EX_EQ"
| "mirror EX_NE = EX_NE"
| "mirror EX_LT = EX_GT"
| "mirror EX_LE = EX_GE"
| "mirror EX_GE = EX_LE"
| "mirror EX_GT = EX_LT"

text \<open>
  The signed condition of a comparison kind, and the unsigned one for the kinds after
  COND_NE when the left operand is not a signed fixnum.
\<close>

definition cond_of :: "CmpKind \<Rightarrow> Type \<Rightarrow> ConditionKind" where
  "cond_of k ltype =
     (if (k \<noteq> EX_EQ \<and> k \<noteq> EX_NE) \<and> (tkind ltype \<noteq> TY_FIXNUM \<or> fixnum_is_unsigned ltype)
      then cmp_offset k + COND_ULT - 2
      else cmp_offset k + COND_EQ)"

text \<open>
  Sample operands: an empty function with one block, and a lowering of the other
  expressions that emits one instruction into a fresh VReg.
\<close>

definition cg0 :: codegen where
  "cg0 = \<lparr>bbs = [\<lparr>label = 0, irs = []\<rparr>], curbb = 0, bb_count = 1, vreg_count = 0\<rparr>"

definition lower_fresh :: lower where
  "lower_fresh n t s = (case add_new_reg t s of (r, s1) \<Rightarrow> Some (r, new_ir (Ir_other r n) s1))"
section \<open>Running the lowered IR\<close>

text \<open>
  To say on which paths an instruction is reached, the instructions are given their
  meaning. A machine state holds the value of every VReg that is not a constant, the two
  numbers last compared (the flags), the memory, and the list of the numbers of the
  \<open>Ir_other\<close> instructions executed so far. A position is a block label and an index
  into its instructions. \<open>Ir_test r\<close> compares \<open>r\<close> with 0, a jump is taken when its
  condition holds of the flags, the end of a block falls through to the block linked behind
  it. What \<open>Ir_other d n\<close> does to registers, flags and memory is given by the environment
  \<open>env n\<close>, any function on machine states; that it was executed is recorded.
\<close>

record mstate =
  regs :: "nat \<Rightarrow> 64 word"
  flags :: "64 word \<times> 64 word"
  memory :: "nat \<Rightarrow> 8 word"
  evaluated :: "nat list"

type_synonym effects = "nat \<Rightarrow> mstate \<Rightarrow> mstate"

definition val :: "mstate \<Rightarrow> VRegT \<Rightarrow> 64 word" where
  "val m r = (if vreg_const r then vreg_fixnum r else regs m (vreg_id r))"

definition cond_taken :: "ConditionKind \<Rightarrow> 64 word \<times> 64 word \<Rightarrow> bool" where
  "cond_taken c f =
     (case f of (x, y) \<Rightarrow>
        if c = COND_ANY then True
        else if c = COND_EQ then x = y
        else if c = COND_NE then x \<noteq> y
        else if c = COND_LT then sint x < sint y
        else if c = COND_LE then sint x \<le> sint y
        else if c = COND_GE then sint x \<ge> sint y
        else if c = COND_GT then sint x > sint y
        else if c = COND_ULT then x < y
        else if c = COND_ULE then x \<le> y
        else if c = COND_UGE then x \<ge> y
        else if c = COND_UGT then x > y
        else False)"

fun get_bb :: "BB list \<Rightarrow> nat \<Rightarrow> BB option" where
  "get_bb [] l = None"
| "get_bb (b # bs) l = (if label b = l then Some b else get_bb bs l)"

fun next_label :: "BB list \<Rightarrow> nat \<Rightarrow> nat option" where
  "next_label [] l = None"
| "next_label [b] l = None"
| "next_label (b # b' # bs) l = (if label b = l then Some (label b') else next_label (b' # bs) l)"

definition irs_of :: "BB list \<Rightarrow> nat \<Rightarrow> ir list" where
  "irs_of bs l = (case get_bb bs l of None \<Rightarrow> [] | Some b \<Rightarrow> irs b)"

type_synonym config = "(nat \<times> nat) \<times> mstate"

definition exec_ir :: "effects \<Rightarrow> ir \<Rightarrow> nat \<times> nat \<Rightarrow> mstate \<Rightarrow> config" where
  "exec_ir env i pos m =
     (case pos of (l, n) \<Rightarrow>
        case i of
          Ir_mov d src \<Rightarrow> ((l, Suc n), m\<lparr>regs := (regs m)(vreg_id d := val m src)\<rparr>)
        | Ir_test r \<Rightarrow> ((l, Suc n), m\<lparr>flags := (val m r, 0)\<rparr>)
        | Ir_cmp a b \<Rightarrow> ((l, Suc n), m\<lparr>flags := (val m a, val m b)\<rparr>)
        | Ir_jmp c bb \<Rightarrow> (if cond_taken c (flags m) then ((bb, 0), m) else ((l, Suc n), m))
        | Ir_cond d c \<Rightarrow>
            ((l, Suc n), m\<lparr>regs := (regs m)(vreg_id d := (if cond_taken c (flags m) then 1 else 0))\<rparr>)
        | Ir_not d src \<Rightarrow>
            ((l, Suc n), m\<lparr>regs := (regs m)(vreg_id d := (if val m src = 0 then 1 else 0))\<rparr>)
        | Ir_other d e \<Rightarrow>
            ((l, Suc n), (env e m)\<lparr>evaluated := evaluated m @ [e]\<rparr>))"

definition step :: "BB list \<Rightarrow> effects \<Rightarrow> config \<Rightarrow> config option" where
  "step bs env c =
     (case c of ((l, n), m) \<Rightarrow>
        case get_bb bs l of
          None \<Rightarrow> None
        | Some b \<Rightarrow>
            if n < length (irs b) then Some (exec_ir env (irs b ! n) (l, n) m)
            else (case next_label bs l of
                    None \<Rightarrow> None
                  | Some l' \<Rightarrow> Some ((l', 0), m)))"

text \<open>\<open>reaches bs env c c'\<close>: running from \<open>c\<close> comes to \<open>c'\<close> after some steps.\<close>

inductive reaches :: "BB list \<Rightarrow> effects \<Rightarrow> config \<Rightarrow> config \<Rightarrow> bool"
  for bs :: "BB list" and env :: effects where
  here: "reaches bs env c c"
| after: "step bs env c = Some c' \<Longrightarrow> reaches bs env c' c'' \<Longrightarrow> reaches bs env c c''"

code_pred (modes: i \<Rightarrow> i \<Rightarrow> i \<Rightarrow> o \<Rightarrow> bool) reaches .

text \<open>
  The meaning of the expressions. As gen_expr returns a VReg and not a number, the meaning
  of an expression in a machine state is a place and the machine state afterwards: the
  place is a number (\<open>Imm\<close>), or the VReg of a variable (\<open>Loc\<close>), which is read when the
  value is used. The meaning of the expression numbered \<open>n\<close> is given (\<open>om n\<close>). \<open>&&\<close>
  and \<open>||\<close> evaluate their right operand only when the left one does not decide; their
  value and the value of \<open>!\<close> and of a comparison is 0 or 1. A comparison evaluates its
  operands from left to right and then compares as gen_compare_expr sets it up: with the
  condition of the kind and of the type of the left operand, or mirrored on the exchanged
  operands when only the left operand is a literal. A variable is its VReg; an assignment
  evaluates its right side, writes what it yields into the VReg of the variable and is the
  place of its right side (gen_expr returns the VReg of the right side); a comma
  expression evaluates its left side and then is its right side; a conditional expression
  evaluates its condition and then the one of its two branches that the condition selects,
  and is the number which that branch yields.
\<close>

datatype place = Imm "64 word" | Loc nat

fun read :: "place \<Rightarrow> mstate \<Rightarrow> 64 word" where
  "read (Imm v) m = v"
| "read (Loc x) m = regs m x"

definition truthy :: "place \<times> mstate \<Rightarrow> bool" where
  "truthy pm = (read (fst pm) (snd pm) \<noteq> 0)"

type_synonym meaning = "nat \<Rightarrow> mstate \<Rightarrow> place \<times> mstate"

definition compare_holds :: "CmpKind \<Rightarrow> Expr \<Rightarrow> Expr \<Rightarrow> 64 word \<Rightarrow> 64 word \<Rightarrow> bool" where
  "compare_holds k lhs rhs x y =
     (if \<not> is_EX_FIXNUM rhs \<and> is_EX_FIXNUM lhs
      then cond_taken (cond_of (mirror k) (expr_type rhs)) (y, x)
      else cond_taken (cond_of k (expr_type lhs)) (x, y))"

fun sem :: "meaning \<Rightarrow> Expr \<Rightarrow> mstate \<Rightarrow> place \<times> mstate" where
  "sem om (EX_FIXNUM t v) m = (Imm v, m)"
| "sem om (EX_OTHER n t) m = om n m"
| "sem om (EX_GROUP t e) m = sem om e m"
| "sem om (EX_NOT t e) m =
     (case sem om e m of (p, m1) \<Rightarrow> (Imm (if read p m1 = 0 then 1 else 0), m1))"
| "sem om (EX_LOGAND t a b) m =
     (case sem om a m of (pa, m1) \<Rightarrow>
        if read pa m1 = 0 then (Imm 0, m1)
        else (case sem om b m1 of (pb, m2) \<Rightarrow> (Imm (if read pb m2 = 0 then 0 else 1), m2)))"
| "sem om (EX_LOGIOR t a b) m =
     (case sem om a m of (pa, m1) \<Rightarrow>
        if read pa m1 \<noteq> 0 then (Imm 1, m1)
        else (case sem om b m1 of (pb, m2) \<Rightarrow> (Imm (if read pb m2 = 0 then 0 else 1), m2)))"
| "sem om (EX_COMPARE k t a b) m =
     (case sem om a m of (pa, m1) \<Rightarrow>
      case sem om b m1 of (pb, m2) \<Rightarrow>
        (Imm (if compare_holds k a b (read pa m2) (read pb m2) then 1 else 0), m2))"
| "sem om (EX_VARIABLE t reg) m = (Loc (vreg_id reg), m)"
| "sem om (EX_ASSIGN t reg rhs) m =
     (case sem om rhs m of (p, m1) \<Rightarrow> (p, m1\<lparr>regs := (regs m1)(vreg_id reg := read p m1)\<rparr>))"
| "sem om (EX_COMMA t a b) m = sem om b (snd (sem om a m))"
| "sem om (EX_TERNARY t c a b) m =
     (case sem om c m of (pc, m1) \<Rightarrow>
        if read pc m1 \<noteq> 0 then (case sem om a m1 of (p, m2) \<Rightarrow> (Imm (read p m2), m2))
        else (case sem om b m1 of (p, m2) \<Rightarrow> (Imm (read p m2), m2)))"

text \<open>
  \<open>locals_in V e\<close>: the VRegs of the variables that \<open>e\<close> reads or assigns are VRegs and
  not constants, and are among \<open>V\<close>.
\<close>

fun locals_in :: "nat set \<Rightarrow> Expr \<Rightarrow> bool" where
  "locals_in V (EX_FIXNUM t v) = True"
| "locals_in V (EX_OTHER n t) = True"
| "locals_in V (EX_GROUP t e) = locals_in V e"
| "locals_in V (EX_NOT t e) = locals_in V e"
| "locals_in V (EX_LOGAND t a b) = (locals_in V a \<and> locals_in V b)"
| "locals_in V (EX_LOGIOR t a b) = (locals_in V a \<and> locals_in V b)"
| "locals_in V (EX_COMPARE k t a b) = (locals_in V a \<and> locals_in V b)"
| "locals_in V (EX_VARIABLE t reg) = (\<not> vreg_const reg \<and> vreg_id reg \<in> V)"
| "locals_in V (EX_ASSIGN t reg rhs) = (\<not> vreg_const reg \<and> vreg_id reg \<in> V \<and> locals_in V rhs)"
| "locals_in V (EX_COMMA t a b) = (locals_in V a \<and> locals_in V b)"
| "locals_in V (EX_TERNARY t c a b) = (locals_in V c \<and> locals_in V a \<and> locals_in V b)"

text \<open>
  A lowering state is well formed when the labels of its blocks are distinct and below the
  counter of labels, and the current block is one of them.
\<close>

definition wf_cg :: "codegen \<Rightarrow> bool" where
  "wf_cg s \<longleftrightarrow>
     distinct (map label (bbs s)) \<and>
     list_all (\<lambda>b. label b < bb_count s) (bbs s) \<and>
     curbb s \<in> set (map label (bbs s))"

text \<open>
  \<open>shape s pre c post\<close>: the blocks of \<open>s\<close> are \<open>pre\<close>, the current block \<open>c\<close> and
  \<open>post\<close>, in this order, and \<open>s\<close> is well formed.
\<close>

definition shape :: "codegen \<Rightarrow> BB list \<Rightarrow> BB \<Rightarrow> BB list \<Rightarrow> bool" where
  "shape s pre c post \<longleftrightarrow>
     bbs s = pre @ c # post \<and> label c = curbb s \<and>
     distinct (map label (pre @ c # post)) \<and>
     list_all (\<lambda>b. label b < bb_count s) (pre @ c # post)"

text \<open>
  Two relations between lowering states, used to follow the blocks through the lowering.
  \<open>grows s s'\<close>: \<open>s'\<close> differs from \<open>s\<close> by instructions appended to the current
  block of \<open>s\<close> and by new blocks linked in directly behind it, the last of which is the
  current block of \<open>s'\<close>. \<open>ext s S\<close>: in \<open>S\<close> the blocks in front of the current block
  of \<open>s\<close> are as in \<open>s\<close>, that block has at most gained instructions at its end, and the
  current block of \<open>S\<close> is not in front of it.
\<close>

definition grows :: "codegen \<Rightarrow> codegen \<Rightarrow> bool" where
  "grows s s' \<longleftrightarrow>
     bb_count s \<le> bb_count s' \<and> vreg_count s \<le> vreg_count s' \<and>
     (\<forall>pre c post. shape s pre c post \<longrightarrow>
        (\<exists>code region f l.
            c\<lparr>irs := irs c @ code\<rparr> # region = f @ [l] \<and> shape s' (pre @ f) l post))"

definition ext :: "codegen \<Rightarrow> codegen \<Rightarrow> bool" where
  "ext s S \<longleftrightarrow>
     distinct (map label (bbs S)) \<and>
     (\<exists>pre c post c' post' xs.
         bbs s = pre @ c # post \<and> label c = curbb s \<and>
         bbs S = pre @ c' # post' \<and> label c' = curbb s \<and> irs c' = irs c @ xs \<and>
         curbb S \<in> set (map label (c' # post')))"

text \<open>The position at the end of the current block.\<close>

definition cur_end :: "codegen \<Rightarrow> nat \<times> nat" where
  "cur_end s = (curbb s, length (irs_of (bbs s) (curbb s)))"



text \<open>
  What the lowered code may differ in from the meaning: the flags and the VRegs that hold
  intermediate results. \<open>agree V m m'\<close>: the two machine states have the same values in
  the VRegs of the variables (the set \<open>V\<close>), the same memory and the same record of
  instructions executed. \<open>holds V r p m\<close>: in \<open>m\<close> the VReg \<open>r\<close> stands for the place
  \<open>p\<close>; it is the VReg of the variable, or it holds the number and is not a variable.
\<close>

definition agree :: "nat set \<Rightarrow> mstate \<Rightarrow> mstate \<Rightarrow> bool" where
  "agree V m m' \<longleftrightarrow>
     (\<forall>x\<in>V. regs m x = regs m' x) \<and> memory m = memory m' \<and> evaluated m = evaluated m'"

definition holds :: "nat set \<Rightarrow> VRegT \<Rightarrow> place \<Rightarrow> mstate \<Rightarrow> bool" where
  "holds V r p m =
     (case p of
        Imm v \<Rightarrow> val m r = v \<and> (vreg_const r \<or> vreg_id r \<notin> V)
      | Loc x \<Rightarrow> \<not> vreg_const r \<and> vreg_id r = x)"

text \<open>
  What a lowering is to do, for every well-formed state \<open>s\<close> it starts in in which the
  variables have their VRegs, and every state \<open>S\<close> the lowering may come to later.

  \<open>lowers_value V env g f\<close>, of a lowering \<open>g\<close> that returns a VReg and of a meaning
  \<open>f\<close>: the code goes into the current block and into new blocks behind it; the VReg is a
  constant, the VReg of a variable or a new one; running \<open>S\<close> from the end of the block
  that was current comes to the end of the block that is current afterwards, in a machine
  state that agrees with the one of the meaning and in which the VReg stands for the place
  of the meaning; no VReg that existed before is written, the variables apart.

  \<open>lowers_jump V env g f\<close>, of a lowering \<open>g\<close> that jumps to \<open>bb\<close> on \<open>tf\<close>: running
  comes to the target block when the truth of the meaning is \<open>tf\<close>, and otherwise to the
  end of the block that is current afterwards.
\<close>

definition lowers_value ::
  "nat set \<Rightarrow> effects \<Rightarrow> (codegen \<Rightarrow> (VRegT \<times> codegen) option) \<Rightarrow>
   (mstate \<Rightarrow> place \<times> mstate) \<Rightarrow> bool" where
  "lowers_value V env g f \<longleftrightarrow>
     (\<forall>s r s'. g s = Some (r, s') \<and> wf_cg s \<and> V \<subseteq> {..<vreg_count s} \<longrightarrow>
        grows s s' \<and>
        (vreg_const r \<or> vreg_id r \<in> V \<or> (vreg_count s \<le> vreg_id r \<and> vreg_id r < vreg_count s')) \<and>
        (\<forall>S m. ext s' S \<longrightarrow>
           (\<exists>m'. reaches (bbs S) env (cur_end s, m) (cur_end s', m') \<and>
                 agree V m' (snd (f m)) \<and> holds V r (fst (f m)) m' \<and>
                 (\<forall>q<vreg_count s. q \<notin> V \<longrightarrow> regs m' q = regs m q))))"

definition lowers_jump ::
  "nat set \<Rightarrow> effects \<Rightarrow> (bool \<Rightarrow> nat \<Rightarrow> codegen \<Rightarrow> codegen option) \<Rightarrow>
   (mstate \<Rightarrow> place \<times> mstate) \<Rightarrow> bool" where
  "lowers_jump V env g f \<longleftrightarrow>
     (\<forall>tf bb s s'. g tf bb s = Some s' \<and> wf_cg s \<and> V \<subseteq> {..<vreg_count s} \<longrightarrow>
        grows s s' \<and>
        (\<forall>S m. ext s' S \<longrightarrow>
           (\<exists>m'. reaches (bbs S) env (cur_end s, m)
                    (if truthy (f m) = tf then (bb, 0) else cur_end s', m') \<and>
                 agree V m' (snd (f m)) \<and>
                 (\<forall>q<vreg_count s. q \<notin> V \<longrightarrow> regs m' q = regs m q))))"

text \<open>
  What is asked of the lowering of the other expressions, together with their meaning:
  the meaning does not look at the flags or at the VRegs of intermediate results
  (\<open>stable_meaning\<close>), its place is a number or the VReg of a variable, and the lowering of each
  expression lowers its value in the sense above.
\<close>

definition stable_meaning :: "nat set \<Rightarrow> (mstate \<Rightarrow> place \<times> mstate) \<Rightarrow> bool" where
  "stable_meaning V f \<longleftrightarrow>
     (\<forall>m m2. agree V m m2 \<longrightarrow> fst (f m) = fst (f m2) \<and> agree V (snd (f m)) (snd (f m2))) \<and>
     (\<forall>m x. fst (f m) = Loc x \<longrightarrow> x \<in> V)"

definition meaning_ok :: "nat set \<Rightarrow> meaning \<Rightarrow> bool" where
  "meaning_ok V om \<longleftrightarrow> (\<forall>n. stable_meaning V (om n))"

definition other_ok :: "nat set \<Rightarrow> effects \<Rightarrow> lower \<Rightarrow> meaning \<Rightarrow> bool" where
  "other_ok V env other om \<longleftrightarrow>
     meaning_ok V om \<and> (\<forall>n t. lowers_value V env (other n t) (om n))"

definition ge_ok :: "nat set \<Rightarrow> effects \<Rightarrow> lower \<Rightarrow> meaning \<Rightarrow> Expr \<Rightarrow> bool" where
  "ge_ok V env other om e \<longleftrightarrow> lowers_value V env (gen_expr other e) (sem om e)"

definition cj_ok :: "nat set \<Rightarrow> effects \<Rightarrow> lower \<Rightarrow> meaning \<Rightarrow> Expr \<Rightarrow> bool" where
  "cj_ok V env other om e \<longleftrightarrow> lowers_jump V env (gen_cond_jmp other e) (sem om e)"

text \<open>
  Sample operands: a function with one block in which the VRegs 0, 1 and 2 are the local
  variables \<open>a\<close>, \<open>x\<close> and \<open>y\<close>. \<open>sample_and\<close> is \<open>x && y\<close> on the locals
  \<open>x\<close> and \<open>y\<close>, \<open>sample_and_lowered\<close> what gen_expr makes of it. The sample
  lowering of the other expressions takes the expression numbered \<open>n\<close> for one more way
  of naming the local in the VReg \<open>n\<close>: it returns that VReg and emits nothing, and its
  meaning is that VReg and changes nothing.
\<close>

definition sample_vreg :: "nat \<Rightarrow> VRegT" where
  "sample_vreg n = \<lparr>vreg_id = n, vreg_const = False, vreg_fixnum = 0, vtype = to_vtype tyBool\<rparr>"

definition sample_const_vreg :: "nat \<Rightarrow> 64 word \<Rightarrow> VRegT" where
  "sample_const_vreg n v = \<lparr>vreg_id = n, vreg_const = True, vreg_fixnum = v, vtype = to_vtype tyBool\<rparr>"

definition cg3 :: codegen where
  "cg3 = \<lparr>bbs = [\<lparr>label = 0, irs = []\<rparr>], curbb = 0, bb_count = 1, vreg_count = 3\<rparr>"

definition lower_var :: "nat set \<Rightarrow> lower" where
  "lower_var V n t s =
     (if n \<in> V then Some (\<lparr>vreg_id = n, vreg_const = False, vreg_fixnum = 0, vtype = to_vtype t\<rparr>, s)
      else None)"

definition meaning_var :: "nat set \<Rightarrow> meaning" where
  "meaning_var V n m = (if n \<in> V then Loc n else Imm 0, m)"

definition sample_and :: Expr where
  "sample_and =
     EX_LOGAND tyBool (EX_VARIABLE tyBool (sample_vreg 1)) (EX_VARIABLE tyBool (sample_vreg 2))"

definition sample_and_lowered :: codegen where
  "sample_and_lowered =
     \<lparr>bbs = [\<lparr>label = 0, irs = [Ir_test (sample_vreg 1), Ir_jmp COND_EQ 3]\<rparr>,
             \<lparr>label = 1, irs = [Ir_test (sample_vreg 2), Ir_jmp COND_EQ 3]\<rparr>,
             \<lparr>label = 2, irs = [Ir_mov (sample_vreg 3) (sample_const_vreg 4 1), Ir_jmp COND_ANY 4]\<rparr>,
             \<lparr>label = 3, irs = [Ir_mov (sample_vreg 3) (sample_const_vreg 5 0)]\<rparr>,
             \<lparr>label = 4, irs = []\<rparr>],
      curbb = 4, bb_count = 5, vreg_count = 6\<rparr>"

definition no_effects :: effects where
  "no_effects n m = m"
section \<open>WebAssembly back-end: data segment and module assembly (wcc.c)\<close>

text \<open>
  The types and initializers the data emitters walk. type.h, ast.h and initializer.h are
  not among the sources: a type is a fixnum (kind, unsigned), a flonum, a pointer, an array
  (element type, length), or another kind; an initializer is IK_SINGLE (an expression),
  IK_MULTI (a vector of initializer pointers, \<open>None\<close> for NULL), IK_DOT, or IK_ARR (an
  index and a value). Of an initializer expression the emitters read whether it is an
  EX_FIXNUM (with its value, and whether its type is a fixnum type, which
  construct_initial_value asks and construct_primitive_global does not), a flonum literal
  (kept as its binary32 and binary64 patterns: \<open>float f = v\<close> and \<open>double d = v\<close> are
  not computed here), or a string literal
  (the \<open>str.size\<close> bytes of \<open>str.buf\<close>).
\<close>

type_synonym byte = "8 word"

datatype FlonumKind = FL_FLOAT | FL_DOUBLE | FL_LDOUBLE

datatype CType =
    Fixnum_t FixnumKind bool
  | Flonum_t FlonumKind
  | Ptr_t CType
  | Array_t CType nat
  | Struct_t nat
  | Func_t
  | Void_t

datatype InitExpr =
    Const_fixnum bool "64 word"
  | Const_flonum "32 word" "64 word"
  | Str_literal "byte list"
  | Other_expr

datatype Initializer =
    IK_SINGLE InitExpr
  | IK_MULTI "Initializer option list"
  | IK_DOT
  | IK_ARR nat "Initializer option"

text \<open>
  \<^verbatim>\<open>set_fixnum_size(FX_CHAR,  1, 1);  set_fixnum_size(FX_SHORT, 2, 2);
  set_fixnum_size(FX_INT,   4, 4);  set_fixnum_size(FX_LONG,  4, 4);
  set_fixnum_size(FX_LLONG, 8, 8);  set_fixnum_size(FX_ENUM,  4, 4);\<close>
  (init_compiler in wcc.c).

  Modelled from the spec: \<open>type_size\<close> (type.c) is not among the sources. A fixnum has the
  size set for its kind, a float four bytes and a double eight, a pointer four (the wasm32
  address), an array the size of its element times its length, a struct the size recorded
  for it.
\<close>

fun fixnum_size_w :: "FixnumKind \<Rightarrow> nat" where
  "fixnum_size_w FX_CHAR = 1"
| "fixnum_size_w FX_SHORT = 2"
| "fixnum_size_w FX_INT = 4"
| "fixnum_size_w FX_LONG = 4"
| "fixnum_size_w FX_LLONG = 8"
| "fixnum_size_w FX_ENUM = 4"

fun type_size_w :: "CType \<Rightarrow> nat" where
  "type_size_w (Fixnum_t k u) = fixnum_size_w k"
| "type_size_w (Flonum_t fk) = (if fk = FL_FLOAT then 4 else 8)"
| "type_size_w (Ptr_t t) = 4"
| "type_size_w (Array_t t n) = type_size_w t * n"
| "type_size_w (Struct_t sz) = sz"
| "type_size_w Func_t = 1"
| "type_size_w Void_t = 1"

fun is_prim_type :: "CType \<Rightarrow> bool" where
  "is_prim_type (Fixnum_t k u) = True"
| "is_prim_type (Flonum_t fk) = True"
| "is_prim_type (Ptr_t t) = True"
| "is_prim_type _ = False"

fun is_char_type :: "CType \<Rightarrow> bool" where
  "is_char_type (Fixnum_t k u) = (k = FX_CHAR)"
| "is_char_type _ = False"

text \<open>
  Modelled from the spec: wasm_util.c is not among the sources. A DataStorage is a growing
  byte buffer; \<open>data_push\<close> appends a byte, \<open>data_append\<close> and \<open>data_concat\<close> append
  bytes, \<open>data_insert\<close> inserts bytes at a position, \<open>emit_uleb128\<close> and \<open>emit_leb128\<close>
  insert the unsigned and the signed LEB128 encoding of a number at a position.
\<close>

type_synonym DataStorage = "byte list"

definition data_push :: "DataStorage \<Rightarrow> byte \<Rightarrow> DataStorage" where
  "data_push ds b = ds @ [b]"

definition data_append :: "DataStorage \<Rightarrow> byte list \<Rightarrow> DataStorage" where
  "data_append ds buf = ds @ buf"

definition data_concat :: "DataStorage \<Rightarrow> DataStorage \<Rightarrow> DataStorage" where
  "data_concat ds other = ds @ other"

definition data_insert :: "DataStorage \<Rightarrow> nat \<Rightarrow> byte list \<Rightarrow> DataStorage" where
  "data_insert ds pos buf = take pos ds @ buf @ drop pos ds"

function uleb128 :: "nat \<Rightarrow> byte list" where
  "uleb128 n = (if n < 128 then [of_nat n] else of_nat (n mod 128 + 128) # uleb128 (n div 128))"
  by pat_completeness auto
termination
  by (relation "measure id") auto

function sleb128 :: "int \<Rightarrow> byte list" where
  "sleb128 v =
     (if - 64 \<le> v \<and> v < 64 then [of_int (v mod 128)]
      else of_int (v mod 128 + 128) # sleb128 (v div 128))"
  by pat_completeness auto
termination
  by (relation "measure (\<lambda>v. nat \<bar>v\<bar>)") auto

definition emit_uleb128 :: "DataStorage \<Rightarrow> nat \<Rightarrow> nat \<Rightarrow> DataStorage" where
  "emit_uleb128 ds pos v = data_insert ds pos (uleb128 v)"

definition emit_leb128 :: "DataStorage \<Rightarrow> nat \<Rightarrow> int \<Rightarrow> DataStorage" where
  "emit_leb128 ds pos v = data_insert ds pos (sleb128 v)"

text \<open>
  Modelled from the spec: \<open>emit_wasm_header\<close> (wasm_util.c) writes the magic
  \<open>\0asm\<close> and the version 1 as four little-endian bytes.
\<close>

definition emit_wasm_header :: "byte list" where
  "emit_wasm_header = [0x00, 0x61, 0x73, 0x6d, 0x01, 0x00, 0x00, 0x00]"

text \<open>
  The constants of wasm_util.h, with the values of the WebAssembly binary format (the
  comments in emit_wasm give the section numbers 1, 2, 3, 6, 7 and 10).
\<close>

definition SEC_TYPE :: byte where "SEC_TYPE = 1"
definition SEC_IMPORT :: byte where "SEC_IMPORT = 2"
definition SEC_FUNC :: byte where "SEC_FUNC = 3"
definition SEC_GLOBAL :: byte where "SEC_GLOBAL = 6"
definition SEC_EXPORT :: byte where "SEC_EXPORT = 7"
definition SEC_CODE_w :: byte where "SEC_CODE_w = 10"
definition SEC_DATA_w :: byte where "SEC_DATA_w = 11"
definition WT_FUNC :: byte where "WT_FUNC = 0x60"
definition OP_END :: byte where "OP_END = 0x0b"
definition OP_I32_CONST :: byte where "OP_I32_CONST = 0x41"
definition OP_I64_CONST :: byte where "OP_I64_CONST = 0x42"
definition OP_F32_CONST :: byte where "OP_F32_CONST = 0x43"
definition OP_F64_CONST :: byte where "OP_F64_CONST = 0x44"
definition IMPORT_FUNC :: nat where "IMPORT_FUNC = 0"
definition IMPORT_MEMORY :: nat where "IMPORT_MEMORY = 2"
definition EXPORT_GLOBAL :: nat where "EXPORT_GLOBAL = 3"
definition I32_SIZE :: nat where "I32_SIZE = 4"

fun to_wtype :: "CType \<Rightarrow> byte" where
  "to_wtype (Flonum_t fk) = (if fk = FL_FLOAT then 0x7d else 0x7c)"
| "to_wtype t = (if type_size_w t \<le> I32_SIZE then 0x7f else 0x7e)"

text \<open>
  \<open>error(...)\<close> prints and ends the process; a failed assertion aborts. Both leave the
  module unwritten or cut short: the functions below return the error in that case.
\<close>

datatype werror = Error string | Assert_failed | Null_pointer

text \<open>The bytes of a fixnum, little endian: \<open>buf[i] = v >> (i * CHAR_BIT)\<close>.\<close>

definition fixnum_bytes :: "64 word \<Rightarrow> nat \<Rightarrow> byte list" where
  "fixnum_bytes v n = map (\<lambda>i. ucast (signed_drop_bit (i * 8) v)) [0..<n]"

definition le_bytes32 :: "32 word \<Rightarrow> byte list" where
  "le_bytes32 w = map (\<lambda>i. ucast (drop_bit (i * 8) w)) [0..<4]"

definition le_bytes64 :: "64 word \<Rightarrow> byte list" where
  "le_bytes64 w = map (\<lambda>i. ucast (drop_bit (i * 8) w)) [0..<8]"

text \<open>
  construct_initial_value of wcc.c (lines 79 to 171), as the bytes it appends to \<open>ds\<close>.
  The two loops of the array case are functions of their own: \<open>civ_elems\<close> is
  \<^verbatim>\<open>for (size_t i = 0; i < len; ++i, ++index) {
    const Initializer *init_elem = init_array->data[i];
    if (init_elem->kind == IK_ARR) {
      size_t next = init_elem->arr.index->fixnum;
      for (size_t j = index; j < next; ++j)
        construct_initial_value(ds, elem_type, NULL);
      index = next;
      init_elem = init_elem->arr.value;
    }
    construct_initial_value(ds, elem_type, init_elem);
  }
  // Padding
  for (size_t i = index, n = type->pa.length; i < n; ++i)
    construct_initial_value(ds, elem_type, NULL);\<close>
  on the elements still to come, and \<open>civ_pad elem i n\<close> is a loop
  \<open>for (i; i < n; ++i) construct_initial_value(ds, elem_type, NULL)\<close>. In the source
  both loops stand inside \<open>if (init != NULL)\<close>.
\<close>

function (sequential)
  construct_initial_value_w :: "CType \<Rightarrow> Initializer option \<Rightarrow> werror + byte list" and
  civ_elems :: "CType \<Rightarrow> Initializer option list \<Rightarrow> nat \<Rightarrow> nat \<Rightarrow> werror + byte list" and
  civ_pad :: "CType \<Rightarrow> nat \<Rightarrow> nat \<Rightarrow> werror + byte list"
where
  "construct_initial_value_w ty init =
     (if init = Some IK_DOT then Inl Assert_failed
      else case ty of
        Fixnum_t k u \<Rightarrow>
          (case init of
             None \<Rightarrow> Inr (fixnum_bytes 0 (type_size_w ty))
           | Some (IK_SINGLE (Const_fixnum True v)) \<Rightarrow> Inr (fixnum_bytes v (type_size_w ty))
           | Some (IK_SINGLE _) \<Rightarrow> Inl (Error ''Illegal initializer: constant number expected'')
           | Some _ \<Rightarrow> Inl Assert_failed)
      | Flonum_t fk \<Rightarrow>
          (case init of
             None \<Rightarrow> Inr (if fk = FL_FLOAT then le_bytes32 0 else le_bytes64 0)
           | Some (IK_SINGLE (Const_flonum f d)) \<Rightarrow>
               Inr (if fk = FL_FLOAT then le_bytes32 f else le_bytes64 d)
           | Some _ \<Rightarrow> Inl Assert_failed)
      | Array_t elem_type len \<Rightarrow>
          (case init of
             None \<Rightarrow> Inr []
           | Some (IK_MULTI init_array) \<Rightarrow> civ_elems elem_type init_array 0 len
           | Some (IK_SINGLE (Str_literal buf)) \<Rightarrow>
               if is_char_type elem_type then
                 (if type_size_w ty < length buf then Inl Assert_failed
                  else if type_size_w ty > length buf
                  then Inr (buf @ replicate (type_size_w ty - length buf) 0)
                  else Inr buf)
               else Inl (Error ''Illegal initializer'')
           | Some _ \<Rightarrow> Inl (Error ''Illegal initializer''))
      | _ \<Rightarrow> Inl Assert_failed)"
| "civ_elems elem_type [] index n = civ_pad elem_type index n"
| "civ_elems elem_type (None # rest) index n = Inl Null_pointer"
| "civ_elems elem_type (Some (IK_ARR next v) # rest) index n =
     (case civ_pad elem_type index next of
        Inl e \<Rightarrow> Inl e
      | Inr gap \<Rightarrow>
          (case construct_initial_value_w elem_type v of
             Inl e \<Rightarrow> Inl e
           | Inr bs \<Rightarrow>
               (case civ_elems elem_type rest (Suc next) n of
                  Inl e \<Rightarrow> Inl e
                | Inr bs2 \<Rightarrow> Inr (gap @ bs @ bs2))))"
| "civ_elems elem_type (Some init_elem # rest) index n =
     (case construct_initial_value_w elem_type (Some init_elem) of
        Inl e \<Rightarrow> Inl e
      | Inr bs \<Rightarrow>
          (case civ_elems elem_type rest (Suc index) n of
             Inl e \<Rightarrow> Inl e
           | Inr bs2 \<Rightarrow> Inr (bs @ bs2)))"
| "civ_pad elem_type i n =
     (if i < n then
        (case construct_initial_value_w elem_type None of
           Inl e \<Rightarrow> Inl e
         | Inr bs \<Rightarrow>
             (case civ_pad elem_type (Suc i) n of
                Inl e \<Rightarrow> Inl e
              | Inr bs2 \<Rightarrow> Inr (bs @ bs2)))
      else Inr [])"
  by pat_completeness auto
termination
  by (relation "measures
        [\<lambda>x. case x of
            Inl (ty, init) \<Rightarrow> 2 * size ty
          | Inr (Inl (ty, xs, i, n)) \<Rightarrow> 2 * size ty + 1
          | Inr (Inr (ty, i, n)) \<Rightarrow> 2 * size ty + 1,
         \<lambda>x. case x of
            Inl (ty, init) \<Rightarrow> 0
          | Inr (Inl (ty, xs, i, n)) \<Rightarrow> length xs + 1
          | Inr (Inr (ty, i, n)) \<Rightarrow> 0,
         \<lambda>x. case x of
            Inl (ty, init) \<Rightarrow> 0
          | Inr (Inl (ty, xs, i, n)) \<Rightarrow> 0
          | Inr (Inr (ty, i, n)) \<Rightarrow> n - i]")
     auto

text \<open>
  What emit_wasm reads of the tables the earlier passes filled (wcc.h, var.h and table.h
  are not among the sources). A table is iterated in the order of insertion, so it is a
  list of names with their entries. Of a VarInfo: its type, the qualifier bit TQ_CONST of
  the type, the storage bit VS_STATIC, the initializer of a global. Of a FuncInfo: the code
  buffer of the function if it is defined (\<open>func->bbcon\<close>, \<open>None\<close> for
  \<open>func == NULL\<close>), the return type and the parameter types of its type (\<open>None\<close> for
  \<open>params == NULL\<close>), \<open>flag\<close>, \<open>index\<close> and \<open>type_index\<close>. Of a GVarInfo: the
  VarInfo, \<open>non_prim.address\<close> and \<open>prim.index\<close>. The names DATA_END_ADDRESS_NAME and
  SP_NAME are macros of wcc.h and are taken as given.
\<close>

record VarInfo =
  vi_type :: CType
  vi_const :: bool
  vi_static :: bool
  vi_init :: "Initializer option"

record FuncInfo =
  fi_func :: "byte list option"
  fi_ret :: CType
  fi_params :: "CType list option"
  fi_flag :: nat
  fi_index :: nat
  fi_type_index :: nat

record GVarInfo =
  gv_varinfo :: VarInfo
  gv_address :: nat
  gv_index :: nat

record wasm_env =
  func_info_table :: "(string \<times> FuncInfo) list"
  gvar_info_table :: "(string \<times> GVarInfo) list"
  global_scope :: "(string \<times> VarInfo) list"
  data_end_address :: nat
  DATA_END_ADDRESS_NAME :: string
  SP_NAME :: string

definition name_bytes :: "string \<Rightarrow> byte list" where
  "name_bytes n = map (\<lambda>c. of_nat (of_char c)) n"

definition bindE :: "werror + 'x \<Rightarrow> ('x \<Rightarrow> werror + 'y) \<Rightarrow> werror + 'y" where
  "bindE m f = (case m of Inl e \<Rightarrow> Inl e | Inr v \<Rightarrow> f v)"

text \<open>
  \<^verbatim>\<open>for (type_index = 0; type_index < types->len; ++type_index) {
    const Type *t = types->data[type_index];
    if (same_type(t, type)) break;
  }\<close>
  \<open>same_type\<close> is structural equality.
\<close>

fun find_type_index :: "(CType \<times> CType list option) list \<Rightarrow> (CType \<times> CType list option) \<Rightarrow> nat" where
  "find_type_index [] ty = 0"
| "find_type_index (t # ts) ty = (if t = ty then 0 else Suc (find_type_index ts ty))"

text \<open>
  The first loop of emit_wasm (lines 216 to 247): the vector \<open>types\<close>, the bytes of the
  type entries, and the table with \<open>type_index\<close> set in every entry it visited.
\<close>

definition type_entry :: "CType \<Rightarrow> CType list option \<Rightarrow> werror + byte list" where
  "type_entry rt ps =
     (let params = (case ps of None \<Rightarrow> [] | Some xs \<Rightarrow> xs);
          ds1 = data_push [] WT_FUNC;
          ds2 = emit_uleb128 ds1 (length ds1) (length params)
      in if \<not> list_all is_prim_type params then Inl Assert_failed
         else
           (let ds3 = ds2 @ map to_wtype params
            in if rt = Void_t then Inr (data_push ds3 0)
               else if \<not> is_prim_type rt then Inl Assert_failed
               else Inr (data_push (data_push ds3 1) (to_wtype rt))))"

fun types_loop ::
  "(string \<times> FuncInfo) list \<Rightarrow> (CType \<times> CType list option) list \<Rightarrow> DataStorage \<Rightarrow>
   werror + ((string \<times> FuncInfo) list \<times> (CType \<times> CType list option) list \<times> DataStorage)" where
  "types_loop [] types ds = Inr ([], types, ds)"
| "types_loop ((name, info) # rest) types ds =
     (if fi_flag info = 0 then
        bindE (types_loop rest types ds) (\<lambda>(tab, types', ds'). Inr ((name, info) # tab, types', ds'))
      else
        (let ty = (fi_ret info, fi_params info);
             type_index = find_type_index types ty
         in bindE (if type_index \<ge> length types
                   then bindE (type_entry (fi_ret info) (fi_params info))
                          (\<lambda>bs. Inr (types @ [ty], data_append ds bs))
                   else Inr (types, ds))
              (\<lambda>(types1, ds1).
                 bindE (types_loop rest types1 ds1)
                   (\<lambda>(tab, types', ds').
                      Inr ((name, info\<lparr>fi_type_index := type_index\<rparr>) # tab, types', ds')))))"

text \<open>A string with its length in front: \<open>emit_uleb128(len)\<close> then \<open>data_append\<close>.\<close>

definition put_string :: "DataStorage \<Rightarrow> byte list \<Rightarrow> DataStorage" where
  "put_string ds str = data_append (emit_uleb128 ds (length ds) (length str)) str"

definition put_uleb :: "DataStorage \<Rightarrow> nat \<Rightarrow> DataStorage" where
  "put_uleb ds v = emit_uleb128 ds (length ds) v"

text \<open>
  The check of a name to import or export against the global scope (lines 268 to 280 and
  367 to 379): \<open>what\<close> is Import or Export.
\<close>

definition check_public_func :: "string \<Rightarrow> (string \<times> VarInfo) list \<Rightarrow> string \<Rightarrow> werror + unit" where
  "check_public_func what scope name =
     (case map_of scope name of
        None \<Rightarrow> Inl (Error (what @ '': not found: '' @ name))
      | Some varinfo \<Rightarrow>
          if (case vi_type varinfo of Func_t \<Rightarrow> False | _ \<Rightarrow> True)
          then Inl (Error (what @ '': is not function: '' @ name))
          else if vi_static varinfo
          then Inl (Error (what @ '': is not public: '' @ name))
          else Inr ())"

text \<open>The loop over the functions to import (lines 262 to 295).\<close>

fun imports_loop ::
  "(string \<times> VarInfo) list \<Rightarrow> (string \<times> FuncInfo) list \<Rightarrow> DataStorage \<Rightarrow> nat \<Rightarrow>
   werror + (DataStorage \<times> nat)" where
  "imports_loop scope [] ds cnt = Inr (ds, cnt)"
| "imports_loop scope ((name, info) # rest) ds cnt =
     (if fi_flag info = 0 \<or> fi_func info \<noteq> None then imports_loop scope rest ds cnt
      else
        bindE (check_public_func ''Import'' scope name)
          (\<lambda>_. let ds1 = put_string ds (name_bytes ''c'');
                   ds2 = put_string ds1 (name_bytes name);
                   ds3 = put_uleb ds2 IMPORT_FUNC;
                   ds4 = put_uleb ds3 (fi_type_index info)
               in imports_loop scope rest ds4 (Suc cnt)))"

text \<open>The import of the memory \<open>env.memory\<close> (lines 297 to 311).\<close>

definition import_memory :: "DataStorage \<Rightarrow> DataStorage" where
  "import_memory ds =
     (let ds1 = put_string ds (name_bytes ''env'');
          ds2 = put_string ds1 (name_bytes ''memory'');
          ds3 = put_uleb ds2 IMPORT_MEMORY;
          ds4 = put_uleb ds3 0
      in put_uleb ds4 1)"

text \<open>The loop over the defined functions (lines 324 to 331).\<close>

fun functions_loop :: "(string \<times> FuncInfo) list \<Rightarrow> DataStorage \<Rightarrow> nat \<Rightarrow> DataStorage \<times> nat" where
  "functions_loop [] ds cnt = (ds, cnt)"
| "functions_loop ((name, info) # rest) ds cnt =
     (if fi_func info = None \<or> fi_flag info = 0 then functions_loop rest ds cnt
      else functions_loop rest (put_uleb ds (fi_type_index info)) (Suc cnt))"

text \<open>construct_primitive_global (lines 27 to 77), as the buffer after it.\<close>

definition construct_primitive_global :: "DataStorage \<Rightarrow> VarInfo \<Rightarrow> werror + DataStorage" where
  "construct_primitive_global ds varinfo =
     (case vi_type varinfo of
        Flonum_t fk \<Rightarrow>
          (case vi_init varinfo of
             None \<Rightarrow>
               Inr (if fk = FL_FLOAT then data_append (data_push ds OP_F32_CONST) (le_bytes32 0)
                    else data_append (data_push ds OP_F64_CONST) (le_bytes64 0))
           | Some (IK_SINGLE (Const_flonum f d)) \<Rightarrow>
               Inr (if fk = FL_FLOAT then data_append (data_push ds OP_F32_CONST) (le_bytes32 f)
                    else data_append (data_push ds OP_F64_CONST) (le_bytes64 d))
           | Some _ \<Rightarrow> Inl Assert_failed)
      | ty \<Rightarrow>
          if \<not> is_prim_type ty then Inl Assert_failed
          else
            (case (case vi_init varinfo of
                     None \<Rightarrow> Inr 0
                   | Some (IK_SINGLE (Const_fixnum fx v)) \<Rightarrow> Inr v
                   | Some _ \<Rightarrow> Inl Assert_failed) of
               Inl e \<Rightarrow> Inl e
             | Inr v \<Rightarrow>
                 (let ds1 = data_push ds (if type_size_w ty \<le> I32_SIZE then OP_I32_CONST
                                          else OP_I64_CONST)
                  in Inr (emit_leb128 ds1 (length ds1) (sint v)))))"

text \<open>The loop over the global variables of primitive type (lines 343 to 354).\<close>

fun globals_loop :: "(string \<times> GVarInfo) list \<Rightarrow> DataStorage \<Rightarrow> nat \<Rightarrow> werror + (DataStorage \<times> nat)" where
  "globals_loop [] ds cnt = Inr (ds, cnt)"
| "globals_loop ((name, info) # rest) ds cnt =
     (let varinfo = gv_varinfo info
      in if \<not> is_prim_type (vi_type varinfo) then globals_loop rest ds cnt
         else
           (let ds1 = data_push ds (to_wtype (vi_type varinfo));
                ds2 = data_push ds1 (if vi_const varinfo then 0 else 1)
            in if (case vi_init varinfo of None \<Rightarrow> False | Some (IK_SINGLE _) \<Rightarrow> False
                   | Some _ \<Rightarrow> True)
               then Inl Assert_failed
               else bindE (construct_primitive_global ds2 varinfo)
                      (\<lambda>ds3. globals_loop rest (data_push ds3 OP_END) (Suc cnt))))"

text \<open>The loop over the names to export (lines 365 to 392).\<close>

fun exports_loop ::
  "(string \<times> VarInfo) list \<Rightarrow> (string \<times> FuncInfo) list \<Rightarrow> string list \<Rightarrow> DataStorage \<Rightarrow> nat \<Rightarrow>
   werror + (DataStorage \<times> nat)" where
  "exports_loop scope ftab [] ds cnt = Inr (ds, cnt)"
| "exports_loop scope ftab (name # rest) ds cnt =
     bindE (check_public_func ''Export'' scope name)
       (\<lambda>_. case map_of ftab name of
               None \<Rightarrow> Inl Assert_failed
             | Some info \<Rightarrow>
                 if fi_func info = None then Inl Assert_failed
                 else
                   (let ds1 = put_string ds (name_bytes name);
                        ds2 = put_uleb ds1 IMPORT_FUNC;
                        ds3 = put_uleb ds2 (fi_index info)
                    in exports_loop scope ftab rest ds3 (Suc cnt)))"

text \<open>The export of a global by name (lines 393 to 413).\<close>

definition export_global ::
  "(string \<times> GVarInfo) list \<Rightarrow> string \<Rightarrow> DataStorage \<Rightarrow> werror + DataStorage" where
  "export_global gtab name ds =
     (case map_of gtab name of
        None \<Rightarrow> Inl Assert_failed
      | Some info \<Rightarrow>
          (let ds1 = put_string ds (name_bytes name);
               ds2 = put_uleb ds1 EXPORT_GLOBAL
           in Inr (put_uleb ds2 (gv_index info))))"

text \<open>The code buffers of the defined functions, in table order (lines 455 to 479).\<close>

fun function_codes :: "(string \<times> FuncInfo) list \<Rightarrow> byte list list" where
  "function_codes [] = []"
| "function_codes ((name, info) # rest) =
     (case fi_func info of
        None \<Rightarrow> function_codes rest
      | Some code \<Rightarrow> if fi_flag info = 0 then function_codes rest else code # function_codes rest)"

text \<open>
  construct_data_segment (lines 173 to 204); \<open>address\<close> is the address up to which the
  segment is filled. The addresses are \<open>uint32_t\<close>; they are natural numbers here.
\<close>

fun construct_data_segment ::
  "(string \<times> GVarInfo) list \<Rightarrow> DataStorage \<Rightarrow> nat \<Rightarrow> werror + DataStorage" where
  "construct_data_segment [] ds address = Inr ds"
| "construct_data_segment ((name, info) # rest) ds address =
     (let varinfo = gv_varinfo info
      in if is_prim_type (vi_type varinfo) \<or> vi_init varinfo = None
         then construct_data_segment rest ds address
         else
           (let adr = gv_address info
            in if adr < address then Inl Assert_failed
               else
                 (let ds1 = (if adr > address then data_append ds (replicate (adr - address) 0)
                             else ds)
                  in bindE (construct_initial_value_w (vi_type varinfo) (vi_init varinfo))
                       (\<lambda>bs. construct_data_segment rest (data_append ds1 bs)
                                (adr + type_size_w (vi_type varinfo))))))"

text \<open>
  emit_wasm (lines 206 to 506), as the bytes written to \<open>ofp\<close>: the header, the buffer
  \<open>sections\<close>, the buffer \<open>codesec\<close>, the code of the functions, and the data section.
\<close>

definition seg_info :: "byte list" where
  "seg_info = [0x01, 0x00, OP_I32_CONST, 0, OP_END]"

definition emit_wasm :: "wasm_env \<Rightarrow> string list \<Rightarrow> werror + byte list" where
  "emit_wasm env exports =
     bindE (types_loop (func_info_table env) [] []) (\<lambda>(ftab, types, types_section0).
     let types_section1 = emit_uleb128 types_section0 0 (length types);
         types_section = emit_uleb128 types_section1 0 (length types_section1)
     in
     bindE (imports_loop (global_scope env) ftab [] 0) (\<lambda>(imports_section0, imports_count0).
     let imports_section1 = import_memory imports_section0;
         imports_count = Suc imports_count0;
         imports_section =
           (if imports_count > 0
            then (let i1 = emit_uleb128 imports_section1 0 imports_count
                  in emit_uleb128 i1 0 (length i1))
            else imports_section1)
     in
     let functions_section0 = fst (functions_loop ftab [] 0);
         function_count = snd (functions_loop ftab [] 0);
         functions_section1 = emit_uleb128 functions_section0 0 function_count;
         functions_section = emit_uleb128 functions_section1 0 (length functions_section1)
     in
     bindE (globals_loop (gvar_info_table env) [] 0) (\<lambda>(globals_section0, globals_count).
     let globals_section =
           (if globals_count > 0
            then (let g1 = emit_uleb128 globals_section0 0 globals_count
                  in emit_uleb128 g1 0 (length g1))
            else globals_section0)
     in
     bindE (exports_loop (global_scope env) ftab exports [] 0) (\<lambda>(exports_section0, num_exports0).
     bindE (if data_end_address env > 0
            then bindE (export_global (gvar_info_table env) (DATA_END_ADDRESS_NAME env)
                          exports_section0)
                   (\<lambda>ds. Inr (ds, Suc num_exports0))
            else Inr (exports_section0, num_exports0)) (\<lambda>(exports_section1, num_exports1).
     bindE (export_global (gvar_info_table env) (SP_NAME env) exports_section1)
       (\<lambda>exports_section2.
     let num_exports = Suc num_exports1;
         exports_section3 = emit_uleb128 exports_section2 0 num_exports;
         exports_section = emit_uleb128 exports_section3 0 (length exports_section3);
         sections1 = data_concat (data_push [] SEC_TYPE) types_section;
         sections2 = (if imports_count > 0
                      then data_append (data_push sections1 SEC_IMPORT) imports_section
                      else sections1);
         sections3 = data_append (data_push sections2 SEC_FUNC) functions_section;
         sections4 = (if globals_count > 0
                      then data_append (data_push sections3 SEC_GLOBAL) globals_section
                      else sections3);
         sections = data_append (data_push sections4 SEC_EXPORT) exports_section;
         codesec0 = data_push [] SEC_CODE_w;
         size_pos = length codesec0;
         codes = function_codes ftab;
         total_code_size = length (concat codes);
         codesec1 = emit_uleb128 codesec0 (length codesec0) function_count;
         codesec = emit_uleb128 codesec1 size_pos ((length codesec1 - size_pos) + total_code_size);
         written = emit_wasm_header @ sections @ codesec @ concat codes
     in
     bindE (construct_data_segment (gvar_info_table env) [] 0) (\<lambda>datasec0.
       if length datasec0 > 0 then
         (let datasize = length datasec0;
              datasec1 = data_insert datasec0 0 seg_info;
              datasec2 = emit_uleb128 datasec1 (length seg_info) datasize;
              section_size = length datasec2;
              datasec3 = data_insert datasec2 0 [SEC_DATA_w];
              datasec = emit_uleb128 datasec3 1 section_size
          in Inr (written @ datasec))
       else Inr written)))))))"

text \<open>A section of a module: its one-byte id, the ULEB128 length of its body, its body.\<close>

definition wasm_section :: "byte \<Rightarrow> byte list \<Rightarrow> byte list" where
  "wasm_section sid body = sid # uleb128 (length body) @ body"

text \<open>
  A sample compilation: one exported function \<open>f\<close> of type \<open>void(void)\<close> with a
  three-byte body, the stack-pointer global \<open>sp\<close>, and the array
  \<open>char a[2] = {1, 2}\<close> at address 0.
\<close>

definition sample_env :: wasm_env where
  "sample_env =
     \<lparr>func_info_table =
        [(''f'', \<lparr>fi_func = Some [0x02, 0x00, 0x0b], fi_ret = Void_t, fi_params = None,
                  fi_flag = 1, fi_index = 0, fi_type_index = 0\<rparr>)],
      gvar_info_table =
        [(''sp'', \<lparr>gv_varinfo = \<lparr>vi_type = Fixnum_t FX_INT False, vi_const = False,
                                  vi_static = False,
                                  vi_init = Some (IK_SINGLE (Const_fixnum True 8192))\<rparr>,
                   gv_address = 0, gv_index = 0\<rparr>),
         (''a'', \<lparr>gv_varinfo = \<lparr>vi_type = Array_t (Fixnum_t FX_CHAR False) 2, vi_const = False,
                                 vi_static = False,
                                 vi_init = Some (IK_MULTI [Some (IK_SINGLE (Const_fixnum True 1)),
                                                           Some (IK_SINGLE (Const_fixnum True 2))])\<rparr>,
                  gv_address = 0, gv_index = 0\<rparr>)],
      global_scope =
        [(''f'', \<lparr>vi_type = Func_t, vi_const = False, vi_static = False, vi_init = None\<rparr>)],
      data_end_address = 0,
      DATA_END_ADDRESS_NAME = ''de'',
      SP_NAME = ''sp''\<rparr>"

chapter \<open>Properties\<close>

section \<open>Properties of swap_cond\<close>

text \<open>
  C9: swap_cond maps EQ to EQ, NE to NE, LT to GT, LE to GE, GE to LE and GT to LT;
  so for every condition kind c between COND_EQ and COND_GT, swapping twice gives c back,
  and for all integers a and b the comparison "a c b" holds exactly when
  "b swap_cond(c) a" holds.
\<close>

theorem swap_cond_mirror:
  "swap_cond COND_EQ = Some COND_EQ \<and> swap_cond COND_NE = Some COND_NE \<and>
   swap_cond COND_LT = Some COND_GT \<and> swap_cond COND_LE = Some COND_GE \<and>
   swap_cond COND_GE = Some COND_LE \<and> swap_cond COND_GT = Some COND_LT \<and>
   (\<forall>c. COND_EQ \<le> c \<and> c \<le> COND_GT \<longrightarrow>
      (\<exists>c'. swap_cond c = Some c' \<and> swap_cond c' = Some c \<and>
            (\<forall>a b. cond_holds c a b \<longleftrightarrow> cond_holds c' b a)))"
proof -
  have tbl: "swap_cond COND_EQ = Some COND_EQ" "swap_cond COND_NE = Some COND_NE"
    "swap_cond COND_LT = Some COND_GT" "swap_cond COND_LE = Some COND_GE"
    "swap_cond COND_GE = Some COND_LE" "swap_cond COND_GT = Some COND_LT"
    by (simp_all add: swap_cond_def cond_defs)
  have all: "\<exists>c'. swap_cond c = Some c' \<and> swap_cond c' = Some c \<and>
            (\<forall>a b. cond_holds c a b \<longleftrightarrow> cond_holds c' b a)"
    if "COND_EQ \<le> c \<and> c \<le> COND_GT" for c
  proof -
    from that have "c = COND_EQ \<or> c = COND_NE \<or> c = COND_LT \<or> c = COND_LE \<or> c = COND_GE \<or> c = COND_GT"
      unfolding cond_defs by arith
    then show ?thesis
      using tbl by (auto simp: cond_holds_def cond_defs)
  qed
  from tbl all show ?thesis by blast
qed

theorem swap_cond_mirror_witness:
  "COND_EQ \<le> COND_LE \<and> COND_LE \<le> COND_GT \<and>
   swap_cond COND_LE = Some COND_GE \<and> swap_cond COND_GE = Some COND_LE \<and>
   (cond_holds COND_LE 3 7 \<longleftrightarrow> cond_holds COND_GE 7 3)"
proof -
  have r: "COND_EQ \<le> COND_LE \<and> COND_LE \<le> COND_GT" by (simp add: cond_defs)
  have "swap_cond COND_LE = Some COND_GE" using swap_cond_mirror by blast
  moreover have "swap_cond COND_GE = Some COND_LE" using swap_cond_mirror by blast
  moreover have "cond_holds COND_LE 3 7 \<longleftrightarrow> cond_holds COND_GE 7 3"
    using swap_cond_mirror r \<open>swap_cond COND_LE = Some COND_GE\<close> by (metis option.inject)
  ultimately show ?thesis using r by blast
qed

section \<open>Properties of parse_error\<close>

text \<open>
  C8: a call of parse_error with a non-warning level increments compile_error_count (and
  leaves compile_warning_count alone), and the process exits, with code 1, exactly when
  the level is fatal or the incremented counter has reached 25; a call with the warning
  level increments only compile_warning_count and returns.
\<close>

theorem parse_error_counts:
  "(level \<noteq> PE_WARNING \<longrightarrow>
      compile_error_count (state_of (parse_error level s)) = compile_error_count s + 1 \<and>
      compile_warning_count (state_of (parse_error level s)) = compile_warning_count s \<and>
      (exit_code (parse_error level s) \<noteq> None \<longleftrightarrow>
         level = PE_FATAL \<or> 25 \<le> sint (compile_error_count s + 1)) \<and>
      exit_code (parse_error level s) \<in> {None, Some 1}) \<and>
   (level = PE_WARNING \<longrightarrow>
      compile_warning_count (state_of (parse_error level s)) = compile_warning_count s + 1 \<and>
      compile_error_count (state_of (parse_error level s)) = compile_error_count s \<and>
      exit_code (parse_error level s) = None)"
  by (simp add: parse_error_def Let_def MAX_ERROR_COUNT_def)

theorem parse_error_counts_witness:
  "PE_NOFATAL \<noteq> PE_WARNING \<and>
   exit_code (parse_error PE_NOFATAL \<lparr>compile_warning_count = 2, compile_error_count = 24\<rparr>) = Some 1 \<and>
   compile_error_count (state_of (parse_error PE_NOFATAL \<lparr>compile_warning_count = 2, compile_error_count = 24\<rparr>)) = 25 \<and>
   exit_code (parse_error PE_NOFATAL \<lparr>compile_warning_count = 2, compile_error_count = 23\<rparr>) = None \<and>
   exit_code (parse_error PE_WARNING \<lparr>compile_warning_count = 30, compile_error_count = 0\<rparr>) = None \<and>
   compile_warning_count (state_of (parse_error PE_WARNING \<lparr>compile_warning_count = 30, compile_error_count = 0\<rparr>)) = 31"
  using parse_error_counts [of PE_NOFATAL "\<lparr>compile_warning_count = 2, compile_error_count = 24\<rparr>"]
    parse_error_counts [of PE_NOFATAL "\<lparr>compile_warning_count = 2, compile_error_count = 23\<rparr>"]
    parse_error_counts [of PE_WARNING "\<lparr>compile_warning_count = 30, compile_error_count = 0\<rparr>"]
  by auto

section \<open>Properties of the callee-save push and pop\<close>

text \<open>
  C2 fails on the code as soon as a callee-saved integer register and a callee-saved float
  register are both in use: with s2 (bit 8 of \<open>used\<close>) and fs0 (bit 8 of \<open>fused\<close>) the
  prologue stores s2 at 8(sp) and fs0 at 0(sp), and the epilogue loads fs0 from 0(sp) but
  s2 from 0(sp) as well: pop_callee_save_regs computes the integer offsets from \<open>count\<close>
  where push_callee_save_regs computes them from \<open>total\<close>.
\<close>

theorem callee_save_int_offset_mismatch:
  "push_callee_save_regs 0x100 0x100 =
     ([ADDI ''sp'' ''sp'' (- 16), SD ''s2'' 8 ''sp'', FSD ''fs0'' 0 ''sp''], 2)
   \<and> pop_callee_save_regs 0x100 0x100 =
     [FLD ''fs0'' 0 ''sp'', LD ''s2'' 0 ''sp'', ADDI ''sp'' ''sp'' 16]
   \<and> stored_at ''s2'' (fst (push_callee_save_regs 0x100 0x100)) = Some 8
   \<and> loaded_from ''s2'' (pop_callee_save_regs 0x100 0x100) = Some 0"
  by (simp add: push_callee_save_regs_def pop_callee_save_regs_def kCalleeSaveRegs_def
      kCalleeSaveFRegs_def kReg64s_def kFReg64s_def Let_def ALIGN_def POINTER_SIZE_def SP_def)

section \<open>Properties of the RISC-V IR tweaker\<close>

declare tweak_bb_irs.simps [simp del]

lemma tweak_bb_irs_turn:
  "tweak_bb_irs ra (xs @ ir # ys) (length xs) =
     (case tweak_ir ra ir of
        None \<Rightarrow> None
      | Some (pre, ir', ra') \<Rightarrow>
          tweak_bb_irs ra' (xs @ pre @ ir' # ys) (length xs + length pre + 1))"
  by (subst tweak_bb_irs.simps) (simp split: option.splits)

lemma tweak_ir_add_const_first:
  assumes "kind ir = IR_ADD" "opr1 ir = Some c" "opr2 ir = Some x" "VRF_CONST c" "\<not> VRF_CONST x"
  shows "tweak_ir ra ir = tweak_ir ra (ir\<lparr>opr1 := Some x, opr2 := Some c\<rparr>)"
  using assms
  by (simp add: tweak_ir_def c1_def c2_def swap_opr12_def)

lemma tweak_ir_add_im12:
  assumes "kind ir = IR_ADD" "opr1 ir = Some x" "opr2 ir = Some c" "VRF_CONST c" "\<not> VRF_CONST x"
    "is_im12 (fixnum c)"
  shows "tweak_ir ra ir = Some ([], ir, ra)"
  using assms
  by (simp add: tweak_ir_def c1_def c2_def fix2_def when1_def is_im12_def)

lemma tweak_ir_other_const_first:
  assumes "kind ir \<in> {IR_MUL, IR_BITAND, IR_BITOR, IR_BITXOR}"
    "opr1 ir = Some c" "opr2 ir = Some x" "VRF_CONST c" "\<not> VRF_CONST x"
  shows "tweak_ir ra ir =
     Some ([new_ir_mov (fst (reg_alloc_spawn ra (vsize c))) c (flag ir)],
           ir\<lparr>opr1 := Some (fst (reg_alloc_spawn ra (vsize c)))\<rparr>,
           snd (reg_alloc_spawn ra (vsize c)))"
  using assms
  by (auto simp add: tweak_ir_def c1_def c2_def fix2_def when1_def
      insert_const_mov1_def reg_alloc_spawn_def)

text \<open>
  C3 (as the code does it): when the loop of tweak_irs stands at a binary instruction whose
  first operand is a constant and whose second is not, then for IR_ADD it swaps the two
  operands: it goes on exactly as it does at the same instruction with the constant second
  and the other operand first, and when the constant is a 12-bit signed immediate that
  swapped instruction is what it leaves; for IR_MUL, IR_BITAND, IR_BITOR and IR_BITXOR it
  does not swap: the constant first operand is replaced by a fresh VReg loaded by a MOV
  inserted in front, and the second operand stays where it is.
\<close>

theorem tweak_irs_const_first:
  assumes "opr1 ir = Some c" "opr2 ir = Some x" "VRF_CONST c" "\<not> VRF_CONST x"
    and "tmp = fst (reg_alloc_spawn ra (vsize c))"
  shows "(kind ir = IR_ADD \<longrightarrow>
            tweak_bb_irs ra (xs @ ir # ys) (length xs) =
            tweak_bb_irs ra (xs @ ir\<lparr>opr1 := Some x, opr2 := Some c\<rparr> # ys) (length xs)) \<and>
         (kind ir = IR_ADD \<and> is_im12 (fixnum c) \<longrightarrow>
            tweak_bb_irs ra (xs @ ir # ys) (length xs) =
            tweak_bb_irs ra (xs @ ir\<lparr>opr1 := Some x, opr2 := Some c\<rparr> # ys) (length xs + 1)) \<and>
         (kind ir \<in> {IR_MUL, IR_BITAND, IR_BITOR, IR_BITXOR} \<longrightarrow>
            tweak_bb_irs ra (xs @ ir # ys) (length xs) =
            tweak_bb_irs (Suc ra)
              (xs @ new_ir_mov tmp c (flag ir) # ir\<lparr>opr1 := Some tmp\<rparr> # ys)
              (length xs + 2))"
proof (intro conjI impI)
  assume k: "kind ir = IR_ADD"
  let ?sw = "ir\<lparr>opr1 := Some x, opr2 := Some c\<rparr>"
  show "tweak_bb_irs ra (xs @ ir # ys) (length xs) =
            tweak_bb_irs ra (xs @ ?sw # ys) (length xs)"
    unfolding tweak_bb_irs_turn tweak_ir_add_const_first [OF k assms(1-4), of ra] ..
next
  assume "kind ir = IR_ADD \<and> is_im12 (fixnum c)"
  then have k: "kind ir = IR_ADD" and i: "is_im12 (fixnum c)" by simp_all
  let ?sw = "ir\<lparr>opr1 := Some x, opr2 := Some c\<rparr>"
  have "tweak_ir ra ?sw = Some ([], ?sw, ra)"
    by (rule tweak_ir_add_im12 [of ?sw x c]) (simp_all add: k assms(3,4) i)
  then show "tweak_bb_irs ra (xs @ ir # ys) (length xs) =
            tweak_bb_irs ra (xs @ ?sw # ys) (length xs + 1)"
    unfolding tweak_bb_irs_turn tweak_ir_add_const_first [OF k assms(1-4), of ra] by simp
next
  assume "kind ir \<in> {IR_MUL, IR_BITAND, IR_BITOR, IR_BITXOR}"
  then show "tweak_bb_irs ra (xs @ ir # ys) (length xs) =
            tweak_bb_irs (Suc ra)
              (xs @ new_ir_mov tmp c (flag ir) # ir\<lparr>opr1 := Some tmp\<rparr> # ys)
              (length xs + 2)"
    using tweak_ir_other_const_first [OF _ assms(1-4), of ra] assms(5)
    by (simp add: tweak_bb_irs_turn reg_alloc_spawn_def)
qed

text \<open>
  C1 fails on the code: an IR_ADD whose constant second operand is 3000 passes through
  tweak_irs unchanged, and 3000 is not a 12-bit signed immediate. The guard of the pass is
  \<open>fixnum > 0x0fff || fixnum < -0x0fff\<close>, not \<open>!is_im12(fixnum)\<close>.
\<close>

theorem tweak_irs_add_imm_above_im12:
  "tweak_irs 3 [[new_ir_bop_raw IR_ADD (Some (sample_reg 0)) (Some (sample_reg 1))
                   (Some (sample_const 2 3000)) 0]]
   = Some ([[new_ir_bop_raw IR_ADD (Some (sample_reg 0)) (Some (sample_reg 1))
                   (Some (sample_const 2 3000)) 0]], 3)
   \<and> VRF_CONST (sample_const 2 3000) \<and> fixnum (sample_const 2 3000) = 3000 \<and> \<not> is_im12 3000"
  by (simp add: tweak_bb_irs.simps tweak_ir_def new_ir_bop_raw_def when1_def c1_def c2_def
      fix2_def sample_reg_def sample_const_def is_im12_def)

text \<open>
  C3 as stated fails: for an IR_BITAND with a constant first operand the pass leaves the
  register second operand in place and puts a fresh VReg, not the constant, in the first.
\<close>

theorem tweak_irs_bitand_not_swapped:
  "tweak_irs 3 [[new_ir_bop_raw IR_BITAND (Some (sample_reg 0)) (Some (sample_const 2 5))
                   (Some (sample_reg 1)) 0]]
   = Some ([[new_ir_mov (sample_reg 3) (sample_const 2 5) 0,
             new_ir_bop_raw IR_BITAND (Some (sample_reg 0)) (Some (sample_reg 3))
                   (Some (sample_reg 1)) 0]], 4)
   \<and> \<not> VRF_CONST (sample_reg 1) \<and> sample_reg 3 \<noteq> sample_reg 1"
  by (simp add: tweak_bb_irs.simps tweak_ir_def new_ir_bop_raw_def new_ir_mov_def when1_def
      c1_def c2_def fix2_def sample_reg_def sample_const_def is_im12_def insert_const_mov1_def
      reg_alloc_spawn_def)

theorem tweak_irs_const_first_witness:
  "tweak_bb_irs 3 ([] @ new_ir_bop_raw IR_ADD (Some (sample_reg 0)) (Some (sample_const 2 5))
                   (Some (sample_reg 1)) 0 # []) (length ([] :: IR list))
   = Some ([new_ir_bop_raw IR_ADD (Some (sample_reg 0)) (Some (sample_reg 1))
                   (Some (sample_const 2 5)) 0], 3)
   \<and> tweak_bb_irs 3 ([] @ new_ir_bop_raw IR_MUL (Some (sample_reg 0)) (Some (sample_const 2 5))
                   (Some (sample_reg 1)) 0 # []) (length ([] :: IR list))
   = Some ([new_ir_mov (sample_reg 3) (sample_const 2 5) 0,
            new_ir_bop_raw IR_MUL (Some (sample_reg 0)) (Some (sample_reg 3))
                   (Some (sample_reg 1)) 0], 4)"
proof -
  let ?add = "new_ir_bop_raw IR_ADD (Some (sample_reg 0)) (Some (sample_const 2 5)) (Some (sample_reg 1)) 0"
  let ?mul = "new_ir_bop_raw IR_MUL (Some (sample_reg 0)) (Some (sample_const 2 5)) (Some (sample_reg 1)) 0"
  have h: "opr1 ?add = Some (sample_const 2 5)" "opr2 ?add = Some (sample_reg 1)"
    "opr1 ?mul = Some (sample_const 2 5)" "opr2 ?mul = Some (sample_reg 1)"
    "VRF_CONST (sample_const 2 5)" "\<not> VRF_CONST (sample_reg 1)"
    "sample_reg 3 = fst (reg_alloc_spawn 3 (vsize (sample_const 2 5)))"
    by (simp_all add: new_ir_bop_raw_def sample_reg_def sample_const_def reg_alloc_spawn_def)
  have k: "kind ?add = IR_ADD \<and> is_im12 (fixnum (sample_const 2 5))"
    "kind ?mul \<in> {IR_MUL, IR_BITAND, IR_BITOR, IR_BITXOR}"
    by (simp_all add: new_ir_bop_raw_def sample_const_def is_im12_def)
  from tweak_irs_const_first [OF h(1,2,5,6,7), of "[]" "[]"] k(1)
  have 1: "tweak_bb_irs 3 ([] @ ?add # []) (length ([] :: IR list)) =
     tweak_bb_irs 3 ([] @ ?add\<lparr>opr1 := Some (sample_reg 1), opr2 := Some (sample_const 2 5)\<rparr> # []) (length ([] :: IR list) + 1)"
    by blast
  from tweak_irs_const_first [OF h(3,4,5,6,7), of "[]" "[]"] k(2)
  have 2: "tweak_bb_irs 3 ([] @ ?mul # []) (length ([] :: IR list)) =
     tweak_bb_irs (Suc 3) ([] @ new_ir_mov (sample_reg 3) (sample_const 2 5) (flag ?mul) # ?mul\<lparr>opr1 := Some (sample_reg 3)\<rparr> # []) (length ([] :: IR list) + 2)"
    by blast
  show ?thesis
    unfolding 1 2 by (simp add: tweak_bb_irs.simps new_ir_bop_raw_def)
qed

section \<open>Properties of gen_cast\<close>

lemma or_mask_sign_extends:
  "bit v n \<Longrightarrow> (v::64 word) OR push_bit (Suc n) (- 1) = signed_take_bit n v"
  by (rule bit_word_eqI) (auto simp: bit_simps min_def less_Suc_eq)

lemma and_not_mask_zero_extends:
  "(v::64 word) AND NOT (push_bit n (- 1)) = take_bit n v"
  by (rule bit_word_eqI) (auto simp: bit_simps)

lemma and_int_shl1_test:
  assumes "n < 31"
  shows "(v::64 word) AND scast (push_bit n (1 :: 32 word)) \<noteq> 0 \<longleftrightarrow> bit v n"
proof -
  have "(scast (push_bit n (1 :: 32 word)) :: 64 word) = push_bit n 1"
    using assms by (intro bit_word_eqI) (auto simp: bit_simps)
  then show ?thesis
    by (simp add: and_exp_eq_0_iff_not_bit)
qed

text \<open>
  For a destination of one, two or three bytes the constant path of gen_cast does narrow
  the value as expected.
\<close>

lemma gen_cast_const_narrow_small:
  assumes "vreg_const reg" "type_size dst_type \<in> {1, 2, 3}"
    "type_size dst_type < vt_size (vtype reg)"
  shows "gen_cast reg dst_type =
           Some (New_const_vreg (narrow_value dst_type (vreg_fixnum reg)) (to_vtype dst_type))"
proof -
  obtain k where k: "type_size dst_type * 8 = Suc k" "k < 31"
    using assms(2) by auto
  have lt: "type_size dst_type < 8" using assms(2) by auto
  show ?thesis
    using assms(1,3) lt k and_int_shl1_test [of k "vreg_fixnum reg"]
      or_mask_sign_extends [of "vreg_fixnum reg" k]
      and_not_mask_zero_extends [of "vreg_fixnum reg" "Suc k"]
    by (simp add: gen_cast_def narrow_value_def Let_def int_shl1_def
        del: push_bit_minus_one_eq_not_mask)
qed

text \<open>
  C10 fails on the code for a four-byte signed destination: the constant 0x100000000 of
  type long, cast to int, should become 0 (bit 31 is clear, so the value is zero-extended
  from 32 bits); gen_cast tests the value against \<open>1 << 31\<close> widened with its sign, finds
  bit 32 set, and returns 0xFFFFFFFF00000000.
\<close>

theorem gen_cast_const_long_to_int:
  "gen_cast \<lparr>vreg_id = 0, vreg_const = True, vreg_fixnum = 0x100000000, vtype = tyLongV\<rparr> tyInt
     = Some (New_const_vreg 0xFFFFFFFF00000000 (to_vtype tyInt))
   \<and> narrow_value tyInt 0x100000000 = 0"
  by (simp add: gen_cast_def narrow_value_def tyInt_def tyLongV_def int_shl1_def Let_def
      mask_eq_exp_minus_1)

section \<open>Properties of gen_compare_expr\<close>

lemma swap_cond_cmp_offset:
  "swap_cond (cmp_offset k + COND_EQ) = Some (cmp_offset (mirror k) + COND_EQ)"
  by (cases k) (simp_all add: swap_cond_def cond_defs)

lemma unsigned_adjust_cond_of:
  "(if cmp_offset k + COND_EQ > COND_NE \<and> (\<not> is_fixnum (tkind ty) \<or> fixnum_is_unsigned ty)
    then cmp_offset k + COND_EQ + (COND_ULT - COND_LT) else cmp_offset k + COND_EQ)
   = cond_of k ty"
  by (cases k) (simp_all add: cond_of_def cond_defs is_fixnum_def)

text \<open>
  The operands exchanged and the condition computed, what is left of gen_compare_expr is
  the lowering of the left operand followed by the choice between test and compare.
\<close>

lemma gen_compare_expr_body:
  assumes "gen_compare_expr other k lhs0 rhs0 s = Some (cond, s')"
    and "swap = (\<not> is_EX_FIXNUM rhs0 \<and> is_EX_FIXNUM lhs0)"
    and "lhs = (if swap then rhs0 else lhs0)"
    and "rhs = (if swap then lhs0 else rhs0)"
    and "cnd = cond_of (if swap then mirror k else k) (expr_type lhs)"
  shows "\<exists>lhs_reg s1. gen_expr other lhs s = Some (lhs_reg, s1) \<and>
    (case rhs of
        EX_FIXNUM rt v \<Rightarrow>
          if v = 0 \<and> (cnd = COND_EQ \<or> cnd = COND_NE)
          then Some (cnd, new_ir_test lhs_reg s1)
          else if fixnum_kind (expr_type lhs) \<noteq> FX_LONG \<or> is_im32 v
          then (case new_const_vreg v (to_vtype rt) s1 of (num, s2) \<Rightarrow>
                  Some (cnd, new_ir_cmp lhs_reg num s2))
          else if tkind (expr_type lhs) \<notin> {TY_FIXNUM, TY_PTR} then None
          else
            (case gen_expr other rhs s1 of
               None \<Rightarrow> None
             | Some (rhs_reg, s2) \<Rightarrow>
                 (case add_new_reg (expr_type lhs) s2 of (tmp, s3) \<Rightarrow>
                    Some (cnd, new_ir_cmp tmp rhs_reg (new_ir_mov_cg tmp lhs_reg s3))))
      | _ \<Rightarrow>
          if tkind (expr_type lhs) \<notin> {TY_FIXNUM, TY_PTR} then None
          else
            (case gen_expr other rhs s1 of
               None \<Rightarrow> None
             | Some (rhs_reg, s2) \<Rightarrow>
                 (case add_new_reg (expr_type lhs) s2 of (tmp, s3) \<Rightarrow>
                    Some (cnd, new_ir_cmp tmp rhs_reg (new_ir_mov_cg tmp lhs_reg s3))))) =
      Some (cond, s')"
proof -
  let ?c0 = "cmp_offset k + COND_EQ"
  let ?k' = "if swap then mirror k else k"
  have c1: "(if swap then swap_cond ?c0 else Some ?c0) = Some (cmp_offset ?k' + COND_EQ)"
    by (simp add: swap_cond_cmp_offset)
  note adj = unsigned_adjust_cond_of [of ?k' "expr_type lhs", folded assms(5)]
  from assms(1) have tk: "tkind (expr_type lhs0) = tkind (expr_type rhs0)"
    by (simp split: if_splits)
  from assms(1) tk obtain lhs_reg s1 where
    g: "gen_expr other lhs s = Some (lhs_reg, s1)"
    unfolding gen_compare_expr.simps Let_def assms(2)[symmetric] assms(3)[symmetric]
      assms(4)[symmetric] c1
    by (auto split: option.splits)
  from assms(1) tk g show ?thesis
    unfolding gen_compare_expr.simps Let_def assms(2)[symmetric] assms(3)[symmetric]
      assms(4)[symmetric] c1 option.case adj
    by simp
qed

text \<open>
  C6: gen_compare_expr exchanges the operands, and mirrors the condition, when the literal
  is on the left and the right operand is no literal. With \<open>lhs\<close> and \<open>rhs\<close> the operands
  after that, it lowers \<open>lhs\<close> and then: if \<open>rhs\<close> is the literal 0 and the condition is
  EQ or NE, it emits a test of the left value alone; otherwise, if \<open>rhs\<close> is a literal and
  the left type is not long or the literal fits 32 bits signed, it emits a compare of the
  left value with a constant VReg of the literal; otherwise it lowers \<open>rhs\<close>, copies the
  left value into a fresh VReg and emits a compare of that copy with the right value.
\<close>

theorem gen_compare_expr_cases:
  assumes "gen_compare_expr other k lhs0 rhs0 s = Some (cond, s')"
    and "swap = (\<not> is_EX_FIXNUM rhs0 \<and> is_EX_FIXNUM lhs0)"
    and "lhs = (if swap then rhs0 else lhs0)"
    and "rhs = (if swap then lhs0 else rhs0)"
  shows "cond = cond_of (if swap then mirror k else k) (expr_type lhs) \<and>
    (\<exists>lhs_reg s1. gen_expr other lhs s = Some (lhs_reg, s1) \<and>
       (if \<exists>rt. rhs = EX_FIXNUM rt 0 \<and> (cond = COND_EQ \<or> cond = COND_NE)
        then s' = new_ir_test lhs_reg s1
        else if \<exists>rt v. rhs = EX_FIXNUM rt v \<and>
                  (fixnum_kind (expr_type lhs) \<noteq> FX_LONG \<or> is_im32 v)
        then \<exists>rt v. rhs = EX_FIXNUM rt v \<and>
               s' = new_ir_cmp lhs_reg (fst (new_const_vreg v (to_vtype rt) s1))
                      (snd (new_const_vreg v (to_vtype rt) s1))
        else \<exists>rhs_reg s2. gen_expr other rhs s1 = Some (rhs_reg, s2) \<and>
               s' = new_ir_cmp (fst (add_new_reg (expr_type lhs) s2)) rhs_reg
                      (new_ir_mov_cg (fst (add_new_reg (expr_type lhs) s2)) lhs_reg
                         (snd (add_new_reg (expr_type lhs) s2)))))"
proof -
  define cnd where "cnd = cond_of (if swap then mirror k else k) (expr_type lhs)"
  from gen_compare_expr_body [OF assms cnd_def] obtain lhs_reg s1 where
    g: "gen_expr other lhs s = Some (lhs_reg, s1)" and
    rest: "(case rhs of
        EX_FIXNUM rt v \<Rightarrow>
          if v = 0 \<and> (cnd = COND_EQ \<or> cnd = COND_NE)
          then Some (cnd, new_ir_test lhs_reg s1)
          else if fixnum_kind (expr_type lhs) \<noteq> FX_LONG \<or> is_im32 v
          then (case new_const_vreg v (to_vtype rt) s1 of (num, s2) \<Rightarrow>
                  Some (cnd, new_ir_cmp lhs_reg num s2))
          else if tkind (expr_type lhs) \<notin> {TY_FIXNUM, TY_PTR} then None
          else
            (case gen_expr other rhs s1 of
               None \<Rightarrow> None
             | Some (rhs_reg, s2) \<Rightarrow>
                 (case add_new_reg (expr_type lhs) s2 of (tmp, s3) \<Rightarrow>
                    Some (cnd, new_ir_cmp tmp rhs_reg (new_ir_mov_cg tmp lhs_reg s3))))
      | _ \<Rightarrow>
          if tkind (expr_type lhs) \<notin> {TY_FIXNUM, TY_PTR} then None
          else
            (case gen_expr other rhs s1 of
               None \<Rightarrow> None
             | Some (rhs_reg, s2) \<Rightarrow>
                 (case add_new_reg (expr_type lhs) s2 of (tmp, s3) \<Rightarrow>
                    Some (cnd, new_ir_cmp tmp rhs_reg (new_ir_mov_cg tmp lhs_reg s3))))) =
      Some (cond, s')"
    by blast
  have cond: "cond = cnd"
    using rest by (auto split: Expr.splits if_splits option.splits prod.splits)
  have ways: "(if \<exists>rt. rhs = EX_FIXNUM rt 0 \<and> (cond = COND_EQ \<or> cond = COND_NE)
        then s' = new_ir_test lhs_reg s1
        else if \<exists>rt v. rhs = EX_FIXNUM rt v \<and>
                  (fixnum_kind (expr_type lhs) \<noteq> FX_LONG \<or> is_im32 v)
        then \<exists>rt v. rhs = EX_FIXNUM rt v \<and>
               s' = new_ir_cmp lhs_reg (fst (new_const_vreg v (to_vtype rt) s1))
                      (snd (new_const_vreg v (to_vtype rt) s1))
        else \<exists>rhs_reg s2. gen_expr other rhs s1 = Some (rhs_reg, s2) \<and>
               s' = new_ir_cmp (fst (add_new_reg (expr_type lhs) s2)) rhs_reg
                      (new_ir_mov_cg (fst (add_new_reg (expr_type lhs) s2)) lhs_reg
                         (snd (add_new_reg (expr_type lhs) s2))))"
    using rest unfolding cond [symmetric]
    by (cases rhs) (auto split: if_splits option.splits prod.splits)
  from cond g ways show ?thesis unfolding cnd_def by blast
qed

lemmas cg_ops =
  new_ir_def bb_split_def set_curbb_def reg_alloc_spawn_vt_def add_new_reg_def
  new_const_vreg_def new_ir_mov_cg_def new_ir_test_def new_ir_cmp_def new_ir_jmp_def
  new_ir_cond_def new_ir_unary_not_def to_vtype_def

theorem gen_compare_expr_cases_witness:
  "gen_compare_expr lower_fresh EX_LT (EX_FIXNUM tyInt 5) (EX_OTHER 7 tyInt) cg0 =
     Some (COND_GT,
       \<lparr>bbs = [\<lparr>label = 0, irs =
                 [Ir_other \<lparr>vreg_id = 0, vreg_const = False, vreg_fixnum = 0,
                            vtype = to_vtype tyInt\<rparr> 7,
                  Ir_cmp \<lparr>vreg_id = 0, vreg_const = False, vreg_fixnum = 0,
                          vtype = to_vtype tyInt\<rparr>
                         \<lparr>vreg_id = 1, vreg_const = True, vreg_fixnum = 5,
                          vtype = to_vtype tyInt\<rparr>]\<rparr>],
        curbb = 0, bb_count = 1, vreg_count = 2\<rparr>)
   \<and> COND_GT = cond_of (mirror EX_LT) tyInt"
proof -
  let ?S = "\<lparr>bbs = [\<lparr>label = 0, irs =
                 [Ir_other \<lparr>vreg_id = 0, vreg_const = False, vreg_fixnum = 0,
                            vtype = to_vtype tyInt\<rparr> 7,
                  Ir_cmp \<lparr>vreg_id = 0, vreg_const = False, vreg_fixnum = 0,
                          vtype = to_vtype tyInt\<rparr>
                         \<lparr>vreg_id = 1, vreg_const = True, vreg_fixnum = 5,
                          vtype = to_vtype tyInt\<rparr>]\<rparr>],
        curbb = 0, bb_count = 1, vreg_count = 2\<rparr>"
  have h: "gen_compare_expr lower_fresh EX_LT (EX_FIXNUM tyInt 5) (EX_OTHER 7 tyInt) cg0 = Some (COND_GT, ?S)"
    by (simp add: cg_ops cg0_def tyInt_def swap_cond_def cond_defs is_fixnum_def lower_fresh_def)
  from gen_compare_expr_cases [OF h refl refl refl]
  have "COND_GT = cond_of (mirror EX_LT) tyInt" by simp
  with h show ?thesis by simp
qed

section \<open>Blocks and labels\<close>

text \<open>
  Where a block is found in a list of blocks with distinct labels, and how the operations
  of the lowering state (a new instruction, a split, a change of the current block, a new
  VReg) change its shape.
\<close>

lemma get_bb_decomp:
  "label b \<notin> set (map label P) \<Longrightarrow> get_bb (P @ b # Q) (label b) = Some b"
  by (induction P) auto

lemma get_bb_append_notin:
  "l \<notin> set (map label P) \<Longrightarrow> get_bb (P @ Q) l = get_bb Q l"
  by (induction P) auto

lemma next_label_decomp:
  "label b \<notin> set (map label P) \<Longrightarrow> next_label (P @ b # b' # Q) (label b) = Some (label b')"
proof (induction P)
  case Nil
  then show ?case by simp
next
  case (Cons a P)
  then show ?case by (cases "P @ b # b' # Q") auto
qed

lemma takeWhile_decomp:
  "label x \<notin> label ` set p \<Longrightarrow> takeWhile (\<lambda>b. label b \<noteq> label x) (p @ x # q) = p"
  by (induction p) auto

lemma dropWhile_decomp:
  "label x \<notin> label ` set p \<Longrightarrow> dropWhile (\<lambda>b. label b \<noteq> label x) (p @ x # q) = x # q"
  by (induction p) auto

lemma decomp_unique:
  assumes "distinct (map label (p1 @ x # q1))" "p1 @ x # q1 = p2 @ y # q2" "label x = label y"
  shows "p1 = p2 \<and> x = y \<and> q1 = q2"
proof -
  have n1: "label x \<notin> label ` set p1" using assms(1) by auto
  have "distinct (map label (p2 @ y # q2))" using assms(1,2) by simp
  then have n2: "label x \<notin> label ` set p2" using assms(3) by auto
  have "p1 = takeWhile (\<lambda>b. label b \<noteq> label x) (p1 @ x # q1)"
    using takeWhile_decomp [OF n1] by simp
  also have "\<dots> = p2"
    unfolding assms(2) using takeWhile_decomp [of y p2 q2] n2 assms(3) by simp
  finally have "p1 = p2" .
  with assms(2) show ?thesis by simp
qed

lemma decomp_exists:
  "l \<in> set (map label bs) \<Longrightarrow> \<exists>pre c post. bs = pre @ c # post \<and> label c = l"
  by (induction bs) (auto intro: exI [of _ "[]"] Cons_eq_appendI)

lemma new_ir_decomp:
  assumes "bbs s = pre @ c # post" "label c = curbb s" "distinct (map label (bbs s))"
  shows "bbs (new_ir i s) = pre @ c\<lparr>irs := irs c @ [i]\<rparr> # post"
proof -
  have d: "distinct (map label (pre @ c # post))" using assms by simp
  then have "label c \<notin> label ` set pre" "label c \<notin> label ` set post"
    by auto
  then have n: "\<And>b. b \<in> set pre \<or> b \<in> set post \<Longrightarrow> label b \<noteq> label c"
    by (metis imageI)
  have "map (\<lambda>b. if label b = label c then b\<lparr>irs := irs b @ [i]\<rparr> else b) pre = pre"
    by (rule map_idI) (simp add: n)
  moreover have "map (\<lambda>b. if label b = label c then b\<lparr>irs := irs b @ [i]\<rparr> else b) post = post"
    by (rule map_idI) (simp add: n)
  ultimately show ?thesis using assms by (simp add: new_ir_def)
qed

lemma insert_after_decomp:
  "label d \<notin> set (map label P) \<Longrightarrow> insert_after (label d) nb (P @ d # Q) = P @ d # nb # Q"
  by (induction P) auto

lemma shape_wf: "shape s pre c post \<Longrightarrow> wf_cg s"
  unfolding shape_def wf_cg_def by (elim conjE) simp

lemma wf_shape:
  assumes "wf_cg s"
  shows "\<exists>pre c post. shape s pre c post"
proof -
  from assms have "curbb s \<in> set (map label (bbs s))" by (simp add: wf_cg_def)
  from decomp_exists [OF this] obtain pre c post where
    b: "bbs s = pre @ c # post" and l: "label c = curbb s" by blast
  have "distinct (map label (pre @ c # post))"
    "list_all (\<lambda>b. label b < bb_count s) (pre @ c # post)"
    using assms unfolding wf_cg_def b by blast+
  with b l have "shape s pre c post" unfolding shape_def by blast
  then show ?thesis by blast
qed

lemma shape_unique:
  assumes "shape s pre c post" "shape s pre' c' post'"
  shows "pre = pre' \<and> c = c' \<and> post = post'"
proof -
  have "distinct (map label (pre @ c # post))" "pre @ c # post = pre' @ c' # post'"
    "label c = label c'"
    using assms unfolding shape_def by (metis)+
  then show ?thesis by (rule decomp_unique)
qed

lemma shape_get_bb:
  assumes "shape s pre c post"
  shows "get_bb (bbs s) (label c) = Some c"
proof -
  from assms have b: "bbs s = pre @ c # post" and d: "distinct (map label (pre @ c # post))"
    unfolding shape_def by blast+
  from d have "label c \<notin> set (map label pre)" by simp
  from get_bb_decomp [OF this] show ?thesis unfolding b .
qed

lemma shape_cur_end:
  assumes "shape s pre c post"
  shows "cur_end s = (label c, length (irs c))"
proof -
  from assms have l: "curbb s = label c" unfolding shape_def by simp
  show ?thesis unfolding cur_end_def irs_of_def l shape_get_bb [OF assms] by simp
qed

lemma new_ir_counts [simp]:
  "bb_count (new_ir i s) = bb_count s" "vreg_count (new_ir i s) = vreg_count s"
  "curbb (new_ir i s) = curbb s"
  by (simp_all add: new_ir_def)

lemma shape_new_ir:
  assumes "shape s pre c post"
  shows "shape (new_ir i s) pre (c\<lparr>irs := irs c @ [i]\<rparr>) post"
proof -
  let ?c = "c\<lparr>irs := irs c @ [i]\<rparr>"
  from assms have b: "bbs s = pre @ c # post" and l: "label c = curbb s"
    and d: "distinct (map label (pre @ c # post))"
    and lt: "list_all (\<lambda>b. label b < bb_count s) (pre @ c # post)"
    unfolding shape_def by blast+
  have b': "bbs (new_ir i s) = pre @ ?c # post"
    using new_ir_decomp [OF b l] d b by simp
  have m: "map label (pre @ ?c # post) = map label (pre @ c # post)" by simp
  have lt': "list_all (\<lambda>b. label b < bb_count s) (pre @ ?c # post)"
    using lt by simp
  show ?thesis
    unfolding shape_def m new_ir_counts using b' l d lt' by simp
qed

lemma distinct_fresh:
  assumes "distinct (map label bs)" "list_all (\<lambda>b. label b < n) bs" "bs = P @ Q"
  shows "distinct (map label (P @ \<lparr>label = n, irs = []\<rparr> # Q))"
proof -
  have "n \<notin> label ` set bs" using assms(2) by (auto simp: list_all_iff)
  then have "n \<notin> label ` set P" "n \<notin> label ` set Q" unfolding assms(3) by auto
  moreover have "distinct (map label (P @ Q))" using assms(1,3) by simp
  ultimately show ?thesis by simp
qed

lemma shape_bb_split:
  assumes "shape s pre c (q1 @ q2)" "l = label (last (c # q1))"
  shows "shape (snd (bb_split l s)) pre c (q1 @ \<lparr>label = bb_count s, irs = []\<rparr> # q2)"
    and "fst (bb_split l s) = bb_count s"
    and "bb_count (snd (bb_split l s)) = Suc (bb_count s)"
    and "vreg_count (snd (bb_split l s)) = vreg_count s"
    and "curbb (snd (bb_split l s)) = curbb s"
proof -
  let ?nb = "\<lparr>label = bb_count s, irs = []\<rparr>"
  have d: "distinct (map label (pre @ c # q1 @ q2))" and b: "bbs s = pre @ c # q1 @ q2"
    and lt: "list_all (\<lambda>b. label b < bb_count s) (pre @ c # q1 @ q2)"
    and lc: "label c = curbb s"
    using assms(1) unfolding shape_def by blast+
  have ins: "insert_after l ?nb (bbs s) = pre @ c # q1 @ ?nb # q2"
  proof (cases q1 rule: rev_cases)
    case Nil
    have "label c \<notin> set (map label pre)" using d by simp
    from insert_after_decomp [OF this, of ?nb q2]
    show ?thesis using b Nil assms(2) by simp
  next
    case (snoc q d')
    have "label d' \<notin> set (map label (pre @ c # q))" using d snoc by auto
    from insert_after_decomp [OF this, of ?nb q2]
    show ?thesis using b snoc assms(2) by simp
  qed
  have d': "distinct (map label ((pre @ c # q1) @ ?nb # q2))"
    by (rule distinct_fresh [OF d lt]) simp
  have lt': "list_all (\<lambda>b. label b < Suc (bb_count s)) (pre @ c # q1 @ ?nb # q2)"
    using lt by (simp add: list_all_iff less_Suc_eq)
  show "shape (snd (bb_split l s)) pre c (q1 @ ?nb # q2)"
    unfolding shape_def using ins d' lt' lc by (simp add: bb_split_def)
  show "fst (bb_split l s) = bb_count s" "bb_count (snd (bb_split l s)) = Suc (bb_count s)"
    "vreg_count (snd (bb_split l s)) = vreg_count s" "curbb (snd (bb_split l s)) = curbb s"
    by (simp_all add: bb_split_def)
qed

lemma set_curbb_counts [simp]:
  "bb_count (set_curbb l s) = bb_count s" "vreg_count (set_curbb l s) = vreg_count s"
  "bbs (set_curbb l s) = bbs s" "curbb (set_curbb l s) = l"
  by (simp_all add: set_curbb_def)

lemma shape_set_curbb:
  assumes "shape s pre c (q1 @ d # q2)"
  shows "shape (set_curbb (label d) s) (pre @ c # q1) d q2"
proof -
  have "(pre @ c # q1) @ d # q2 = pre @ c # q1 @ d # q2" by simp
  then show ?thesis using assms unfolding shape_def set_curbb_counts by metis
qed

lemma shape_vreg_count [simp]:
  "shape (s\<lparr>vreg_count := n\<rparr>) pre c post = shape s pre c post"
  by (simp add: shape_def)

lemma ext_vreg_count_left [simp]: "ext (s\<lparr>vreg_count := n\<rparr>) S = ext s S"
  by (simp add: ext_def)

lemma cur_end_vreg_count [simp]: "cur_end (s\<lparr>vreg_count := n\<rparr>) = cur_end s"
  by (simp add: cur_end_def)


lemma ext_shape:
  assumes "ext s S" "shape s pre c post"
  shows "\<exists>c' post' xs. bbs S = pre @ c' # post' \<and> label c' = label c \<and> irs c' = irs c @ xs \<and>
           distinct (map label (pre @ c' # post'))"
proof -
  from assms(1) obtain p c0 q c' post' xs where
    e: "bbs s = p @ c0 # q" "label c0 = curbb s" "bbs S = p @ c' # post'" "label c' = curbb s"
       "irs c' = irs c0 @ xs" and dS: "distinct (map label (bbs S))"
    unfolding ext_def by blast
  from assms(2) have sh: "bbs s = pre @ c # post" "label c = curbb s"
    "distinct (map label (pre @ c # post))"
    unfolding shape_def by blast+
  have "pre @ c # post = p @ c0 # q" "label c = label c0" using e sh by simp_all
  from decomp_unique [OF sh(3) this] have "p = pre" "c0 = c" by simp_all
  with e dS sh(2) show ?thesis by auto
qed

lemma ext_from:
  assumes "shape s pre c post" "shape S P d Q" "P @ [d] = pre @ c' # R"
    "label c' = label c" "irs c' = irs c @ xs"
  shows "ext s S"
proof -
  from assms(2) have S: "bbs S = P @ d # Q" "label d = curbb S"
    "distinct (map label (P @ d # Q))"
    unfolding shape_def by blast+
  have "bbs S = (P @ [d]) @ Q" using S(1) by simp
  then have bS: "bbs S = pre @ c' # (R @ Q)" unfolding assms(3) by simp
  have "last (P @ [d]) = last (c' # R)" unfolding assms(3) by simp
  then have "d = last (c' # R)" by simp
  then have "d \<in> set (c' # R)" using last_in_set [of "c' # R"] by simp
  then have "label d \<in> label ` set (c' # R)" by (rule imageI)
  then have cur: "curbb S \<in> set (map label (c' # R @ Q))" unfolding S(2) by auto
  from assms(1) have sh: "bbs s = pre @ c # post" "label c = curbb s"
    unfolding shape_def by blast+
  have dS: "distinct (map label (bbs S))" using S(1,3) by simp
  have "bbs s = pre @ c # post \<and> label c = curbb s \<and> bbs S = pre @ c' # (R @ Q) \<and>
        label c' = curbb s \<and> irs c' = irs c @ xs \<and> curbb S \<in> set (map label (c' # (R @ Q)))"
    using bS cur sh assms(4,5) by simp
  with dS show ?thesis unfolding ext_def by blast
qed

lemma ext_refl: "shape s pre c post \<Longrightarrow> ext s s"
  by (rule ext_from [where c' = c and R = "[]" and xs = "[]"]) auto

lemma ext_grows:
  assumes "shape s pre c post" "grows s s'"
  shows "ext s s'"
proof -
  from assms obtain code region f l where
    g: "c\<lparr>irs := irs c @ code\<rparr> # region = f @ [l]" "shape s' (pre @ f) l post"
    unfolding grows_def by blast
  have "(pre @ f) @ [l] = pre @ c\<lparr>irs := irs c @ code\<rparr> # region" using g(1) by simp
  from ext_from [OF assms(1) g(2) this] show ?thesis by simp
qed

lemma ext_set_curbb:
  assumes "shape s pre c (q1 @ d # q2)"
  shows "ext s (set_curbb (label d) s)"
proof -
  have "(pre @ c # q1) @ [d] = pre @ c # (q1 @ [d])" by simp
  from ext_from [OF assms shape_set_curbb [OF assms] this] show ?thesis by simp
qed

lemma ext_trans:
  assumes "ext s s'" "ext s' S"
  shows "ext s S"
proof -
  from assms(1) obtain pre c post c' post' xs where
    a: "bbs s = pre @ c # post" "label c = curbb s" "bbs s' = pre @ c' # post'"
       "label c' = curbb s" "irs c' = irs c @ xs"
       "curbb s' \<in> set (map label (c' # post'))"
    and d': "distinct (map label (bbs s'))"
    unfolding ext_def by blast
  from assms(2) obtain p2 d q2 d' q2' ys where
    b: "bbs s' = p2 @ d # q2" "label d = curbb s'" "bbs S = p2 @ d' # q2'"
       "label d' = curbb s'" "irs d' = irs d @ ys"
       "curbb S \<in> set (map label (d' # q2'))"
    and dS: "distinct (map label (bbs S))"
    unfolding ext_def by blast
  show ?thesis
  proof (cases "curbb s' = label c'")
    case True
    have "p2 @ d # q2 = pre @ c' # post'" "label d = label c'"
      using a(3) b(1,2) True by simp_all
    moreover have "distinct (map label (p2 @ d # q2))" using d' b(1) by simp
    ultimately have "p2 = pre" "d = c'" using decomp_unique by blast+
    then have "bbs S = pre @ d' # q2'" "label d' = curbb s" "irs d' = irs c @ (xs @ ys)"
      using b a True by simp_all
    with a(1,2) b(6) dS show ?thesis unfolding ext_def by blast
  next
    case False
    with a(6) have "curbb s' \<in> set (map label post')" by simp
    from decomp_exists [OF this] obtain r1 e r2 where
      p: "post' = r1 @ e # r2" "label e = curbb s'" by blast
    have "p2 @ d # q2 = (pre @ c' # r1) @ e # r2" "label d = label e"
      using a(3) b(1,2) p by simp_all
    moreover have "distinct (map label (p2 @ d # q2))" using d' b(1) by simp
    ultimately have "p2 = pre @ c' # r1" using decomp_unique by blast
    then have bS: "bbs S = pre @ c' # (r1 @ d' # q2')" using b(3) by simp
    have "curbb S \<in> set (map label (c' # r1 @ d' # q2'))" using b(6) by auto
    with a(1,2,4,5) bS dS show ?thesis unfolding ext_def by blast
  qed
qed

lemma reaches_step: "step bs env c = Some c' \<Longrightarrow> reaches bs env c c'"
  by (rule reaches.after [OF _ reaches.here])

lemma reaches_trans:
  "reaches bs env c c' \<Longrightarrow> reaches bs env c' c'' \<Longrightarrow> reaches bs env c c''"
  by (induction rule: reaches.induct) (auto intro: reaches.after)

lemma step_cursor:
  assumes "ext s S" "shape s pre c post" "n < length (irs c)"
  shows "step (bbs S) env ((label c, n), m) = Some (exec_ir env (irs c ! n) (label c, n) m)"
proof -
  from ext_shape [OF assms(1,2)] obtain c' post' xs where
    S: "bbs S = pre @ c' # post'" "label c' = label c" "irs c' = irs c @ xs"
       "distinct (map label (pre @ c' # post'))"
    by blast
  have "label c' \<notin> set (map label pre)" using S(4) by simp
  from get_bb_decomp [OF this] have g: "get_bb (bbs S) (label c) = Some c'"
    using S(1,2) by simp
  show ?thesis
    unfolding step_def using g assms(3) S(3) by (simp add: nth_append)
qed

lemma step_fall:
  assumes "ext s S" "shape s (pre @ [b]) c post"
  shows "step (bbs S) env ((label b, length (irs b)), m) = Some ((label c, 0), m)"
proof -
  from ext_shape [OF assms(1,2)] obtain c' post' xs where
    S: "bbs S = (pre @ [b]) @ c' # post'" "label c' = label c"
       "distinct (map label ((pre @ [b]) @ c' # post'))"
    by blast
  have bS: "bbs S = pre @ b # c' # post'" using S(1) by simp
  have n: "label b \<notin> set (map label pre)" using S(3) by simp
  have g: "get_bb (bbs S) (label b) = Some b" unfolding bS by (rule get_bb_decomp [OF n])
  have nl: "next_label (bbs S) (label b) = Some (label c')"
    unfolding bS by (rule next_label_decomp [OF n])
  show ?thesis
    unfolding step_def using S(2) by (simp add: g nl)
qed

section \<open>Growing states and single steps\<close>

lemma grows_shapeI:
  assumes "shape s pre c post" "shape s' (pre @ f) l post"
    "c\<lparr>irs := irs c @ code\<rparr> # region = f @ [l]"
    "bb_count s \<le> bb_count s'" "vreg_count s \<le> vreg_count s'"
  shows "grows s s'"
  unfolding grows_def
proof (intro conjI allI impI)
  fix pre' c' post'
  assume "shape s pre' c' post'"
  from shape_unique [OF this assms(1)] have "pre' = pre" "c' = c" "post' = post" by simp_all
  with assms(2,3)
  show "\<exists>code region f l. c'\<lparr>irs := irs c' @ code\<rparr> # region = f @ [l] \<and> shape s' (pre' @ f) l post'"
    by blast
qed (use assms in simp_all)

lemma grows_shapeD:
  assumes "grows s s'" "shape s pre c post"
  shows "\<exists>code region f l. c\<lparr>irs := irs c @ code\<rparr> # region = f @ [l] \<and> shape s' (pre @ f) l post"
  using assms unfolding grows_def by blast

lemma grows_counts:
  assumes "grows s s'"
  shows "bb_count s \<le> bb_count s'" "vreg_count s \<le> vreg_count s'"
  using assms unfolding grows_def by simp_all

lemma grows_refl: "wf_cg s \<Longrightarrow> grows s s"
proof -
  assume "wf_cg s"
  from wf_shape [OF this] obtain pre c post where sh: "shape s pre c post" by blast
  have "shape s (pre @ []) c post" using sh by simp
  from grows_shapeI [OF sh this, of "[]" "[]"] show ?thesis by simp
qed

lemma grows_new_ir: "wf_cg s \<Longrightarrow> grows s (new_ir i s)"
proof -
  assume "wf_cg s"
  from wf_shape [OF this] obtain pre c post where sh: "shape s pre c post" by blast
  have "shape (new_ir i s) (pre @ []) (c\<lparr>irs := irs c @ [i]\<rparr>) post"
    using shape_new_ir [OF sh] by simp
  from grows_shapeI [OF sh this, of "[i]" "[]"] show ?thesis by simp
qed

lemma grows_vreg_count: "wf_cg s \<Longrightarrow> vreg_count s \<le> n \<Longrightarrow> grows s (s\<lparr>vreg_count := n\<rparr>)"
proof -
  assume "wf_cg s" and n: "vreg_count s \<le> n"
  from wf_shape [OF this(1)] obtain pre c post where sh: "shape s pre c post" by blast
  have "shape (s\<lparr>vreg_count := n\<rparr>) (pre @ []) c post" using sh by simp
  from grows_shapeI [OF sh this, of "[]" "[]"] n show ?thesis by simp
qed

lemma grows_wf: "wf_cg s \<Longrightarrow> grows s s' \<Longrightarrow> wf_cg s'"
proof -
  assume "wf_cg s" "grows s s'"
  from wf_shape [OF this(1)] obtain pre c post where sh: "shape s pre c post" by blast
  from grows_shapeD [OF \<open>grows s s'\<close> sh] show ?thesis using shape_wf by blast
qed

lemma grows_trans:
  assumes "wf_cg s" "grows s s1" "grows s1 s2"
  shows "grows s s2"
proof -
  from wf_shape [OF assms(1)] obtain pre c post where sh: "shape s pre c post" by blast
  from grows_shapeD [OF assms(2) sh] obtain code region f l where
    a: "c\<lparr>irs := irs c @ code\<rparr> # region = f @ [l]" "shape s1 (pre @ f) l post" by blast
  from grows_shapeD [OF assms(3) a(2)] obtain code' region' f' l' where
    b: "l\<lparr>irs := irs l @ code'\<rparr> # region' = f' @ [l']" "shape s2 ((pre @ f) @ f') l' post" by blast
  have sh2: "shape s2 (pre @ (f @ f')) l' post" using b(2) by simp
  have cnt: "bb_count s \<le> bb_count s2" "vreg_count s \<le> vreg_count s2"
    using grows_counts [OF assms(2)] grows_counts [OF assms(3)] by simp_all
  show ?thesis
  proof (cases f)
    case Nil
    then have l: "l = c\<lparr>irs := irs c @ code\<rparr>" "region = []" using a(1) by simp_all
    have "c\<lparr>irs := irs c @ (code @ code')\<rparr> # region' = (f @ f') @ [l']"
      using b(1) l Nil by simp
    from grows_shapeI [OF sh sh2 this cnt] show ?thesis .
  next
    case (Cons x xs)
    then have x: "x = c\<lparr>irs := irs c @ code\<rparr>" "region = xs @ [l]" using a(1) by simp_all
    have "c\<lparr>irs := irs c @ code\<rparr> # (xs @ l\<lparr>irs := irs l @ code'\<rparr> # region') = (f @ f') @ [l']"
      using b(1) x Cons by simp
    from grows_shapeI [OF sh sh2 this cnt] show ?thesis .
  qed
qed

lemma ext_new_ir: "wf_cg s \<Longrightarrow> ext s (new_ir i s)"
proof -
  assume w: "wf_cg s"
  from wf_shape [OF this] obtain pre c post where sh: "shape s pre c post" by blast
  from ext_grows [OF sh grows_new_ir [OF w]] show ?thesis .
qed

lemma step_pre:
  assumes "ext s S" "shape s (P1 @ b # P2) d Q" "n < length (irs b)"
  shows "step (bbs S) env ((label b, n), m) = Some (exec_ir env (irs b ! n) (label b, n) m)"
proof -
  from ext_shape [OF assms(1,2)] obtain c' post' xs where
    S: "bbs S = (P1 @ b # P2) @ c' # post'"
       "distinct (map label ((P1 @ b # P2) @ c' # post'))"
    by blast
  have bS: "bbs S = P1 @ b # (P2 @ c' # post')" using S(1) by simp
  have n: "label b \<notin> set (map label P1)" using S(2) by simp
  have g: "get_bb (bbs S) (label b) = Some b" unfolding bS by (rule get_bb_decomp [OF n])
  show ?thesis unfolding step_def using assms(3) by (simp add: g)
qed

lemma cur_end_new_ir:
  assumes "shape s pre c post"
  shows "cur_end (new_ir i s) = (label c, Suc (length (irs c)))"
  using shape_cur_end [OF shape_new_ir [OF assms]] by simp

lemma step_new_ir:
  assumes "shape s pre c post" "ext (new_ir i s) S"
  shows "step (bbs S) env ((label c, length (irs c)), m) =
           Some (exec_ir env i (label c, length (irs c)) m)"
  using step_cursor [OF assms(2) shape_new_ir [OF assms(1)], of "length (irs c)" env m]
  by simp

section \<open>Two conditional jumps in a row\<close>

text \<open>
  The pattern shared by the lowerings of \<open>&&\<close> and \<open>||\<close>: the left operand jumps or
  falls through into the block in which the right operand is lowered, which jumps or falls
  through into the block behind it.
\<close>

lemma agree_refl [simp]: "agree V m m"
  by (simp add: agree_def)

lemma agree_sym: "agree V m m' \<Longrightarrow> agree V m' m"
  by (simp add: agree_def)

lemma agree_trans: "agree V m1 m2 \<Longrightarrow> agree V m2 m3 \<Longrightarrow> agree V m1 m3"
  by (simp add: agree_def)

lemma agree_regs_upd [simp]:
  "x \<notin> V \<Longrightarrow> agree V (m\<lparr>regs := (regs m)(x := v)\<rparr>) m' = agree V m m'"
  by (auto simp: agree_def)

lemma agree_flags_upd [simp]: "agree V (m\<lparr>flags := f\<rparr>) m' = agree V m m'"
  by (simp add: agree_def)

lemma read_agree:
  assumes "agree V m m'" "\<And>x. p = Loc x \<Longrightarrow> x \<in> V"
  shows "read p m = read p m'"
  using assms by (cases p) (auto simp: agree_def)

lemma sem_loc0:
  assumes "meaning_ok V om"
  shows "locals_in V e \<Longrightarrow> fst (sem om e m) = Loc x \<Longrightarrow> x \<in> V"
proof (induction e arbitrary: m)
  case (EX_OTHER n t)
  with assms show ?case unfolding meaning_ok_def stable_meaning_def by auto
qed (auto simp: case_prod_beta split: if_splits)

lemma sem_congr0:
  assumes mo: "meaning_ok V om"
  shows "locals_in V e \<Longrightarrow> agree V m m2 \<Longrightarrow>
    fst (sem om e m) = fst (sem om e m2) \<and> agree V (snd (sem om e m)) (snd (sem om e m2))"
proof (induction e arbitrary: m m2)
  case (EX_FIXNUM t v)
  then show ?case by simp
next
  case (EX_OTHER n t)
  with mo show ?case unfolding meaning_ok_def stable_meaning_def by auto
next
  case (EX_GROUP t e)
  then show ?case by simp
next
  case (EX_VARIABLE t reg)
  then show ?case by simp
next
  case (EX_NOT t e)
  from EX_NOT.prems have le: "locals_in V e" by simp
  from EX_NOT.IH [OF le EX_NOT.prems(2)]
  have f: "fst (sem om e m) = fst (sem om e m2)"
    and a: "agree V (snd (sem om e m)) (snd (sem om e m2))" by simp_all
  have "read (fst (sem om e m)) (snd (sem om e m)) = read (fst (sem om e m2)) (snd (sem om e m2))"
    unfolding f [symmetric] by (rule read_agree [OF a sem_loc0 [OF mo le]])
  with a show ?case by (simp add: case_prod_beta)
next
  case (EX_ASSIGN t reg e)
  from EX_ASSIGN.prems have le: "locals_in V e" by simp
  from EX_ASSIGN.IH [OF le EX_ASSIGN.prems(2)]
  have f: "fst (sem om e m) = fst (sem om e m2)"
    and a: "agree V (snd (sem om e m)) (snd (sem om e m2))" by simp_all
  have r: "read (fst (sem om e m)) (snd (sem om e m)) = read (fst (sem om e m2)) (snd (sem om e m2))"
    unfolding f [symmetric] by (rule read_agree [OF a sem_loc0 [OF mo le]])
  show ?case using f a r by (simp add: case_prod_beta agree_def)
next
  case (EX_COMMA t a b)
  from EX_COMMA.prems have la: "locals_in V a" and lb: "locals_in V b" by simp_all
  from EX_COMMA.IH(1) [OF la EX_COMMA.prems(2)]
  have ag: "agree V (snd (sem om a m)) (snd (sem om a m2))" by simp
  from EX_COMMA.IH(2) [OF lb ag] show ?case by simp
next
  case (EX_LOGAND t a b)
  from EX_LOGAND.prems have la: "locals_in V a" and lb: "locals_in V b" by simp_all
  let ?A = "sem om a m" and ?A2 = "sem om a m2"
  from EX_LOGAND.IH(1) [OF la EX_LOGAND.prems(2)]
  have f: "fst ?A = fst ?A2" and ag: "agree V (snd ?A) (snd ?A2)" by simp_all
  have r: "read (fst ?A) (snd ?A) = read (fst ?A2) (snd ?A2)"
    unfolding f [symmetric] by (rule read_agree [OF ag sem_loc0 [OF mo la]])
  let ?B = "sem om b (snd ?A)" and ?B2 = "sem om b (snd ?A2)"
  from EX_LOGAND.IH(2) [OF lb ag]
  have g: "fst ?B = fst ?B2" and bg: "agree V (snd ?B) (snd ?B2)" by simp_all
  have r2: "read (fst ?B) (snd ?B) = read (fst ?B2) (snd ?B2)"
    unfolding g [symmetric] by (rule read_agree [OF bg sem_loc0 [OF mo lb]])
  show ?case using r r2 ag bg by (simp add: case_prod_beta)
next
  case (EX_LOGIOR t a b)
  from EX_LOGIOR.prems have la: "locals_in V a" and lb: "locals_in V b" by simp_all
  let ?A = "sem om a m" and ?A2 = "sem om a m2"
  from EX_LOGIOR.IH(1) [OF la EX_LOGIOR.prems(2)]
  have f: "fst ?A = fst ?A2" and ag: "agree V (snd ?A) (snd ?A2)" by simp_all
  have r: "read (fst ?A) (snd ?A) = read (fst ?A2) (snd ?A2)"
    unfolding f [symmetric] by (rule read_agree [OF ag sem_loc0 [OF mo la]])
  let ?B = "sem om b (snd ?A)" and ?B2 = "sem om b (snd ?A2)"
  from EX_LOGIOR.IH(2) [OF lb ag]
  have g: "fst ?B = fst ?B2" and bg: "agree V (snd ?B) (snd ?B2)" by simp_all
  have r2: "read (fst ?B) (snd ?B) = read (fst ?B2) (snd ?B2)"
    unfolding g [symmetric] by (rule read_agree [OF bg sem_loc0 [OF mo lb]])
  show ?case using r r2 ag bg by (simp add: case_prod_beta)
next
  case (EX_COMPARE k t a b)
  from EX_COMPARE.prems have la: "locals_in V a" and lb: "locals_in V b" by simp_all
  let ?A = "sem om a m" and ?A2 = "sem om a m2"
  from EX_COMPARE.IH(1) [OF la EX_COMPARE.prems(2)]
  have f: "fst ?A = fst ?A2" and ag: "agree V (snd ?A) (snd ?A2)" by simp_all
  let ?B = "sem om b (snd ?A)" and ?B2 = "sem om b (snd ?A2)"
  from EX_COMPARE.IH(2) [OF lb ag]
  have g: "fst ?B = fst ?B2" and bg: "agree V (snd ?B) (snd ?B2)" by simp_all
  have r: "read (fst ?A) (snd ?B) = read (fst ?A2) (snd ?B2)"
    unfolding f [symmetric] by (rule read_agree [OF bg sem_loc0 [OF mo la]])
  have r2: "read (fst ?B) (snd ?B) = read (fst ?B2) (snd ?B2)"
    unfolding g [symmetric] by (rule read_agree [OF bg sem_loc0 [OF mo lb]])
  show ?case using r r2 bg by (simp add: case_prod_beta)
next
  case (EX_TERNARY t c a b)
  from EX_TERNARY.prems have lc: "locals_in V c" and la: "locals_in V a" and lb: "locals_in V b"
    by simp_all
  let ?C = "sem om c m" and ?C2 = "sem om c m2"
  from EX_TERNARY.IH(1) [OF lc EX_TERNARY.prems(2)]
  have f: "fst ?C = fst ?C2" and ag: "agree V (snd ?C) (snd ?C2)" by simp_all
  have r: "read (fst ?C) (snd ?C) = read (fst ?C2) (snd ?C2)"
    unfolding f [symmetric] by (rule read_agree [OF ag sem_loc0 [OF mo lc]])
  let ?A = "sem om a (snd ?C)" and ?A2 = "sem om a (snd ?C2)"
  from EX_TERNARY.IH(2) [OF la ag]
  have g: "fst ?A = fst ?A2" and bg: "agree V (snd ?A) (snd ?A2)" by simp_all
  have r2: "read (fst ?A) (snd ?A) = read (fst ?A2) (snd ?A2)"
    unfolding g [symmetric] by (rule read_agree [OF bg sem_loc0 [OF mo la]])
  let ?B = "sem om b (snd ?C)" and ?B2 = "sem om b (snd ?C2)"
  from EX_TERNARY.IH(3) [OF lb ag]
  have h: "fst ?B = fst ?B2" and cg: "agree V (snd ?B) (snd ?B2)" by simp_all
  have r3: "read (fst ?B) (snd ?B) = read (fst ?B2) (snd ?B2)"
    unfolding h [symmetric] by (rule read_agree [OF cg sem_loc0 [OF mo lb]])
  show ?case using r r2 r3 bg cg by (simp add: case_prod_beta)
qed

lemma sem_stable:
  assumes "meaning_ok V om" "locals_in V e"
  shows "stable_meaning V (sem om e)"
  unfolding stable_meaning_def using sem_congr0 [OF assms] sem_loc0 [OF assms] by blast

lemma sem_loc:
  assumes "stable_meaning V (sem om e)"
  shows "fst (sem om e m) = Loc x \<Longrightarrow> x \<in> V"
  using assms unfolding stable_meaning_def by blast

lemma sem_congr:
  assumes "stable_meaning V (sem om e)" "agree V m m2"
  shows "fst (sem om e m) = fst (sem om e m2) \<and> agree V (snd (sem om e m)) (snd (sem om e m2))"
  using assms unfolding stable_meaning_def by blast

lemma truthy_congr:
  assumes "stable_meaning V (sem om e)" "agree V m m2"
  shows "truthy (sem om e m) = truthy (sem om e m2)"
proof -
  from sem_congr [OF assms]
  have f: "fst (sem om e m) = fst (sem om e m2)"
    and a: "agree V (snd (sem om e m)) (snd (sem om e m2))" by simp_all
  have "read (fst (sem om e m)) (snd (sem om e m)) = read (fst (sem om e m2)) (snd (sem om e m2))"
    unfolding f [symmetric] by (rule read_agree [OF a sem_loc [OF assms(1)]])
  then show ?thesis by (simp add: truthy_def)
qed

lemma holds_val:
  assumes "holds V r p m'" "agree V m' A" "\<And>x. p = Loc x \<Longrightarrow> x \<in> V"
  shows "val m' r = read p A"
  using assms by (cases p) (auto simp: holds_def val_def agree_def)

lemma holds_later:
  assumes "holds V r p m1"
    and "vreg_const r \<or> vreg_id r \<in> V \<or> vreg_id r < n"
    and "\<forall>q<n. q \<notin> V \<longrightarrow> regs m2 q = regs m1 q"
  shows "holds V r p m2"
  using assms by (cases p) (auto simp: holds_def val_def)

lemma lowers_valueD:
  assumes "lowers_value V env g f" "g s = Some (r, s')" "wf_cg s" "V \<subseteq> {..<vreg_count s}"
  shows "grows s s'"
    and "vreg_const r \<or> vreg_id r \<in> V \<or> (vreg_count s \<le> vreg_id r \<and> vreg_id r < vreg_count s')"
    and "ext s' S \<Longrightarrow> \<exists>m'. reaches (bbs S) env (cur_end s, m) (cur_end s', m') \<and>
                 agree V m' (snd (f m)) \<and> holds V r (fst (f m)) m' \<and>
                 (\<forall>q<vreg_count s. q \<notin> V \<longrightarrow> regs m' q = regs m q)"
proof -
  from assms(1) have *: "g s = Some (r, s') \<and> wf_cg s \<and> V \<subseteq> {..<vreg_count s} \<longrightarrow>
        grows s s' \<and>
        (vreg_const r \<or> vreg_id r \<in> V \<or> (vreg_count s \<le> vreg_id r \<and> vreg_id r < vreg_count s')) \<and>
        (\<forall>S m. ext s' S \<longrightarrow>
           (\<exists>m'. reaches (bbs S) env (cur_end s, m) (cur_end s', m') \<and>
                 agree V m' (snd (f m)) \<and> holds V r (fst (f m)) m' \<and>
                 (\<forall>q<vreg_count s. q \<notin> V \<longrightarrow> regs m' q = regs m q)))"
    unfolding lowers_value_def by (elim allE)
  with assms(2-4) show "grows s s'"
    and "vreg_const r \<or> vreg_id r \<in> V \<or> (vreg_count s \<le> vreg_id r \<and> vreg_id r < vreg_count s')"
    by simp_all
  assume "ext s' S"
  with * assms(2-4) show "\<exists>m'. reaches (bbs S) env (cur_end s, m) (cur_end s', m') \<and>
                 agree V m' (snd (f m)) \<and> holds V r (fst (f m)) m' \<and>
                 (\<forall>q<vreg_count s. q \<notin> V \<longrightarrow> regs m' q = regs m q)"
    by simp
qed

lemma lowers_jumpD:
  assumes "lowers_jump V env g f" "g tf bb s = Some s'" "wf_cg s" "V \<subseteq> {..<vreg_count s}"
  shows "grows s s'"
    and "ext s' S \<Longrightarrow> \<exists>m'. reaches (bbs S) env (cur_end s, m)
                    (if truthy (f m) = tf then (bb, 0) else cur_end s', m') \<and>
                 agree V m' (snd (f m)) \<and>
                 (\<forall>q<vreg_count s. q \<notin> V \<longrightarrow> regs m' q = regs m q)"
proof -
  from assms(1) have *: "g tf bb s = Some s' \<and> wf_cg s \<and> V \<subseteq> {..<vreg_count s} \<longrightarrow>
        grows s s' \<and>
        (\<forall>S m. ext s' S \<longrightarrow>
           (\<exists>m'. reaches (bbs S) env (cur_end s, m)
                    (if truthy (f m) = tf then (bb, 0) else cur_end s', m') \<and>
                 agree V m' (snd (f m)) \<and>
                 (\<forall>q<vreg_count s. q \<notin> V \<longrightarrow> regs m' q = regs m q)))"
    unfolding lowers_jump_def by (elim allE)
  with assms(2-4) show "grows s s'" by simp
  assume "ext s' S"
  with * assms(2-4) show "\<exists>m'. reaches (bbs S) env (cur_end s, m)
                    (if truthy (f m) = tf then (bb, 0) else cur_end s', m') \<and>
                 agree V m' (snd (f m)) \<and>
                 (\<forall>q<vreg_count s. q \<notin> V \<longrightarrow> regs m' q = regs m q)"
    by simp
qed

lemmas ge_okD = lowers_valueD [OF ge_ok_def [THEN iffD1]]
lemmas cj_okD = lowers_jumpD [OF cj_ok_def [THEN iffD1]]

lemma seq2:
  assumes L: "cj_ok V env other om lhs" and R: "cj_ok V env other om rhs"
    and mo: "stable_meaning V (sem om rhs)"
    and sh: "shape s2 pre c (B1 # B2 # post)" and e1: "irs B1 = []" and e2: "irs B2 = []"
    and Vb: "V \<subseteq> {..<vreg_count s2}"
    and g1: "gen_cond_jmp other lhs tf1 t1 s2 = Some s3"
    and g2: "gen_cond_jmp other rhs tf2 t2 (set_curbb (label B1) s3) = Some s4"
  shows "\<exists>code f. shape (set_curbb (label B2) s4) (pre @ c\<lparr>irs := irs c @ code\<rparr> # f) B2 post"
    and "bb_count s2 \<le> bb_count s4" and "vreg_count s2 \<le> vreg_count s4"
    and "ext (set_curbb (label B2) s4) S \<Longrightarrow>
         \<exists>m'. reaches (bbs S) env ((label c, length (irs c)), m)
                 (if truthy (sem om lhs m) = tf1 then (t1, 0)
                  else if truthy (sem om rhs (snd (sem om lhs m))) = tf2 then (t2, 0)
                  else (label B2, 0), m') \<and>
               agree V m' (if truthy (sem om lhs m) = tf1 then snd (sem om lhs m)
                           else snd (sem om rhs (snd (sem om lhs m)))) \<and>
               (\<forall>q<vreg_count s2. q \<notin> V \<longrightarrow> regs m' q = regs m q)"
proof -
  have w2: "wf_cg s2" by (rule shape_wf [OF sh])
  note G1 = cj_okD(1) [OF L g1 w2 Vb]
  from grows_shapeD [OF G1 sh] obtain code region f l where
    a: "c\<lparr>irs := irs c @ code\<rparr> # region = f @ [l]" "shape s3 (pre @ f) l (B1 # B2 # post)"
    by blast
  define s3' where "s3' = set_curbb (label B1) s3"
  have "shape s3 (pre @ f) l ([] @ B1 # B2 # post)" using a(2) by simp
  from shape_set_curbb [OF this]
  have sh3': "shape s3' ((pre @ f) @ [l]) B1 (B2 # post)" by (simp add: s3'_def)
  have w3': "wf_cg s3'" by (rule shape_wf [OF sh3'])
  have c3: "bb_count s3' = bb_count s3" "vreg_count s3' = vreg_count s3" by (simp_all add: s3'_def)
  have Vb3: "V \<subseteq> {..<vreg_count s3'}" using Vb grows_counts(2) [OF G1] c3 by auto
  have g2': "gen_cond_jmp other rhs tf2 t2 s3' = Some s4" using g2 by (simp add: s3'_def)
  note G2 = cj_okD(1) [OF R g2' w3' Vb3]
  from grows_shapeD [OF G2 sh3'] obtain code2 region2 f2 l2 where
    b: "B1\<lparr>irs := irs B1 @ code2\<rparr> # region2 = f2 @ [l2]"
       "shape s4 (((pre @ f) @ [l]) @ f2) l2 (B2 # post)"
    by blast
  define s5 where "s5 = set_curbb (label B2) s4"
  have "shape s4 (((pre @ f) @ [l]) @ f2) l2 ([] @ B2 # post)" using b(2) by simp
  from shape_set_curbb [OF this]
  have sh5: "shape s5 ((((pre @ f) @ [l]) @ f2) @ [l2]) B2 post" by (simp add: s5_def)
  have "pre @ (c\<lparr>irs := irs c @ code\<rparr> # region) @ (B1\<lparr>irs := irs B1 @ code2\<rparr> # region2) =
        pre @ (f @ [l]) @ (f2 @ [l2])"
    by (simp only: a(1) b(1))
  then have "(((pre @ f) @ [l]) @ f2) @ [l2] =
        pre @ c\<lparr>irs := irs c @ code\<rparr> # (region @ B1\<lparr>irs := irs B1 @ code2\<rparr> # region2)"
    by simp
  with sh5 show "\<exists>code f. shape (set_curbb (label B2) s4) (pre @ c\<lparr>irs := irs c @ code\<rparr> # f) B2 post"
    unfolding s5_def by metis
  show "bb_count s2 \<le> bb_count s4" "vreg_count s2 \<le> vreg_count s4"
    using grows_counts [OF G1] grows_counts [OF G2] c3 by simp_all
  assume "ext (set_curbb (label B2) s4) S"
  then have E: "ext s5 S" by (simp add: s5_def)
  have "shape s4 (((pre @ f) @ [l]) @ f2) l2 ([] @ B2 # post)" using b(2) by simp
  from ext_set_curbb [OF this] have "ext s4 s5" by (simp add: s5_def)
  from ext_trans [OF this E] have E4: "ext s4 S" .
  from ext_trans [OF ext_grows [OF sh3' G2] E4] have E3': "ext s3' S" .
  have "shape s3 (pre @ f) l ([] @ B1 # B2 # post)" using a(2) by simp
  from ext_set_curbb [OF this] have "ext s3 s3'" by (simp add: s3'_def)
  from ext_trans [OF this E3'] have E3: "ext s3 S" .
  have ce2: "cur_end s2 = (label c, length (irs c))" by (rule shape_cur_end [OF sh])
  have ce3: "cur_end s3 = (label l, length (irs l))" by (rule shape_cur_end [OF a(2)])
  have ce3': "cur_end s3' = (label B1, 0)" using shape_cur_end [OF sh3'] e1 by simp
  have ce4: "cur_end s4 = (label l2, length (irs l2))" by (rule shape_cur_end [OF b(2)])
  let ?A = "sem om lhs m"
  from cj_okD(2) [OF L g1 w2 Vb E3, of m] obtain m1 where
    r1: "reaches (bbs S) env ((label c, length (irs c)), m)
           (if truthy ?A = tf1 then (t1, 0) else (label l, length (irs l)), m1)"
    and ag1: "agree V m1 (snd ?A)"
    and pr1: "\<forall>q<vreg_count s2. q \<notin> V \<longrightarrow> regs m1 q = regs m q"
    unfolding ce2 ce3 by blast
  show "\<exists>m'. reaches (bbs S) env ((label c, length (irs c)), m)
                 (if truthy (sem om lhs m) = tf1 then (t1, 0)
                  else if truthy (sem om rhs (snd (sem om lhs m))) = tf2 then (t2, 0)
                  else (label B2, 0), m') \<and>
               agree V m' (if truthy (sem om lhs m) = tf1 then snd (sem om lhs m)
                           else snd (sem om rhs (snd (sem om lhs m)))) \<and>
               (\<forall>q<vreg_count s2. q \<notin> V \<longrightarrow> regs m' q = regs m q)"
  proof (cases "truthy ?A = tf1")
    case True
    with r1 ag1 pr1 show ?thesis by auto
  next
    case False
    from r1 False have r1': "reaches (bbs S) env ((label c, length (irs c)), m)
        ((label l, length (irs l)), m1)" by simp
    note f1 = reaches_step [OF step_fall [OF E3' sh3', of env m1]]
    from cj_okD(2) [OF R g2' w3' Vb3 E4, of m1] obtain m2 where
      r2: "reaches (bbs S) env ((label B1, 0), m1)
             (if truthy (sem om rhs m1) = tf2 then (t2, 0) else (label l2, length (irs l2)), m2)"
      and ag2: "agree V m2 (snd (sem om rhs m1))"
      and pr2: "\<forall>q<vreg_count s3'. q \<notin> V \<longrightarrow> regs m2 q = regs m1 q"
      unfolding ce3' ce4 by blast
    have tr: "truthy (sem om rhs m1) = truthy (sem om rhs (snd ?A))"
      by (rule truthy_congr [OF mo ag1])
    have ag: "agree V m2 (snd (sem om rhs (snd ?A)))"
      using agree_trans [OF ag2] sem_congr [OF mo ag1] by blast
    have pr: "\<forall>q<vreg_count s2. q \<notin> V \<longrightarrow> regs m2 q = regs m q"
      using pr1 pr2 grows_counts(2) [OF G1] c3 by simp
    note r12 = reaches_trans [OF reaches_trans [OF r1' f1] r2]
    show ?thesis
    proof (cases "truthy (sem om rhs (snd ?A)) = tf2")
      case True
      with r12 ag pr False tr show ?thesis by auto
    next
      case F2: False
      note f2 = reaches_step [OF step_fall [OF E sh5, of env m2]]
      from r12 F2 tr have "reaches (bbs S) env ((label c, length (irs c)), m)
          ((label l2, length (irs l2)), m2)" by simp
      from reaches_trans [OF this f2] ag pr False F2 show ?thesis by auto
    qed
  qed
qed

section \<open>gen_cond_jmp of \<open>&&\<close> and \<open>||\<close>\<close>

lemma split_twice:
  assumes sh: "shape s pre c post"
    and d: "s1 = snd (bb_split (curbb s) s)" "s2 = snd (bb_split (bb_count s) s1)"
  shows "shape s2 pre c (\<lparr>label = bb_count s, irs = []\<rparr> # \<lparr>label = Suc (bb_count s), irs = []\<rparr> # post)"
    and "fst (bb_split (curbb s) s) = bb_count s"
    and "fst (bb_split (bb_count s) s1) = Suc (bb_count s)"
    and "bb_count s2 = Suc (Suc (bb_count s))" and "vreg_count s2 = vreg_count s"
    and "curbb s2 = curbb s"
proof -
  have lc: "label c = curbb s" using sh unfolding shape_def by simp
  have a: "shape s pre c ([] @ post)" "curbb s = label (last (c # []))" using sh lc by simp_all
  note A = shape_bb_split [OF a]
  have sh1: "shape s1 pre c ([\<lparr>label = bb_count s, irs = []\<rparr>] @ post)"
    using A(1) by (simp add: d)
  have l1: "bb_count s = label (last (c # [\<lparr>label = bb_count s, irs = []\<rparr>]))" by simp
  note B = shape_bb_split [OF sh1 l1]
  show "shape s2 pre c (\<lparr>label = bb_count s, irs = []\<rparr> # \<lparr>label = Suc (bb_count s), irs = []\<rparr> # post)"
    using B(1) A(3) by (simp add: d)
  show "fst (bb_split (curbb s) s) = bb_count s" by (rule A(2))
  show "fst (bb_split (bb_count s) s1) = Suc (bb_count s)" using B(2) A(3) by (simp add: d)
  show "bb_count s2 = Suc (Suc (bb_count s))" using B(3) A(3) by (simp add: d)
  show "vreg_count s2 = vreg_count s" using B(4) A(4) by (simp add: d)
  show "curbb s2 = curbb s" using B(5) A(5) by (simp add: d)
qed

lemma cj_seq:
  assumes L: "cj_ok V env other om lhs" and R: "cj_ok V env other om rhs" and mo: "stable_meaning V (sem om rhs)"
    and w: "wf_cg s" and Vb: "V \<subseteq> {..<vreg_count s}"
    and d: "s1 = snd (bb_split (curbb s) s)" "s2 = snd (bb_split (bb_count s) s1)"
    and g1: "gen_cond_jmp other lhs tf1 t1 s2 = Some s3"
    and g2: "gen_cond_jmp other rhs tf2 t2 (set_curbb (bb_count s) s3) = Some s4"
    and s': "s' = set_curbb (Suc (bb_count s)) s4"
  shows "grows s s'"
    and "cur_end s' = (Suc (bb_count s), 0)"
    and "ext s' S \<Longrightarrow>
         \<exists>m'. reaches (bbs S) env (cur_end s, m)
                 (if truthy (sem om lhs m) = tf1 then (t1, 0)
                  else if truthy (sem om rhs (snd (sem om lhs m))) = tf2 then (t2, 0)
                  else cur_end s', m') \<and>
               agree V m' (if truthy (sem om lhs m) = tf1 then snd (sem om lhs m)
                           else snd (sem om rhs (snd (sem om lhs m)))) \<and>
               (\<forall>q<vreg_count s. q \<notin> V \<longrightarrow> regs m' q = regs m q)"
proof -
  from wf_shape [OF w] obtain pre c post where sh: "shape s pre c post" by blast
  define B1 where "B1 = \<lparr>label = bb_count s, irs = []\<rparr>"
  define B2 where "B2 = \<lparr>label = Suc (bb_count s), irs = []\<rparr>"
  note T = split_twice [OF sh d]
  have sh2: "shape s2 pre c (B1 # B2 # post)" using T(1) by (simp add: B1_def B2_def)
  have e: "irs B1 = []" "irs B2 = []" "label B1 = bb_count s" "label B2 = Suc (bb_count s)"
    by (simp_all add: B1_def B2_def)
  have Vb2: "V \<subseteq> {..<vreg_count s2}" using Vb T(5) by simp
  have g2': "gen_cond_jmp other rhs tf2 t2 (set_curbb (label B1) s3) = Some s4" using g2 e by simp
  note Q = seq2 [OF L R mo sh2 e(1,2) Vb2 g1 g2']
  have s'': "s' = set_curbb (label B2) s4" using s' e by simp
  from Q(1) obtain code f where
    sh': "shape s' (pre @ c\<lparr>irs := irs c @ code\<rparr> # f) B2 post" unfolding s'' by blast
  have "shape s' (pre @ (c\<lparr>irs := irs c @ code\<rparr> # f)) B2 post" using sh' by simp
  moreover have "c\<lparr>irs := irs c @ code\<rparr> # (f @ [B2]) = (c\<lparr>irs := irs c @ code\<rparr> # f) @ [B2]"
    by simp
  moreover have "bb_count s \<le> bb_count s'" "vreg_count s \<le> vreg_count s'"
    using Q(2,3) T(4,5) by (simp_all add: s')
  ultimately show "grows s s'" using grows_shapeI [OF sh] by blast
  show ce': "cur_end s' = (Suc (bb_count s), 0)" using shape_cur_end [OF sh'] e by simp
  assume "ext s' S"
  then have "ext (set_curbb (label B2) s4) S" by (simp add: s'')
  from Q(4) [OF this, of m] show "\<exists>m'. reaches (bbs S) env (cur_end s, m)
                 (if truthy (sem om lhs m) = tf1 then (t1, 0)
                  else if truthy (sem om rhs (snd (sem om lhs m))) = tf2 then (t2, 0)
                  else cur_end s', m') \<and>
               agree V m' (if truthy (sem om lhs m) = tf1 then snd (sem om lhs m)
                           else snd (sem om rhs (snd (sem om lhs m)))) \<and>
               (\<forall>q<vreg_count s. q \<notin> V \<longrightarrow> regs m' q = regs m q)"
    unfolding shape_cur_end [OF sh] ce' T(5) e by simp
qed

lemma cj_logand_elim:
  assumes "gen_cond_jmp other (EX_LOGAND t lhs rhs) tf bb s = Some s'"
  shows "\<exists>s3 s4. gen_cond_jmp other lhs False
               (if tf then fst (bb_split (fst (bb_split (curbb s) s)) (snd (bb_split (curbb s) s))) else bb)
               (snd (bb_split (fst (bb_split (curbb s) s)) (snd (bb_split (curbb s) s)))) = Some s3 \<and>
          gen_cond_jmp other rhs tf bb (set_curbb (fst (bb_split (curbb s) s)) s3) = Some s4 \<and>
          s' = set_curbb (fst (bb_split (fst (bb_split (curbb s) s)) (snd (bb_split (curbb s) s)))) s4"
  using assms by (auto simp: case_prod_beta split: option.splits if_splits)

lemma cj_logior_elim:
  assumes "gen_cond_jmp other (EX_LOGIOR t lhs rhs) tf bb s = Some s'"
  shows "\<exists>s3 s4. gen_cond_jmp other lhs True
               (if tf then bb else fst (bb_split (fst (bb_split (curbb s) s)) (snd (bb_split (curbb s) s))))
               (snd (bb_split (fst (bb_split (curbb s) s)) (snd (bb_split (curbb s) s)))) = Some s3 \<and>
          gen_cond_jmp other rhs tf bb (set_curbb (fst (bb_split (curbb s) s)) s3) = Some s4 \<and>
          s' = set_curbb (fst (bb_split (fst (bb_split (curbb s) s)) (snd (bb_split (curbb s) s)))) s4"
  using assms by (auto simp: case_prod_beta split: option.splits if_splits)

lemma cj_logand:
  assumes L: "cj_ok V env other om lhs" and R: "cj_ok V env other om rhs" and mo: "stable_meaning V (sem om rhs)"
  shows "cj_ok V env other om (EX_LOGAND t lhs rhs)"
  unfolding cj_ok_def lowers_jump_def
proof (intro allI impI, elim conjE)
  fix tf bb s s'
  assume g: "gen_cond_jmp other (EX_LOGAND t lhs rhs) tf bb s = Some s'" and w: "wf_cg s"
    and Vb: "V \<subseteq> {..<vreg_count s}"
  from wf_shape [OF w] obtain pre c post where sh: "shape s pre c post" by blast
  define s1 where "s1 = snd (bb_split (curbb s) s)"
  define s2 where "s2 = snd (bb_split (bb_count s) s1)"
  note T = split_twice [OF sh s1_def s2_def]
  from cj_logand_elim [OF g] obtain s3 s4 where
    g1: "gen_cond_jmp other lhs False (if tf then Suc (bb_count s) else bb) s2 = Some s3"
    and g2: "gen_cond_jmp other rhs tf bb (set_curbb (bb_count s) s3) = Some s4"
    and s': "s' = set_curbb (Suc (bb_count s)) s4"
    unfolding T(2) s1_def [symmetric] T(3) s2_def [symmetric] by blast
  note Q = cj_seq [OF L R mo w Vb s1_def s2_def g1 g2 s']
  show "grows s s' \<and>
       (\<forall>S m. ext s' S \<longrightarrow>
           (\<exists>m'. reaches (bbs S) env (cur_end s, m)
                  (if truthy (sem om (EX_LOGAND t lhs rhs) m) = tf then (bb, 0) else cur_end s', m') \<and>
                 agree V m' (snd (sem om (EX_LOGAND t lhs rhs) m)) \<and>
                 (\<forall>q<vreg_count s. q \<notin> V \<longrightarrow> regs m' q = regs m q)))"
  proof (intro conjI allI impI)
    show "grows s s'" by (rule Q(1))
    fix S m
    assume "ext s' S"
    from Q(3) [OF this, of m] obtain m' where
      r: "reaches (bbs S) env (cur_end s, m)
                 (if truthy (sem om lhs m) = False then (if tf then Suc (bb_count s) else bb, 0)
                  else if truthy (sem om rhs (snd (sem om lhs m))) = tf then (bb, 0)
                  else cur_end s', m')"
      and ag: "agree V m' (if truthy (sem om lhs m) = False then snd (sem om lhs m)
                           else snd (sem om rhs (snd (sem om lhs m))))"
      and pr: "\<forall>q<vreg_count s. q \<notin> V \<longrightarrow> regs m' q = regs m q"
      by blast
    have "reaches (bbs S) env (cur_end s, m)
            (if truthy (sem om (EX_LOGAND t lhs rhs) m) = tf then (bb, 0) else cur_end s', m')"
      using r Q(2) by (auto simp: truthy_def case_prod_beta split: if_splits)
    moreover have "agree V m' (snd (sem om (EX_LOGAND t lhs rhs) m))"
      using ag by (auto simp: truthy_def case_prod_beta split: if_splits)
    ultimately show "\<exists>m'. reaches (bbs S) env (cur_end s, m)
                  (if truthy (sem om (EX_LOGAND t lhs rhs) m) = tf then (bb, 0) else cur_end s', m') \<and>
                 agree V m' (snd (sem om (EX_LOGAND t lhs rhs) m)) \<and>
                 (\<forall>q<vreg_count s. q \<notin> V \<longrightarrow> regs m' q = regs m q)"
      using pr by blast
  qed
qed

lemma cj_logior:
  assumes L: "cj_ok V env other om lhs" and R: "cj_ok V env other om rhs" and mo: "stable_meaning V (sem om rhs)"
  shows "cj_ok V env other om (EX_LOGIOR t lhs rhs)"
  unfolding cj_ok_def lowers_jump_def
proof (intro allI impI, elim conjE)
  fix tf bb s s'
  assume g: "gen_cond_jmp other (EX_LOGIOR t lhs rhs) tf bb s = Some s'" and w: "wf_cg s"
    and Vb: "V \<subseteq> {..<vreg_count s}"
  from wf_shape [OF w] obtain pre c post where sh: "shape s pre c post" by blast
  define s1 where "s1 = snd (bb_split (curbb s) s)"
  define s2 where "s2 = snd (bb_split (bb_count s) s1)"
  note T = split_twice [OF sh s1_def s2_def]
  from cj_logior_elim [OF g] obtain s3 s4 where
    g1: "gen_cond_jmp other lhs True (if tf then bb else Suc (bb_count s)) s2 = Some s3"
    and g2: "gen_cond_jmp other rhs tf bb (set_curbb (bb_count s) s3) = Some s4"
    and s': "s' = set_curbb (Suc (bb_count s)) s4"
    unfolding T(2) s1_def [symmetric] T(3) s2_def [symmetric] by blast
  note Q = cj_seq [OF L R mo w Vb s1_def s2_def g1 g2 s']
  show "grows s s' \<and>
       (\<forall>S m. ext s' S \<longrightarrow>
           (\<exists>m'. reaches (bbs S) env (cur_end s, m)
                  (if truthy (sem om (EX_LOGIOR t lhs rhs) m) = tf then (bb, 0) else cur_end s', m') \<and>
                 agree V m' (snd (sem om (EX_LOGIOR t lhs rhs) m)) \<and>
                 (\<forall>q<vreg_count s. q \<notin> V \<longrightarrow> regs m' q = regs m q)))"
  proof (intro conjI allI impI)
    show "grows s s'" by (rule Q(1))
    fix S m
    assume "ext s' S"
    from Q(3) [OF this, of m] obtain m' where
      r: "reaches (bbs S) env (cur_end s, m)
                 (if truthy (sem om lhs m) = True then (if tf then bb else Suc (bb_count s), 0)
                  else if truthy (sem om rhs (snd (sem om lhs m))) = tf then (bb, 0)
                  else cur_end s', m')"
      and ag: "agree V m' (if truthy (sem om lhs m) = True then snd (sem om lhs m)
                           else snd (sem om rhs (snd (sem om lhs m))))"
      and pr: "\<forall>q<vreg_count s. q \<notin> V \<longrightarrow> regs m' q = regs m q"
      by blast
    have "reaches (bbs S) env (cur_end s, m)
            (if truthy (sem om (EX_LOGIOR t lhs rhs) m) = tf then (bb, 0) else cur_end s', m')"
      using r Q(2) by (auto simp: truthy_def case_prod_beta split: if_splits)
    moreover have "agree V m' (snd (sem om (EX_LOGIOR t lhs rhs) m))"
      using ag by (auto simp: truthy_def case_prod_beta split: if_splits)
    ultimately show "\<exists>m'. reaches (bbs S) env (cur_end s, m)
                  (if truthy (sem om (EX_LOGIOR t lhs rhs) m) = tf then (bb, 0) else cur_end s', m') \<and>
                 agree V m' (snd (sem om (EX_LOGIOR t lhs rhs) m)) \<and>
                 (\<forall>q<vreg_count s. q \<notin> V \<longrightarrow> regs m' q = regs m q)"
      using pr by blast
  qed
qed

section \<open>The value of \<open>&&\<close> and \<open>||\<close>\<close>

lemma split_four:
  assumes sh: "shape s pre c post"
    and d: "s1 = snd (bb_split (curbb s) s)" "s2 = snd (bb_split (bb_count s) s1)"
      "s3 = snd (bb_split (Suc (bb_count s)) s2)" "s4 = snd (bb_split (Suc (Suc (bb_count s))) s3)"
  shows "shape s4 pre c (\<lparr>label = bb_count s, irs = []\<rparr> # \<lparr>label = Suc (bb_count s), irs = []\<rparr> #
           \<lparr>label = Suc (Suc (bb_count s)), irs = []\<rparr> #
           \<lparr>label = Suc (Suc (Suc (bb_count s))), irs = []\<rparr> # post)"
    and "fst (bb_split (Suc (bb_count s)) s2) = Suc (Suc (bb_count s))"
    and "fst (bb_split (Suc (Suc (bb_count s))) s3) = Suc (Suc (Suc (bb_count s)))"
    and "bb_count s4 = Suc (Suc (Suc (Suc (bb_count s))))" and "vreg_count s4 = vreg_count s"
proof -
  note T = split_twice [OF sh d(1,2)]
  have sh2: "shape s2 pre c ([\<lparr>label = bb_count s, irs = []\<rparr>, \<lparr>label = Suc (bb_count s), irs = []\<rparr>] @ post)"
    using T(1) by simp
  have l2: "Suc (bb_count s) =
      label (last (c # [\<lparr>label = bb_count s, irs = []\<rparr>, \<lparr>label = Suc (bb_count s), irs = []\<rparr>]))"
    by simp
  note A = shape_bb_split [OF sh2 l2]
  have sh3: "shape s3 pre c ([\<lparr>label = bb_count s, irs = []\<rparr>, \<lparr>label = Suc (bb_count s), irs = []\<rparr>,
       \<lparr>label = Suc (Suc (bb_count s)), irs = []\<rparr>] @ post)"
    using A(1) T(4) by (simp add: d)
  have l3: "Suc (Suc (bb_count s)) =
      label (last (c # [\<lparr>label = bb_count s, irs = []\<rparr>, \<lparr>label = Suc (bb_count s), irs = []\<rparr>,
       \<lparr>label = Suc (Suc (bb_count s)), irs = []\<rparr>]))"
    by simp
  note B = shape_bb_split [OF sh3 l3]
  have b3: "bb_count s3 = Suc (Suc (Suc (bb_count s)))" using A(3) T(4) by (simp add: d)
  show "shape s4 pre c (\<lparr>label = bb_count s, irs = []\<rparr> # \<lparr>label = Suc (bb_count s), irs = []\<rparr> #
           \<lparr>label = Suc (Suc (bb_count s)), irs = []\<rparr> #
           \<lparr>label = Suc (Suc (Suc (bb_count s))), irs = []\<rparr> # post)"
    using B(1) b3 by (simp add: d)
  show "fst (bb_split (Suc (bb_count s)) s2) = Suc (Suc (bb_count s))" using A(2) T(4) by simp
  show "fst (bb_split (Suc (Suc (bb_count s))) s3) = Suc (Suc (Suc (bb_count s)))"
    using B(2) b3 by simp
  show "bb_count s4 = Suc (Suc (Suc (Suc (bb_count s))))" using B(3) b3 by (simp add: d)
  show "vreg_count s4 = vreg_count s" using B(4) A(4) T(5) by (simp add: d)
qed

lemma add_new_reg_simps [simp]:
  "fst (add_new_reg t s) = \<lparr>vreg_id = vreg_count s, vreg_const = False, vreg_fixnum = 0, vtype = to_vtype t\<rparr>"
  "snd (add_new_reg t s) = s\<lparr>vreg_count := Suc (vreg_count s)\<rparr>"
  by (simp_all add: add_new_reg_def reg_alloc_spawn_vt_def)

lemma new_const_vreg_simps [simp]:
  "fst (new_const_vreg v vt s) = \<lparr>vreg_id = vreg_count s, vreg_const = True, vreg_fixnum = v, vtype = vt\<rparr>"
  "snd (new_const_vreg v vt s) = s\<lparr>vreg_count := Suc (vreg_count s)\<rparr>"
  by (simp_all add: new_const_vreg_def)

lemma ge_seq:
  assumes L: "cj_ok V env other om lhs" and R: "cj_ok V env other om rhs" and mo: "stable_meaning V (sem om rhs)"
    and sh: "shape s pre c post" and Vb: "V \<subseteq> {..<vreg_count s}"
    and d: "s1 = snd (bb_split (curbb s) s)" "s2 = snd (bb_split (bb_count s) s1)"
      "s3 = snd (bb_split (Suc (bb_count s)) s2)" "s4 = snd (bb_split (Suc (Suc (bb_count s))) s3)"
    and g1: "gen_cond_jmp other lhs tfv (Suc (Suc (bb_count s))) s4 = Some s5"
    and g2: "gen_cond_jmp other rhs tfv (Suc (Suc (bb_count s))) (set_curbb (bb_count s) s5) = Some s6"
    and r: "result = fst (add_new_reg tyBool (set_curbb (Suc (bb_count s)) s6))"
    and s7: "s7 = snd (add_new_reg tyBool (set_curbb (Suc (bb_count s)) s6))"
    and one: "one = fst (new_const_vreg k1 (to_vtype tyBool) s7)"
    and s8: "s8 = snd (new_const_vreg k1 (to_vtype tyBool) s7)"
    and sC: "sC = set_curbb (Suc (Suc (bb_count s)))
                    (new_ir_jmp COND_ANY (Suc (Suc (Suc (bb_count s)))) (new_ir_mov_cg result one s8))"
    and zero: "zero = fst (new_const_vreg k0 (to_vtype tyBool) sC)"
    and s9: "s9 = snd (new_const_vreg k0 (to_vtype tyBool) sC)"
    and s': "s' = set_curbb (Suc (Suc (Suc (bb_count s)))) (new_ir_mov_cg result zero s9)"
  shows "\<exists>code f. shape s' (pre @ c\<lparr>irs := irs c @ code\<rparr> # f @
             [\<lparr>label = Suc (bb_count s),
                irs = [Ir_mov result one, Ir_jmp COND_ANY (Suc (Suc (Suc (bb_count s))))]\<rparr>,
              \<lparr>label = Suc (Suc (bb_count s)), irs = [Ir_mov result zero]\<rparr>])
             \<lparr>label = Suc (Suc (Suc (bb_count s))), irs = []\<rparr> post"
    and "vreg_id result = vreg_count s6" and "vreg_count s \<le> vreg_count s6"
    and "vreg_count s' = Suc (Suc (Suc (vreg_count s6)))"
    and "bb_count s \<le> bb_count s'"
    and "ext s' S \<Longrightarrow>
         \<exists>m'. reaches (bbs S) env (cur_end s, m) (cur_end s', m') \<and>
               regs m' (vreg_id result) =
                 (if truthy (sem om lhs m) = tfv \<or> truthy (sem om rhs (snd (sem om lhs m))) = tfv
                  then k0 else k1) \<and>
               agree V m' (if truthy (sem om lhs m) = tfv then snd (sem om lhs m)
                           else snd (sem om rhs (snd (sem om lhs m)))) \<and>
               (\<forall>q<vreg_count s. q \<notin> V \<longrightarrow> regs m' q = regs m q)"
proof -
  define B1 where "B1 = \<lparr>label = bb_count s, irs = []\<rparr>"
  define B2 where "B2 = \<lparr>label = Suc (bb_count s), irs = []\<rparr>"
  define B3 where "B3 = \<lparr>label = Suc (Suc (bb_count s)), irs = []\<rparr>"
  define B4 where "B4 = \<lparr>label = Suc (Suc (Suc (bb_count s))), irs = []\<rparr>"
  define B2' where "B2' = \<lparr>label = Suc (bb_count s),
                irs = [Ir_mov result one, Ir_jmp COND_ANY (Suc (Suc (Suc (bb_count s))))]\<rparr>"
  define B3' where "B3' = \<lparr>label = Suc (Suc (bb_count s)), irs = [Ir_mov result zero]\<rparr>"
  note T = split_four [OF sh d]
  have sh4: "shape s4 pre c (B1 # B2 # B3 # B4 # post)"
    using T(1) by (simp add: B1_def B2_def B3_def B4_def)
  have e: "irs B1 = []" "irs B2 = []" "label B1 = bb_count s" "label B2 = Suc (bb_count s)"
    "label B3 = Suc (Suc (bb_count s))" "label B4 = Suc (Suc (Suc (bb_count s)))"
    "irs B3 = []" "irs B4 = []"
    by (simp_all add: B1_def B2_def B3_def B4_def)
  have g2': "gen_cond_jmp other rhs tfv (Suc (Suc (bb_count s))) (set_curbb (label B1) s5) = Some s6"
    using g2 e by simp
  have Vb4: "V \<subseteq> {..<vreg_count s4}" using Vb T(5) by simp
  note Q = seq2 [OF L R mo sh4 e(1,2) Vb4 g1 g2']
  define sA where "sA = set_curbb (label B2) s6"
  from Q(1) obtain code f where
    shA: "shape sA (pre @ c\<lparr>irs := irs c @ code\<rparr> # f) B2 (B3 # B4 # post)"
    unfolding sA_def by blast
  define P where "P = pre @ c\<lparr>irs := irs c @ code\<rparr> # f"
  have shA': "shape sA P B2 (B3 # B4 # post)" using shA by (simp add: P_def)
  have s7': "s7 = sA\<lparr>vreg_count := Suc (vreg_count s6)\<rparr>" using s7 e by (simp add: sA_def)
  have rid: "result = \<lparr>vreg_id = vreg_count s6, vreg_const = False, vreg_fixnum = 0,
                       vtype = to_vtype tyBool\<rparr>"
    using r by simp
  have s8': "s8 = sA\<lparr>vreg_count := Suc (Suc (vreg_count s6))\<rparr>" using s8 s7' by simp
  have oid: "one = \<lparr>vreg_id = Suc (vreg_count s6), vreg_const = True, vreg_fixnum = k1,
                    vtype = to_vtype tyBool\<rparr>"
    using one s7' by simp
  have sh8: "shape s8 P B2 (B3 # B4 # post)" using shA' by (simp add: s8')
  define sB where "sB = new_ir_jmp COND_ANY (Suc (Suc (Suc (bb_count s)))) (new_ir_mov_cg result one s8)"
  have "shape sB P ((B2\<lparr>irs := irs B2 @ [Ir_mov result one]\<rparr>)\<lparr>irs :=
          irs (B2\<lparr>irs := irs B2 @ [Ir_mov result one]\<rparr>) @ [Ir_jmp COND_ANY (Suc (Suc (Suc (bb_count s))))]\<rparr>)
          (B3 # B4 # post)"
    unfolding sB_def new_ir_jmp_def new_ir_mov_cg_def
    by (rule shape_new_ir [OF shape_new_ir [OF sh8]])
  then have shB: "shape sB P B2' ([] @ B3 # B4 # post)" by (simp add: B2_def B2'_def)
  have cB: "vreg_count sB = Suc (Suc (vreg_count s6))" "bb_count sB = bb_count s6"
    by (simp_all add: sB_def new_ir_jmp_def new_ir_mov_cg_def s8' sA_def)
  have sC': "sC = set_curbb (label B3) sB" using sC e by (simp add: sB_def)
  have shC: "shape sC (P @ [B2']) B3 (B4 # post)"
    using shape_set_curbb [OF shB] by (simp add: sC')
  have cC: "vreg_count sC = Suc (Suc (vreg_count s6))" "bb_count sC = bb_count s6"
    using cB by (simp_all add: sC')
  have s9': "s9 = sC\<lparr>vreg_count := Suc (Suc (Suc (vreg_count s6)))\<rparr>" using s9 cC by simp
  have sh9: "shape s9 (P @ [B2']) B3 (B4 # post)" using shC by (simp add: s9')
  define sE where "sE = new_ir_mov_cg result zero s9"
  have "shape sE (P @ [B2']) (B3\<lparr>irs := irs B3 @ [Ir_mov result zero]\<rparr>) (B4 # post)"
    unfolding sE_def new_ir_mov_cg_def by (rule shape_new_ir [OF sh9])
  then have shE: "shape sE (P @ [B2']) B3' ([] @ B4 # post)" by (simp add: B3_def B3'_def)
  have s'': "s' = set_curbb (label B4) sE" using s' e by (simp add: sE_def)
  have sh': "shape s' ((P @ [B2']) @ [B3']) B4 post"
    using shape_set_curbb [OF shE] by (simp add: s'')
  then have "shape s' (pre @ c\<lparr>irs := irs c @ code\<rparr> # f @ [B2', B3']) B4 post"
    by (simp add: P_def)
  then show "\<exists>code f. shape s' (pre @ c\<lparr>irs := irs c @ code\<rparr> # f @
             [\<lparr>label = Suc (bb_count s),
                irs = [Ir_mov result one, Ir_jmp COND_ANY (Suc (Suc (Suc (bb_count s))))]\<rparr>,
              \<lparr>label = Suc (Suc (bb_count s)), irs = [Ir_mov result zero]\<rparr>])
             \<lparr>label = Suc (Suc (Suc (bb_count s))), irs = []\<rparr> post"
    unfolding B2'_def B3'_def B4_def by blast
  show "vreg_id result = vreg_count s6" using rid by simp
  show v6: "vreg_count s \<le> vreg_count s6" using Q(3) T(5) by simp
  show "vreg_count s' = Suc (Suc (Suc (vreg_count s6)))"
    by (simp add: s'' sE_def new_ir_mov_cg_def s9')
  show "bb_count s \<le> bb_count s'"
    using Q(2) T(4) cC by (simp add: s'' sE_def new_ir_mov_cg_def s9')
  assume E: "ext s' S"
  have "(P @ [B2']) @ [B3'] = P @ B2' # [B3']" by simp
  have x: "((P @ [B2']) @ [B3']) @ [B4] = P @ B2' # [B3', B4]" by simp
  have "ext sA s'"
    by (rule ext_from [OF shA' sh' x, of "irs B2'"]) (simp_all add: B2_def B2'_def)
  from ext_trans [OF this E] have EA: "ext sA S" .
  from Q(4) [OF EA [unfolded sA_def], of m] obtain m1 where
    r1: "reaches (bbs S) env ((label c, length (irs c)), m)
                 (if truthy (sem om lhs m) = tfv then (Suc (Suc (bb_count s)), 0)
                  else if truthy (sem om rhs (snd (sem om lhs m))) = tfv then (Suc (Suc (bb_count s)), 0)
                  else (label B2, 0), m1)"
    and ev1: "agree V m1 (if truthy (sem om lhs m) = tfv then snd (sem om lhs m)
                           else snd (sem om rhs (snd (sem om lhs m))))"
    and pr1: "\<forall>q<vreg_count s4. q \<notin> V \<longrightarrow> regs m1 q = regs m q"
    by blast
  have nV: "vreg_id result \<notin> V" using Vb v6 rid by auto
  have ce: "cur_end s = (label c, length (irs c))" by (rule shape_cur_end [OF sh])
  have ce': "cur_end s' = (Suc (Suc (Suc (bb_count s))), 0)"
    using shape_cur_end [OF sh'] e by simp
  have shX: "shape s' (P @ B2' # [B3']) B4 post" using sh' by simp
  have shY: "shape s' ((P @ [B2']) @ B3' # []) B4 post" using sh' by simp
  have i2: "irs B2' = [Ir_mov result one, Ir_jmp COND_ANY (Suc (Suc (Suc (bb_count s))))]"
    "label B2' = Suc (bb_count s)" "irs B3' = [Ir_mov result zero]"
    "label B3' = Suc (Suc (bb_count s))"
    by (simp_all add: B2'_def B3'_def)
  show "\<exists>m'. reaches (bbs S) env (cur_end s, m) (cur_end s', m') \<and>
               regs m' (vreg_id result) =
                 (if truthy (sem om lhs m) = tfv \<or> truthy (sem om rhs (snd (sem om lhs m))) = tfv
                  then k0 else k1) \<and>
               agree V m' (if truthy (sem om lhs m) = tfv then snd (sem om lhs m)
                           else snd (sem om rhs (snd (sem om lhs m)))) \<and>
               (\<forall>q<vreg_count s. q \<notin> V \<longrightarrow> regs m' q = regs m q)"
  proof (cases "truthy (sem om lhs m) = tfv \<or> truthy (sem om rhs (snd (sem om lhs m))) = tfv")
    case True
    with r1 have a: "reaches (bbs S) env (cur_end s, m) ((label B3', 0), m1)"
      unfolding ce i2 by (auto split: if_splits)
    define m2 where "m2 = m1\<lparr>regs := (regs m1)(vreg_id result := k0)\<rparr>"
    have "step (bbs S) env ((label B3', 0), m1) = Some ((label B3', length (irs B3')), m2)"
      using step_pre [OF E shY, of 0 env m1]
      by (simp add: i2 exec_ir_def val_def zero m2_def)
    note b = reaches_step [OF this]
    note f = reaches_step [OF step_fall [OF E sh', of env m2]]
    have "reaches (bbs S) env (cur_end s, m) (cur_end s', m2)"
      using reaches_trans [OF reaches_trans [OF a b] f] unfolding ce' e .
    moreover have "regs m2 (vreg_id result) = k0" by (simp add: m2_def)
    moreover have "agree V m2 X = agree V m1 X" for X using nV by (simp add: m2_def)
    moreover have "\<forall>q<vreg_count s. q \<notin> V \<longrightarrow> regs m2 q = regs m q"
      using pr1 v6 T(5) rid by (simp add: m2_def)
    ultimately show ?thesis using True ev1 by auto
  next
    case False
    with r1 have a: "reaches (bbs S) env (cur_end s, m) ((label B2', 0), m1)"
      unfolding ce i2 e by (auto split: if_splits)
    define m2 where "m2 = m1\<lparr>regs := (regs m1)(vreg_id result := k1)\<rparr>"
    have "step (bbs S) env ((label B2', 0), m1) = Some ((label B2', Suc 0), m2)"
      using step_pre [OF E shX, of 0 env m1]
      by (simp add: i2 exec_ir_def val_def oid m2_def)
    note b = reaches_step [OF this]
    have "step (bbs S) env ((label B2', Suc 0), m2) = Some ((Suc (Suc (Suc (bb_count s))), 0), m2)"
      using step_pre [OF E shX, of "Suc 0" env m2]
      by (simp add: i2 exec_ir_def cond_taken_def)
    note f = reaches_step [OF this]
    have "reaches (bbs S) env (cur_end s, m) (cur_end s', m2)"
      using reaches_trans [OF reaches_trans [OF a b] f] unfolding ce' .
    moreover have "regs m2 (vreg_id result) = k1" by (simp add: m2_def)
    moreover have "agree V m2 X = agree V m1 X" for X using nV by (simp add: m2_def)
    moreover have "\<forall>q<vreg_count s. q \<notin> V \<longrightarrow> regs m2 q = regs m q"
      using pr1 v6 T(5) rid by (simp add: m2_def)
    ultimately show ?thesis using False ev1 by auto
  qed
qed

section \<open>Literals, groups and negation\<close>

lemma wf_cg_vreg_count [simp]: "wf_cg (s\<lparr>vreg_count := n\<rparr>) = wf_cg s"
  by (simp add: wf_cg_def)

lemma cond_taken_simps:
  "cond_taken COND_ANY f = True"
  "cond_taken COND_EQ (x, y) = (x = y)"
  "cond_taken COND_NE (x, y) = (x \<noteq> y)"
  by (simp_all add: cond_taken_def cond_defs)

lemma cond_taken_negations:
  "cond_taken COND_NE f = (\<not> cond_taken COND_EQ f)"
  "cond_taken COND_GE f = (\<not> cond_taken COND_LT f)"
  "cond_taken COND_LE f = (\<not> cond_taken COND_GT f)"
  "cond_taken COND_UGE f = (\<not> cond_taken COND_ULT f)"
  "cond_taken COND_ULE f = (\<not> cond_taken COND_UGT f)"
  by (cases f; simp add: cond_taken_def cond_defs; auto)+

lemma ge_fixnum: "ge_ok V env other om (EX_FIXNUM t v)"
  unfolding ge_ok_def lowers_value_def
proof (intro allI impI, elim conjE)
  fix s r s'
  assume g: "gen_expr other (EX_FIXNUM t v) s = Some (r, s')" and w: "wf_cg s"
  from g have r: "r = \<lparr>vreg_id = vreg_count s, vreg_const = True, vreg_fixnum = v, vtype = to_vtype t\<rparr>"
    and s': "s' = s\<lparr>vreg_count := Suc (vreg_count s)\<rparr>"
    by (simp_all add: new_const_vreg_def split: if_splits)
  have G: "grows s s'" unfolding s' by (rule grows_vreg_count [OF w]) simp
  show "grows s s' \<and>
        (vreg_const r \<or> vreg_id r \<in> V \<or> (vreg_count s \<le> vreg_id r \<and> vreg_id r < vreg_count s')) \<and>
        (\<forall>S m. ext s' S \<longrightarrow>
           (\<exists>m'. reaches (bbs S) env (cur_end s, m) (cur_end s', m') \<and>
                 agree V m' (snd (sem om (EX_FIXNUM t v) m)) \<and>
                 holds V r (fst (sem om (EX_FIXNUM t v) m)) m' \<and>
                 (\<forall>q<vreg_count s. q \<notin> V \<longrightarrow> regs m' q = regs m q)))"
  proof (intro conjI allI impI)
    show "grows s s'" by (rule G)
    show "vreg_const r \<or> vreg_id r \<in> V \<or> (vreg_count s \<le> vreg_id r \<and> vreg_id r < vreg_count s')"
      by (simp add: r)
    fix S m
    show "\<exists>m'. reaches (bbs S) env (cur_end s, m) (cur_end s', m') \<and>
                 agree V m' (snd (sem om (EX_FIXNUM t v) m)) \<and>
                 holds V r (fst (sem om (EX_FIXNUM t v) m)) m' \<and>
                 (\<forall>q<vreg_count s. q \<notin> V \<longrightarrow> regs m' q = regs m q)"
      by (rule exI [of _ m]) (simp add: s' r val_def holds_def reaches.here)
  qed
qed

lemma cj_fixnum: "cj_ok V env other om (EX_FIXNUM t v)"
  unfolding cj_ok_def lowers_jump_def
proof (intro allI impI, elim conjE)
  fix tf bb s s'
  assume g: "gen_cond_jmp other (EX_FIXNUM t v) tf bb s = Some s'" and w: "wf_cg s"
  from wf_shape [OF w] obtain pre c post where sh: "shape s pre c post" by blast
  note ce = shape_cur_end [OF sh]
  show "grows s s' \<and>
        (\<forall>S m. ext s' S \<longrightarrow>
           (\<exists>m'. reaches (bbs S) env (cur_end s, m)
                    (if truthy (sem om (EX_FIXNUM t v) m) = tf then (bb, 0) else cur_end s', m') \<and>
                 agree V m' (snd (sem om (EX_FIXNUM t v) m)) \<and>
                 (\<forall>q<vreg_count s. q \<notin> V \<longrightarrow> regs m' q = regs m q)))"
  proof (cases "(v \<noteq> 0) = tf")
    case True
    with g have s': "s' = new_ir (Ir_jmp COND_ANY bb) s"
      by (auto simp: Let_def new_ir_jmp_def split: if_splits)
    have "\<exists>m'. reaches (bbs S) env (cur_end s, m) ((bb, 0), m') \<and>
                 agree V m' m \<and> (\<forall>q<vreg_count s. q \<notin> V \<longrightarrow> regs m' q = regs m q)"
      if "ext s' S" for S m
    proof -
      from that have "ext (new_ir (Ir_jmp COND_ANY bb) s) S" by (simp add: s')
      from step_new_ir [OF sh this, of env m]
      have "step (bbs S) env (cur_end s, m) = Some ((bb, 0), m)"
        by (simp add: ce exec_ir_def cond_taken_simps)
      from reaches_step [OF this] show ?thesis by (intro exI [of _ m]) simp
    qed
    with True show ?thesis unfolding s' by (auto simp: grows_new_ir [OF w] truthy_def)
  next
    case False
    with g have s': "s' = s" by (auto simp: Let_def split: if_splits)
    have "\<exists>m'. reaches (bbs S) env (cur_end s, m) (cur_end s, m') \<and>
                 agree V m' m \<and> (\<forall>q<vreg_count s. q \<notin> V \<longrightarrow> regs m' q = regs m q)" for S m
      by (intro exI [of _ m]) (simp add: reaches.here)
    with False show ?thesis unfolding s' by (auto simp: grows_refl [OF w] truthy_def)
  qed
qed

lemma ge_group: "ge_ok V env other om e \<Longrightarrow> ge_ok V env other om (EX_GROUP t e)"
  unfolding ge_ok_def lowers_value_def by (simp only: gen_expr.simps sem.simps)

lemma cj_group: "cj_ok V env other om e \<Longrightarrow> cj_ok V env other om (EX_GROUP t e)"
  unfolding cj_ok_def lowers_jump_def by (simp only: gen_cond_jmp.simps sem.simps)

lemma truthy_not: "truthy (sem om (EX_NOT t e) m) = (\<not> truthy (sem om e m))"
  by (simp add: truthy_def case_prod_beta)

lemma snd_sem_not: "snd (sem om (EX_NOT t e) m) = snd (sem om e m)"
  by (simp add: case_prod_beta)

lemma cj_not:
  assumes "cj_ok V env other om e"
  shows "cj_ok V env other om (EX_NOT t e)"
  unfolding cj_ok_def lowers_jump_def
proof (intro allI impI, elim conjE)
  fix tf bb s s'
  assume g: "gen_cond_jmp other (EX_NOT t e) tf bb s = Some s'" and w: "wf_cg s"
    and Vb: "V \<subseteq> {..<vreg_count s}"
  then have g': "gen_cond_jmp other e (\<not> tf) bb s = Some s'" by simp
  note D = cj_okD [OF assms g' w Vb]
  have "\<exists>m'. reaches (bbs S) env (cur_end s, m)
                    (if truthy (sem om (EX_NOT t e) m) = tf then (bb, 0) else cur_end s', m') \<and>
                 agree V m' (snd (sem om (EX_NOT t e) m)) \<and>
                 (\<forall>q<vreg_count s. q \<notin> V \<longrightarrow> regs m' q = regs m q)" if "ext s' S" for S m
  proof -
    have e: "(truthy (sem om e m) = (\<not> tf)) = ((\<not> truthy (sem om e m)) = tf)" by auto
    from D(2) [OF that, of m] show ?thesis
      unfolding truthy_not snd_sem_not e .
  qed
  with D(1) show "grows s s' \<and>
        (\<forall>S m. ext s' S \<longrightarrow>
           (\<exists>m'. reaches (bbs S) env (cur_end s, m)
                    (if truthy (sem om (EX_NOT t e) m) = tf then (bb, 0) else cur_end s', m') \<and>
                 agree V m' (snd (sem om (EX_NOT t e) m)) \<and>
                 (\<forall>q<vreg_count s. q \<notin> V \<longrightarrow> regs m' q = regs m q)))"
    by blast
qed

section \<open>Other expressions\<close>

lemma step_appended:
  assumes "ext s S" "shape s pre c post" "irs c = xs @ ys" "k < length ys"
  shows "step (bbs S) env ((label c, length xs + k), m) =
           Some (exec_ir env (ys ! k) (label c, length xs + k) m)"
  using step_cursor [OF assms(1,2), of "length xs + k" env m] assms(3,4)
  by (simp add: nth_append)

lemma grows_appended:
  assumes "shape s pre c post" "shape s' pre (c\<lparr>irs := irs c @ code\<rparr>) post"
    "bb_count s \<le> bb_count s'" "vreg_count s \<le> vreg_count s'"
  shows "grows s s'"
proof -
  have "shape s' (pre @ []) (c\<lparr>irs := irs c @ code\<rparr>) post" using assms(2) by simp
  from grows_shapeI [OF assms(1) this, of code "[]"] assms(3,4) show ?thesis by simp
qed

lemma after_value:
  assumes LV: "lowers_value V env g f" and w: "wf_cg s" and Vb: "V \<subseteq> {..<vreg_count s}"
    and g: "g s = Some (r, s1)"
    and app: "\<forall>pre c post. shape s1 pre c post \<longrightarrow> shape s' pre (c\<lparr>irs := irs c @ code\<rparr>) post"
    and cnt: "bb_count s1 \<le> bb_count s'" "vreg_count s1 \<le> vreg_count s'"
    and loc: "\<forall>m x. fst (f m) = Loc x \<longrightarrow> x \<in> V"
  shows "grows s s'"
    and "ext s' S \<Longrightarrow>
         \<exists>m1 l k. cur_end s1 = (l, k) \<and> cur_end s' = (l, k + length code) \<and>
              reaches (bbs S) env (cur_end s, m) ((l, k), m1) \<and>
              (\<forall>j<length code. \<forall>mm. step (bbs S) env ((l, k + j), mm) =
                  Some (exec_ir env (code ! j) (l, k + j) mm)) \<and>
              val m1 r = read (fst (f m)) (snd (f m)) \<and>
              holds V r (fst (f m)) m1 \<and>
              agree V m1 (snd (f m)) \<and>
              (\<forall>q<vreg_count s. q \<notin> V \<longrightarrow> regs m1 q = regs m q)"
proof -
  note D = lowers_valueD [OF LV g w Vb]
  have w1: "wf_cg s1" by (rule grows_wf [OF w D(1)])
  from wf_shape [OF w1] obtain pre c post where sh1: "shape s1 pre c post" by blast
  note sh' = app [rule_format, OF sh1]
  have G1: "grows s1 s'" by (rule grows_appended [OF sh1 sh' cnt])
  show "grows s s'" by (rule grows_trans [OF w D(1) G1])
  assume E: "ext s' S"
  from ext_trans [OF ext_grows [OF sh1 G1] E] have E1: "ext s1 S" .
  from D(3) [OF E1, of m] obtain m1 where
    r1: "reaches (bbs S) env (cur_end s, m) (cur_end s1, m1)"
    and ag: "agree V m1 (snd (f m))"
    and ho: "holds V r (fst (f m)) m1"
    and pr1: "\<forall>q<vreg_count s. q \<notin> V \<longrightarrow> regs m1 q = regs m q"
    by blast
  have v: "val m1 r = read (fst (f m)) (snd (f m))"
    using loc by (intro holds_val [OF ho ag]) blast
  have st: "\<forall>j<length code. \<forall>mm. step (bbs S) env ((label c, length (irs c) + j), mm) =
                  Some (exec_ir env (code ! j) (label c, length (irs c) + j) mm)"
    using step_appended [OF E sh', of "irs c" code] by simp
  have "cur_end s1 = (label c, length (irs c))" by (rule shape_cur_end [OF sh1])
  moreover have "cur_end s' = (label c, length (irs c) + length code)"
    using shape_cur_end [OF sh'] by simp
  ultimately show "\<exists>m1 l k. cur_end s1 = (l, k) \<and> cur_end s' = (l, k + length code) \<and>
              reaches (bbs S) env (cur_end s, m) ((l, k), m1) \<and>
              (\<forall>j<length code. \<forall>mm. step (bbs S) env ((l, k + j), mm) =
                  Some (exec_ir env (code ! j) (l, k + j) mm)) \<and>
              val m1 r = read (fst (f m)) (snd (f m)) \<and>
              holds V r (fst (f m)) m1 \<and>
              agree V m1 (snd (f m)) \<and>
              (\<forall>q<vreg_count s. q \<notin> V \<longrightarrow> regs m1 q = regs m q)"
    using r1 st v ho ag pr1 by auto
qed

lemma ge_other:
  assumes "other_ok V env other om"
  shows "ge_ok V env other om (EX_OTHER n t)"
proof -
  have "gen_expr other (EX_OTHER n t) = other n t" "sem om (EX_OTHER n t) = om n"
    by (rule ext, simp)+
  with assms show ?thesis unfolding other_ok_def ge_ok_def by simp
qed

lemma cj_default:
  assumes ok: "ge_ok V env other om e" and mo: "stable_meaning V (sem om e)"
    and dflt: "\<forall>tf bb s. gen_cond_jmp other e tf bb s =
       (case gen_expr other e s of
          None \<Rightarrow> None
        | Some (reg, s1) \<Rightarrow>
            Some (new_ir_jmp (if tf then COND_NE else COND_EQ) bb (new_ir_test reg s1)))"
  shows "cj_ok V env other om e"
  unfolding cj_ok_def lowers_jump_def
proof (intro allI impI, elim conjE)
  fix tf bb s s'
  assume g: "gen_cond_jmp other e tf bb s = Some s'" and w: "wf_cg s"
    and Vb: "V \<subseteq> {..<vreg_count s}"
  define cnd where "cnd = (if tf then COND_NE else COND_EQ)"
  from g [unfolded dflt [rule_format]] obtain r s1 where g1: "gen_expr other e s = Some (r, s1)"
    and s': "s' = new_ir (Ir_jmp cnd bb) (new_ir (Ir_test r) s1)"
    by (auto simp: cnd_def new_ir_jmp_def new_ir_test_def split: option.splits)
  from ok have LV: "lowers_value V env (gen_expr other e) (sem om e)" by (simp add: ge_ok_def)
  have loc: "\<forall>m x. fst (sem om e m) = Loc x \<longrightarrow> x \<in> V" using sem_loc [OF mo] by blast
  have "shape s' pre (c\<lparr>irs := irs c @ [Ir_test r, Ir_jmp cnd bb]\<rparr>) post"
    if "shape s1 pre c post" for pre c post
    using shape_new_ir [OF shape_new_ir [OF that, of "Ir_test r"], of "Ir_jmp cnd bb"]
    by (simp add: s')
  then have app: "\<forall>pre c post. shape s1 pre c post \<longrightarrow>
      shape s' pre (c\<lparr>irs := irs c @ [Ir_test r, Ir_jmp cnd bb]\<rparr>) post" by blast
  have cnt: "bb_count s1 \<le> bb_count s'" "vreg_count s1 \<le> vreg_count s'" by (simp_all add: s')
  note A = after_value [OF LV w Vb g1 app cnt loc]
  show "grows s s' \<and>
        (\<forall>S m. ext s' S \<longrightarrow>
           (\<exists>m'. reaches (bbs S) env (cur_end s, m)
                    (if truthy (sem om e m) = tf then (bb, 0) else cur_end s', m') \<and>
                 agree V m' (snd (sem om e m)) \<and>
                 (\<forall>q<vreg_count s. q \<notin> V \<longrightarrow> regs m' q = regs m q)))"
  proof (intro conjI allI impI)
    show "grows s s'" by (rule A(1))
    fix S and m :: mstate
    assume E: "ext s' S"
    from A(2) [OF E, of m] obtain m1 l k where
      ce1: "cur_end s1 = (l, k)" and ce': "cur_end s' = (l, k + length [Ir_test r, Ir_jmp cnd bb])"
      and r1: "reaches (bbs S) env (cur_end s, m) ((l, k), m1)"
      and st: "\<forall>j<length [Ir_test r, Ir_jmp cnd bb]. \<forall>mm. step (bbs S) env ((l, k + j), mm) =
                  Some (exec_ir env ([Ir_test r, Ir_jmp cnd bb] ! j) (l, k + j) mm)"
      and v: "val m1 r = read (fst (sem om e m)) (snd (sem om e m))"
      and ag: "agree V m1 (snd (sem om e m))"
      and pr: "\<forall>q<vreg_count s. q \<notin> V \<longrightarrow> regs m1 q = regs m q"
      by blast
    define m2 where "m2 = m1\<lparr>flags := (val m1 r, 0)\<rparr>"
    have "step (bbs S) env ((l, k), m1) = Some ((l, Suc k), m2)"
      using st [rule_format, of 0 m1] by (simp add: exec_ir_def m2_def)
    note a = reaches_step [OF this]
    have "step (bbs S) env ((l, Suc k), m2) =
            Some (if (val m1 r \<noteq> 0) = tf then (bb, 0) else (l, Suc (Suc k)), m2)"
      using st [rule_format, of 1 m2]
      by (auto simp: exec_ir_def m2_def cnd_def cond_taken_simps)
    note b = reaches_step [OF this]
    have "reaches (bbs S) env (cur_end s, m)
            (if truthy (sem om e m) = tf then (bb, 0) else cur_end s', m2)"
      using reaches_trans [OF reaches_trans [OF r1 a] b] v
      by (auto simp: ce' truthy_def split: if_splits)
    then show "\<exists>m'. reaches (bbs S) env (cur_end s, m)
                    (if truthy (sem om e m) = tf then (bb, 0) else cur_end s', m') \<and>
                 agree V m' (snd (sem om e m)) \<and>
                 (\<forall>q<vreg_count s. q \<notin> V \<longrightarrow> regs m' q = regs m q)"
      using ag pr by (intro exI [of _ m2]) (simp add: m2_def)
  qed
qed

lemma ge_not:
  assumes ok: "ge_ok V env other om e" and mo: "stable_meaning V (sem om e)"
  shows "ge_ok V env other om (EX_NOT t e)"
  unfolding ge_ok_def lowers_value_def
proof (intro allI impI, elim conjE)
  fix s d s'
  assume g: "gen_expr other (EX_NOT t e) s = Some (d, s')" and w: "wf_cg s"
    and Vb: "V \<subseteq> {..<vreg_count s}"
  from g obtain reg s1 where g1: "gen_expr other e s = Some (reg, s1)"
    and d: "d = \<lparr>vreg_id = vreg_count s1, vreg_const = False, vreg_fixnum = 0, vtype = to_vtype t\<rparr>"
    and s': "s' = new_ir (Ir_not d reg) (s1\<lparr>vreg_count := Suc (vreg_count s1)\<rparr>)"
    by (auto simp: case_prod_beta new_ir_unary_not_def reg_alloc_spawn_vt_def
        split: option.splits if_splits)
  from ok have LV: "lowers_value V env (gen_expr other e) (sem om e)" by (simp add: ge_ok_def)
  have "shape s' pre (c\<lparr>irs := irs c @ [Ir_not d reg]\<rparr>) post"
    if "shape s1 pre c post" for pre c post
  proof -
    from that have "shape (s1\<lparr>vreg_count := Suc (vreg_count s1)\<rparr>) pre c post" by simp
    from shape_new_ir [OF this, of "Ir_not d reg"] show ?thesis by (simp add: s')
  qed
  then have app: "\<forall>pre c post. shape s1 pre c post \<longrightarrow>
      shape s' pre (c\<lparr>irs := irs c @ [Ir_not d reg]\<rparr>) post" by blast
  have loc: "\<forall>m x. fst (sem om e m) = Loc x \<longrightarrow> x \<in> V" using sem_loc [OF mo] by blast
  have cnt: "bb_count s1 \<le> bb_count s'" "vreg_count s1 \<le> vreg_count s'" by (simp_all add: s')
  note A = after_value [OF LV w Vb g1 app cnt loc]
  have c1: "vreg_count s \<le> vreg_count s1"
    using grows_counts(2) [OF lowers_valueD(1) [OF LV g1 w Vb]] .
  have nV: "vreg_id d \<notin> V" using Vb c1 by (auto simp: d)
  show "grows s s' \<and>
        (vreg_const d \<or> vreg_id d \<in> V \<or> (vreg_count s \<le> vreg_id d \<and> vreg_id d < vreg_count s')) \<and>
        (\<forall>S m. ext s' S \<longrightarrow>
           (\<exists>m'. reaches (bbs S) env (cur_end s, m) (cur_end s', m') \<and>
                 agree V m' (snd (sem om (EX_NOT t e) m)) \<and>
                 holds V d (fst (sem om (EX_NOT t e) m)) m' \<and>
                 (\<forall>q<vreg_count s. q \<notin> V \<longrightarrow> regs m' q = regs m q)))"
  proof (intro conjI allI impI)
    show "grows s s'" by (rule A(1))
    show "vreg_const d \<or> vreg_id d \<in> V \<or> (vreg_count s \<le> vreg_id d \<and> vreg_id d < vreg_count s')"
      using c1 by (simp add: d s')
    fix S and m :: mstate
    assume E: "ext s' S"
    from A(2) [OF E, of m] obtain m1 l k where
      ce': "cur_end s' = (l, k + length [Ir_not d reg])"
      and r1: "reaches (bbs S) env (cur_end s, m) ((l, k), m1)"
      and st: "\<forall>j<length [Ir_not d reg]. \<forall>mm. step (bbs S) env ((l, k + j), mm) =
                  Some (exec_ir env ([Ir_not d reg] ! j) (l, k + j) mm)"
      and v: "val m1 reg = read (fst (sem om e m)) (snd (sem om e m))"
      and ag: "agree V m1 (snd (sem om e m))"
      and pr: "\<forall>q<vreg_count s. q \<notin> V \<longrightarrow> regs m1 q = regs m q"
      by blast
    define m2 where "m2 = m1\<lparr>regs := (regs m1)(vreg_id d := (if val m1 reg = 0 then 1 else 0))\<rparr>"
    have "step (bbs S) env ((l, k), m1) = Some (cur_end s', m2)"
      using st [rule_format, of 0 m1] by (simp add: exec_ir_def m2_def ce')
    note r2 = reaches_trans [OF r1 reaches_step [OF this]]
    have "\<forall>q<vreg_count s. q \<notin> V \<longrightarrow> regs m2 q = regs m q"
      using pr c1 by (simp add: m2_def d)
    moreover have "agree V m2 (snd (sem om (EX_NOT t e) m))"
      using ag nV by (simp add: m2_def case_prod_beta)
    moreover have "holds V d (fst (sem om (EX_NOT t e) m)) m2"
      using v nV by (simp add: holds_def m2_def val_def d case_prod_beta)
    ultimately
    show "\<exists>m'. reaches (bbs S) env (cur_end s, m) (cur_end s', m') \<and>
                 agree V m' (snd (sem om (EX_NOT t e) m)) \<and>
                 holds V d (fst (sem om (EX_NOT t e) m)) m' \<and>
                 (\<forall>q<vreg_count s. q \<notin> V \<longrightarrow> regs m' q = regs m q)"
      using r2 by blast
  qed
qed

section \<open>Comparisons\<close>

lemma cmp_one:
  assumes L: "ge_ok V env other om e" and mo: "stable_meaning V (sem om e)"
    and w: "wf_cg s" and Vb: "V \<subseteq> {..<vreg_count s}"
    and g: "gen_expr other e s = Some (r, s1)"
    and s': "s' = new_ir i (s1\<lparr>vreg_count := n\<rparr>)" and n: "vreg_count s1 \<le> n"
    and i: "i = Ir_test r \<and> v = 0 \<or> (\<exists>num. i = Ir_cmp r num \<and> vreg_const num \<and> vreg_fixnum num = v)"
  shows "grows s s'"
    and "ext s' S \<Longrightarrow>
         \<exists>m'. reaches (bbs S) env (cur_end s, m) (cur_end s', m') \<and>
              flags m' = (read (fst (sem om e m)) (snd (sem om e m)), v) \<and>
              agree V m' (snd (sem om e m)) \<and>
              (\<forall>q<vreg_count s. q \<notin> V \<longrightarrow> regs m' q = regs m q)"
proof -
  from L have LV: "lowers_value V env (gen_expr other e) (sem om e)" by (simp add: ge_ok_def)
  have "shape s' pre (c\<lparr>irs := irs c @ [i]\<rparr>) post" if "shape s1 pre c post" for pre c post
  proof -
    from that have "shape (s1\<lparr>vreg_count := n\<rparr>) pre c post" by simp
    from shape_new_ir [OF this, of i] show ?thesis by (simp add: s')
  qed
  then have app: "\<forall>pre c post. shape s1 pre c post \<longrightarrow> shape s' pre (c\<lparr>irs := irs c @ [i]\<rparr>) post"
    by blast
  have loc: "\<forall>m x. fst (sem om e m) = Loc x \<longrightarrow> x \<in> V" using sem_loc [OF mo] by blast
  have cnt: "bb_count s1 \<le> bb_count s'" "vreg_count s1 \<le> vreg_count s'" using n by (simp_all add: s')
  note A = after_value [OF LV w Vb g app cnt loc]
  show "grows s s'" by (rule A(1))
  assume "ext s' S"
  from A(2) [OF this, of m] obtain m1 l k where
    ce': "cur_end s' = (l, k + length [i])"
    and r1: "reaches (bbs S) env (cur_end s, m) ((l, k), m1)"
    and st: "\<forall>j<length [i]. \<forall>mm. step (bbs S) env ((l, k + j), mm) =
                Some (exec_ir env ([i] ! j) (l, k + j) mm)"
    and vv: "val m1 r = read (fst (sem om e m)) (snd (sem om e m))"
    and ag: "agree V m1 (snd (sem om e m))"
    and pr: "\<forall>q<vreg_count s. q \<notin> V \<longrightarrow> regs m1 q = regs m q"
    by blast
  define m2 where "m2 = m1\<lparr>flags := (read (fst (sem om e m)) (snd (sem om e m)), v)\<rparr>"
  have "exec_ir env i (l, k) m1 = (cur_end s', m2)"
    using i vv by (auto simp: exec_ir_def ce' m2_def val_def)
  with st [rule_format, of 0 m1] have "step (bbs S) env ((l, k), m1) = Some (cur_end s', m2)"
    by simp
  note r2 = reaches_trans [OF r1 reaches_step [OF this]]
  with ag pr show "\<exists>m'. reaches (bbs S) env (cur_end s, m) (cur_end s', m') \<and>
              flags m' = (read (fst (sem om e m)) (snd (sem om e m)), v) \<and>
              agree V m' (snd (sem om e m)) \<and>
              (\<forall>q<vreg_count s. q \<notin> V \<longrightarrow> regs m' q = regs m q)"
    by (intro exI [of _ m2]) (simp add: m2_def)
qed

lemma cmp_two:
  assumes L: "ge_ok V env other om lhs" and R: "ge_ok V env other om rhs"
    and mo: "stable_meaning V (sem om lhs)" and mo2: "stable_meaning V (sem om rhs)"
    and w: "wf_cg s" and Vb: "V \<subseteq> {..<vreg_count s}"
    and gl: "gen_expr other lhs s = Some (lhs_reg, s1)"
    and gr: "gen_expr other rhs s1 = Some (rhs_reg, s2)"
    and tmp: "tmp = \<lparr>vreg_id = vreg_count s2, vreg_const = False, vreg_fixnum = 0, vtype = vt\<rparr>"
    and s': "s' = new_ir (Ir_cmp tmp rhs_reg) (new_ir (Ir_mov tmp lhs_reg)
                    (s2\<lparr>vreg_count := Suc (vreg_count s2)\<rparr>))"
  shows "grows s s'"
    and "ext s' S \<Longrightarrow>
         \<exists>m'. reaches (bbs S) env (cur_end s, m) (cur_end s', m') \<and>
              flags m' = (read (fst (sem om lhs m)) (snd (sem om rhs (snd (sem om lhs m)))),
                          read (fst (sem om rhs (snd (sem om lhs m))))
                               (snd (sem om rhs (snd (sem om lhs m))))) \<and>
              agree V m' (snd (sem om rhs (snd (sem om lhs m)))) \<and>
              (\<forall>q<vreg_count s. q \<notin> V \<longrightarrow> regs m' q = regs m q)"
proof -
  note D1 = ge_okD [OF L gl w Vb]
  have w1: "wf_cg s1" by (rule grows_wf [OF w D1(1)])
  have Vb1: "V \<subseteq> {..<vreg_count s1}" using Vb grows_counts(2) [OF D1(1)] by auto
  note D2 = ge_okD [OF R gr w1 Vb1]
  have w2: "wf_cg s2" by (rule grows_wf [OF w1 D2(1)])
  have Vb2: "V \<subseteq> {..<vreg_count s2}" using Vb1 grows_counts(2) [OF D2(1)] by auto
  from wf_shape [OF w1] obtain pre1 c1 post1 where sh1: "shape s1 pre1 c1 post1" by blast
  from wf_shape [OF w2] obtain pre c post where sh2: "shape s2 pre c post" by blast
  have sh2': "shape (s2\<lparr>vreg_count := Suc (vreg_count s2)\<rparr>) pre c post" using sh2 by simp
  have "shape s' pre ((c\<lparr>irs := irs c @ [Ir_mov tmp lhs_reg]\<rparr>)\<lparr>irs :=
          irs (c\<lparr>irs := irs c @ [Ir_mov tmp lhs_reg]\<rparr>) @ [Ir_cmp tmp rhs_reg]\<rparr>) post"
    unfolding s' by (rule shape_new_ir [OF shape_new_ir [OF sh2']])
  then have sh': "shape s' pre (c\<lparr>irs := irs c @ [Ir_mov tmp lhs_reg, Ir_cmp tmp rhs_reg]\<rparr>) post"
    by simp
  have c': "vreg_count s' = Suc (vreg_count s2)" "bb_count s' = bb_count s2" by (simp_all add: s')
  have G2: "grows s2 s'" by (rule grows_appended [OF sh2 sh']) (simp_all add: c')
  have G02: "grows s s2" by (rule grows_trans [OF w D1(1) D2(1)])
  show "grows s s'" by (rule grows_trans [OF w G02 G2])
  assume E: "ext s' S"
  from ext_trans [OF ext_grows [OF sh2 G2] E] have E2: "ext s2 S" .
  from ext_trans [OF ext_grows [OF sh1 D2(1)] E2] have E1: "ext s1 S" .
  let ?A = "sem om lhs m"
  let ?B = "sem om rhs (snd ?A)"
  from D1(3) [OF E1, of m] obtain m1 where
    r1: "reaches (bbs S) env (cur_end s, m) (cur_end s1, m1)"
    and ag1: "agree V m1 (snd ?A)"
    and h1: "holds V lhs_reg (fst ?A) m1"
    and pr1: "\<forall>q<vreg_count s. q \<notin> V \<longrightarrow> regs m1 q = regs m q"
    by blast
  from D2(3) [OF E2, of m1] obtain m2 where
    r2: "reaches (bbs S) env (cur_end s1, m1) (cur_end s2, m2)"
    and ag2: "agree V m2 (snd (sem om rhs m1))"
    and h2: "holds V rhs_reg (fst (sem om rhs m1)) m2"
    and pr2: "\<forall>q<vreg_count s1. q \<notin> V \<longrightarrow> regs m2 q = regs m1 q"
    by blast
  from sem_congr [OF mo2 ag1]
  have fB: "fst (sem om rhs m1) = fst ?B" and aB: "agree V (snd (sem om rhs m1)) (snd ?B)"
    by simp_all
  have ag: "agree V m2 (snd ?B)" by (rule agree_trans [OF ag2 aB])
  have hr: "holds V rhs_reg (fst ?B) m2" using h2 by (simp add: fB)
  have "vreg_const lhs_reg \<or> vreg_id lhs_reg \<in> V \<or> vreg_id lhs_reg < vreg_count s1"
    using D1(2) by auto
  from holds_later [OF h1 this pr2] have hl: "holds V lhs_reg (fst ?A) m2" .
  have vl: "val m2 lhs_reg = read (fst ?A) (snd ?B)"
    by (rule holds_val [OF hl ag sem_loc [OF mo]])
  have vr: "val m2 rhs_reg = read (fst ?B) (snd ?B)"
    by (rule holds_val [OF hr ag sem_loc [OF mo2]])
  have nV: "vreg_id tmp \<notin> V" using Vb2 by (auto simp: tmp)
  define m3 where "m3 = m2\<lparr>regs := (regs m2)(vreg_id tmp := val m2 lhs_reg)\<rparr>"
  define m4 where "m4 = m3\<lparr>flags := (val m2 lhs_reg, val m2 rhs_reg)\<rparr>"
  note st = step_appended [OF E sh', of "irs c" "[Ir_mov tmp lhs_reg, Ir_cmp tmp rhs_reg]"]
  have "step (bbs S) env ((label c, length (irs c)), m2) = Some ((label c, Suc (length (irs c))), m3)"
    using st [of 0 env m2] by (simp add: exec_ir_def m3_def)
  note a = reaches_step [OF this]
  have "val m3 tmp = val m2 lhs_reg" by (simp add: val_def m3_def tmp)
  moreover have "val m3 rhs_reg = val m2 rhs_reg"
    using D2(2) nV by (auto simp: val_def m3_def tmp)
  ultimately
  have "step (bbs S) env ((label c, Suc (length (irs c))), m3) =
          Some ((label c, Suc (Suc (length (irs c)))), m4)"
    using st [of 1 env m3] by (simp add: exec_ir_def m4_def)
  note b = reaches_step [OF this]
  have "reaches (bbs S) env (cur_end s, m) (cur_end s', m4)"
    using reaches_trans [OF reaches_trans [OF r1 r2] reaches_trans [OF a [folded shape_cur_end [OF sh2]] b]]
    by (simp add: shape_cur_end [OF sh'])
  moreover have "\<forall>q<vreg_count s. q \<notin> V \<longrightarrow> regs m4 q = regs m q"
    using pr1 pr2 grows_counts(2) [OF D1(1)] grows_counts(2) [OF D2(1)]
    by (simp add: m4_def m3_def tmp)
  moreover have "agree V m4 (snd ?B)" using ag nV by (simp add: m4_def m3_def)
  moreover have "flags m4 = (read (fst ?A) (snd ?B), read (fst ?B) (snd ?B))"
    by (simp add: m4_def vl vr)
  ultimately show "\<exists>m'. reaches (bbs S) env (cur_end s, m) (cur_end s', m') \<and>
              flags m' = (read (fst (sem om lhs m)) (snd (sem om rhs (snd (sem om lhs m)))),
                          read (fst (sem om rhs (snd (sem om lhs m))))
                               (snd (sem om rhs (snd (sem om lhs m))))) \<and>
              agree V m' (snd (sem om rhs (snd (sem om lhs m)))) \<and>
              (\<forall>q<vreg_count s. q \<notin> V \<longrightarrow> regs m' q = regs m q)"
    by blast
qed

lemma fixnum_sem: "is_EX_FIXNUM e \<Longrightarrow> \<exists>v. \<forall>m. sem om e m = (Imm v, m)"
  by (cases e) simp_all

lemma cmp_ok:
  assumes L: "ge_ok V env other om l" and R: "ge_ok V env other om r"
    and mo: "stable_meaning V (sem om l)" and mo2: "stable_meaning V (sem om r)"
    and w: "wf_cg s" and Vb: "V \<subseteq> {..<vreg_count s}"
    and g: "gen_compare_expr other k l r s = Some (cond, s')"
  shows "cond = cond_of (if \<not> is_EX_FIXNUM r \<and> is_EX_FIXNUM l then mirror k else k)
                  (expr_type (if \<not> is_EX_FIXNUM r \<and> is_EX_FIXNUM l then r else l))"
    and "grows s s'"
    and "ext s' S \<Longrightarrow>
         \<exists>m'. reaches (bbs S) env (cur_end s, m) (cur_end s', m') \<and>
              cond_taken cond (flags m') =
                compare_holds k l r (read (fst (sem om l m)) (snd (sem om r (snd (sem om l m)))))
                  (read (fst (sem om r (snd (sem om l m)))) (snd (sem om r (snd (sem om l m))))) \<and>
              agree V m' (snd (sem om r (snd (sem om l m)))) \<and>
              (\<forall>q<vreg_count s. q \<notin> V \<longrightarrow> regs m' q = regs m q)"
proof -
  define swap where "swap = (\<not> is_EX_FIXNUM r \<and> is_EX_FIXNUM l)"
  define lhs where "lhs = (if swap then r else l)"
  define rhs where "rhs = (if swap then l else r)"
  define cnd where "cnd = cond_of (if swap then mirror k else k) (expr_type lhs)"
  have La: "ge_ok V env other om lhs" and Ra: "ge_ok V env other om rhs"
    using L R by (simp_all add: lhs_def rhs_def)
  have moL: "stable_meaning V (sem om lhs)" and moR: "stable_meaning V (sem om rhs)"
    using mo mo2 by (simp_all add: lhs_def rhs_def)
  from gen_compare_expr_body [OF g swap_def lhs_def rhs_def cnd_def] obtain lhs_reg s1 where
    gl: "gen_expr other lhs s = Some (lhs_reg, s1)" and
    body: "(case rhs of
        EX_FIXNUM rt v \<Rightarrow>
          if v = 0 \<and> (cnd = COND_EQ \<or> cnd = COND_NE)
          then Some (cnd, new_ir_test lhs_reg s1)
          else if fixnum_kind (expr_type lhs) \<noteq> FX_LONG \<or> is_im32 v
          then (case new_const_vreg v (to_vtype rt) s1 of (num, s2) \<Rightarrow>
                  Some (cnd, new_ir_cmp lhs_reg num s2))
          else if tkind (expr_type lhs) \<notin> {TY_FIXNUM, TY_PTR} then None
          else
            (case gen_expr other rhs s1 of
               None \<Rightarrow> None
             | Some (rhs_reg, s2) \<Rightarrow>
                 (case add_new_reg (expr_type lhs) s2 of (tmp, s3) \<Rightarrow>
                    Some (cnd, new_ir_cmp tmp rhs_reg (new_ir_mov_cg tmp lhs_reg s3))))
      | _ \<Rightarrow>
          if tkind (expr_type lhs) \<notin> {TY_FIXNUM, TY_PTR} then None
          else
            (case gen_expr other rhs s1 of
               None \<Rightarrow> None
             | Some (rhs_reg, s2) \<Rightarrow>
                 (case add_new_reg (expr_type lhs) s2 of (tmp, s3) \<Rightarrow>
                    Some (cnd, new_ir_cmp tmp rhs_reg (new_ir_mov_cg tmp lhs_reg s3))))) =
      Some (cond, s')"
    by blast
  have c: "cond = cnd"
    using body by (auto split: Expr.splits if_splits option.splits prod.splits)
  then show "cond = cond_of (if \<not> is_EX_FIXNUM r \<and> is_EX_FIXNUM l then mirror k else k)
                  (expr_type (if \<not> is_EX_FIXNUM r \<and> is_EX_FIXNUM l then r else l))"
    by (simp add: cnd_def lhs_def swap_def)
  have ways:
    "(\<exists>rt. rhs = EX_FIXNUM rt 0 \<and> s' = new_ir (Ir_test lhs_reg) s1) \<or>
     (\<exists>rt v. rhs = EX_FIXNUM rt v \<and>
        s' = new_ir (Ir_cmp lhs_reg \<lparr>vreg_id = vreg_count s1, vreg_const = True, vreg_fixnum = v,
                                     vtype = to_vtype rt\<rparr>)
               (s1\<lparr>vreg_count := Suc (vreg_count s1)\<rparr>)) \<or>
     (\<exists>rhs_reg s2. gen_expr other rhs s1 = Some (rhs_reg, s2) \<and>
        s' = new_ir (Ir_cmp \<lparr>vreg_id = vreg_count s2, vreg_const = False, vreg_fixnum = 0,
                             vtype = to_vtype (expr_type lhs)\<rparr> rhs_reg)
               (new_ir (Ir_mov \<lparr>vreg_id = vreg_count s2, vreg_const = False, vreg_fixnum = 0,
                                vtype = to_vtype (expr_type lhs)\<rparr> lhs_reg)
                  (s2\<lparr>vreg_count := Suc (vreg_count s2)\<rparr>)))"
    using body
    by (cases rhs)
       (auto simp: new_ir_test_def new_ir_cmp_def new_ir_mov_cg_def new_const_vreg_def
          add_new_reg_def reg_alloc_spawn_vt_def
          split: if_splits option.splits prod.splits)
  let ?A = "sem om lhs m"
  let ?B = "sem om rhs (snd ?A)"
  have core: "grows s s' \<and> (ext s' S \<longrightarrow>
         (\<exists>m'. reaches (bbs S) env (cur_end s, m) (cur_end s', m') \<and>
              flags m' = (read (fst ?A) (snd ?B), read (fst ?B) (snd ?B)) \<and>
              agree V m' (snd ?B) \<and>
              (\<forall>q<vreg_count s. q \<notin> V \<longrightarrow> regs m' q = regs m q)))"
    using ways
  proof (elim disjE exE conjE)
    fix rt
    assume rh: "rhs = EX_FIXNUM rt 0" and s': "s' = new_ir (Ir_test lhs_reg) s1"
    have s'': "s' = new_ir (Ir_test lhs_reg) (s1\<lparr>vreg_count := vreg_count s1\<rparr>)"
      using s' by simp
    have i: "Ir_test lhs_reg = Ir_test lhs_reg \<and> (0::64 word) = 0 \<or>
        (\<exists>num. Ir_test lhs_reg = Ir_cmp lhs_reg num \<and> vreg_const num \<and> vreg_fixnum num = 0)"
      by simp
    note C = cmp_one [OF La moL w Vb gl s'' order_refl i]
    from C(1) C(2) [of S m] show ?thesis by (auto simp: rh)
  next
    fix rt v
    assume rh: "rhs = EX_FIXNUM rt v" and s': "s' = new_ir (Ir_cmp lhs_reg \<lparr>vreg_id = vreg_count s1, vreg_const = True, vreg_fixnum = v,
                                     vtype = to_vtype rt\<rparr>)
               (s1\<lparr>vreg_count := Suc (vreg_count s1)\<rparr>)"
    have i: "Ir_cmp lhs_reg \<lparr>vreg_id = vreg_count s1, vreg_const = True, vreg_fixnum = v,
                                     vtype = to_vtype rt\<rparr> = Ir_test lhs_reg \<and> v = 0 \<or>
        (\<exists>num. Ir_cmp lhs_reg \<lparr>vreg_id = vreg_count s1, vreg_const = True, vreg_fixnum = v,
                                     vtype = to_vtype rt\<rparr> = Ir_cmp lhs_reg num \<and>
               vreg_const num \<and> vreg_fixnum num = v)"
      by simp
    have n: "vreg_count s1 \<le> Suc (vreg_count s1)" by simp
    note C = cmp_one [OF La moL w Vb gl s' n i]
    from C(1) C(2) [of S m] show ?thesis by (auto simp: rh)
  next
    fix rhs_reg s2
    assume gr: "gen_expr other rhs s1 = Some (rhs_reg, s2)"
      and s': "s' = new_ir (Ir_cmp \<lparr>vreg_id = vreg_count s2, vreg_const = False, vreg_fixnum = 0,
                             vtype = to_vtype (expr_type lhs)\<rparr> rhs_reg)
               (new_ir (Ir_mov \<lparr>vreg_id = vreg_count s2, vreg_const = False, vreg_fixnum = 0,
                                vtype = to_vtype (expr_type lhs)\<rparr> lhs_reg)
                  (s2\<lparr>vreg_count := Suc (vreg_count s2)\<rparr>))"
    note C = cmp_two [OF La Ra moL moR w Vb gl gr refl s']
    from C(1) C(2) [of S m] show ?thesis by auto
  qed
  then show "grows s s'" by simp
  assume "ext s' S"
  with core obtain m' where
    r: "reaches (bbs S) env (cur_end s, m) (cur_end s', m')"
    and fl: "flags m' = (read (fst ?A) (snd ?B), read (fst ?B) (snd ?B))"
    and ag: "agree V m' (snd ?B)"
    and pr: "\<forall>q<vreg_count s. q \<notin> V \<longrightarrow> regs m' q = regs m q"
    by blast
  let ?X = "sem om l m"
  let ?Y = "sem om r (snd ?X)"
  have "cond_taken cond (flags m') = compare_holds k l r (read (fst ?X) (snd ?Y)) (read (fst ?Y) (snd ?Y))
        \<and> snd ?B = snd ?Y"
  proof (cases swap)
    case False
    then have e12: "lhs = l" "rhs = r" by (simp_all add: lhs_def rhs_def)
    from False have e3: "\<not> (\<not> is_EX_FIXNUM r \<and> is_EX_FIXNUM l)" by (simp add: swap_def)
    from False e12 have e4: "cnd = cond_of k (expr_type l)" by (simp add: cnd_def)
    show ?thesis unfolding fl c e4 compare_holds_def if_not_P [OF e3] by (simp add: e12)
  next
    case True
    then have e12: "lhs = r" "rhs = l" by (simp_all add: lhs_def rhs_def)
    from True have e3: "\<not> is_EX_FIXNUM r \<and> is_EX_FIXNUM l" by (simp add: swap_def)
    from True e12 have e4: "cnd = cond_of (mirror k) (expr_type r)" by (simp add: cnd_def)
    from fixnum_sem [of l om] e3 obtain v where lv: "\<And>m. sem om l m = (Imm v, m)" by blast
    show ?thesis unfolding fl c e4 compare_holds_def if_P [OF e3] by (simp add: e12 lv)
  qed
  with r ag pr show "\<exists>m'. reaches (bbs S) env (cur_end s, m) (cur_end s', m') \<and>
              cond_taken cond (flags m') =
                compare_holds k l r (read (fst (sem om l m)) (snd (sem om r (snd (sem om l m)))))
                  (read (fst (sem om r (snd (sem om l m)))) (snd (sem om r (snd (sem om l m))))) \<and>
              agree V m' (snd (sem om r (snd (sem om l m)))) \<and>
              (\<forall>q<vreg_count s. q \<notin> V \<longrightarrow> regs m' q = regs m q)"
    by auto
qed

section \<open>Comparisons as values and as jumps\<close>

lemma sem_compare:
  "sem om (EX_COMPARE k t l r) m =
     (Imm (if compare_holds k l r (read (fst (sem om l m)) (snd (sem om r (snd (sem om l m)))))
                (read (fst (sem om r (snd (sem om l m)))) (snd (sem om r (snd (sem om l m)))))
           then 1 else 0),
      snd (sem om r (snd (sem om l m))))"
  by (simp add: case_prod_beta)

lemma ge_compare:
  assumes L: "ge_ok V env other om l" and R: "ge_ok V env other om r"
    and mo: "stable_meaning V (sem om l)" and mo2: "stable_meaning V (sem om r)"
  shows "ge_ok V env other om (EX_COMPARE k t l r)"
  unfolding ge_ok_def lowers_value_def
proof (intro allI impI, elim conjE)
  fix s d s'
  assume g: "gen_expr other (EX_COMPARE k t l r) s = Some (d, s')" and w: "wf_cg s"
    and Vb: "V \<subseteq> {..<vreg_count s}"
  from g obtain cond s1 where gc: "gen_compare_expr other k l r s = Some (cond, s1)"
    and d: "d = \<lparr>vreg_id = vreg_count s1, vreg_const = False, vreg_fixnum = 0, vtype = to_vtype tyBool\<rparr>"
    and s': "s' = new_ir (Ir_cond d cond) (s1\<lparr>vreg_count := Suc (vreg_count s1)\<rparr>)"
    by (auto simp: case_prod_beta new_ir_cond_def reg_alloc_spawn_vt_def simp del: gen_compare_expr.simps
        split: option.splits)
  note C = cmp_ok [OF L R mo mo2 w Vb gc]
  have w1: "wf_cg s1" by (rule grows_wf [OF w C(2)])
  from wf_shape [OF w1] obtain pre c post where sh1: "shape s1 pre c post" by blast
  have sh1': "shape (s1\<lparr>vreg_count := Suc (vreg_count s1)\<rparr>) pre c post" using sh1 by simp
  note sh' = shape_new_ir [OF sh1', of "Ir_cond d cond", folded s']
  have c': "vreg_count s' = Suc (vreg_count s1)" "bb_count s' = bb_count s1"
    by (simp_all add: s')
  have G1: "grows s1 s'" by (rule grows_appended [OF sh1 sh']) (simp_all add: c')
  have c1: "vreg_count s \<le> vreg_count s1" by (rule grows_counts(2) [OF C(2)])
  have nV: "vreg_id d \<notin> V" using Vb c1 by (auto simp: d)
  show "grows s s' \<and>
        (vreg_const d \<or> vreg_id d \<in> V \<or> (vreg_count s \<le> vreg_id d \<and> vreg_id d < vreg_count s')) \<and>
        (\<forall>S m. ext s' S \<longrightarrow>
           (\<exists>m'. reaches (bbs S) env (cur_end s, m) (cur_end s', m') \<and>
                 agree V m' (snd (sem om (EX_COMPARE k t l r) m)) \<and>
                 holds V d (fst (sem om (EX_COMPARE k t l r) m)) m' \<and>
                 (\<forall>q<vreg_count s. q \<notin> V \<longrightarrow> regs m' q = regs m q)))"
  proof (intro conjI allI impI)
    show "grows s s'" by (rule grows_trans [OF w C(2) G1])
    show "vreg_const d \<or> vreg_id d \<in> V \<or> (vreg_count s \<le> vreg_id d \<and> vreg_id d < vreg_count s')"
      using c1 by (simp add: d c')
    fix S and m :: mstate
    assume E: "ext s' S"
    from ext_trans [OF ext_grows [OF sh1 G1] E] have E1: "ext s1 S" .
    let ?B = "sem om r (snd (sem om l m))"
    from C(3) [OF E1, of m] obtain m1 where
      r1: "reaches (bbs S) env (cur_end s, m) (cur_end s1, m1)"
      and v1: "cond_taken cond (flags m1) =
                 compare_holds k l r (read (fst (sem om l m)) (snd ?B)) (read (fst ?B) (snd ?B))"
      and ag: "agree V m1 (snd ?B)"
      and pr1: "\<forall>q<vreg_count s. q \<notin> V \<longrightarrow> regs m1 q = regs m q"
      by blast
    define m2 where "m2 = m1\<lparr>regs := (regs m1)(vreg_id d := (if cond_taken cond (flags m1) then 1 else 0))\<rparr>"
    have "step (bbs S) env (cur_end s1, m1) = Some (cur_end s', m2)"
      using step_appended [OF E sh', of "irs c" "[Ir_cond d cond]" 0 env m1]
      by (simp add: shape_cur_end [OF sh1] shape_cur_end [OF sh'] exec_ir_def m2_def)
    note r2 = reaches_trans [OF r1 reaches_step [OF this]]
    have "\<forall>q<vreg_count s. q \<notin> V \<longrightarrow> regs m2 q = regs m q"
      using pr1 c1 by (simp add: m2_def d)
    moreover have "agree V m2 (snd (sem om (EX_COMPARE k t l r) m))"
      unfolding sem_compare using ag nV by (simp add: m2_def)
    moreover have "holds V d (fst (sem om (EX_COMPARE k t l r) m)) m2"
      unfolding sem_compare using v1 nV by (simp add: holds_def m2_def val_def d)
    ultimately
    show "\<exists>m'. reaches (bbs S) env (cur_end s, m) (cur_end s', m') \<and>
                 agree V m' (snd (sem om (EX_COMPARE k t l r) m)) \<and>
                 holds V d (fst (sem om (EX_COMPARE k t l r) m)) m' \<and>
                 (\<forall>q<vreg_count s. q \<notin> V \<longrightarrow> regs m' q = regs m q)"
      using r2 by blast
  qed
qed

lemma jmp_pair_sem:
  assumes "ckind = yes \<or> ckind = no" "\<And>f. cond_taken no f = (\<not> cond_taken yes f)"
  shows "\<exists>cj. jmp_pair ckind yes no tf bb s = new_ir (Ir_jmp cj bb) s \<and>
              (\<forall>f. cond_taken cj f = (cond_taken ckind f = tf))"
proof (cases "ckind = yes")
  case True
  show ?thesis
    by (rule exI [of _ "if tf then yes else no"])
       (auto simp: jmp_pair_def new_ir_jmp_def True assms(2))
next
  case False
  with assms(1) have n: "ckind = no" by simp
  show ?thesis
    by (rule exI [of _ "if tf then no else yes"])
       (use False in \<open>auto simp: jmp_pair_def new_ir_jmp_def n assms(2)\<close>)
qed

lemma cond_of_eq_ne:
  "k = EX_EQ \<or> k = EX_NE \<Longrightarrow>
   cond_of (if b then mirror k else k) ty = COND_EQ \<or> cond_of (if b then mirror k else k) ty = COND_NE"
  by (auto simp: cond_of_def cond_defs)

lemma cj_compare:
  assumes L: "ge_ok V env other om l" and R: "ge_ok V env other om r"
    and mo: "stable_meaning V (sem om l)" and mo2: "stable_meaning V (sem om r)"
  shows "cj_ok V env other om (EX_COMPARE k t l r)"
  unfolding cj_ok_def lowers_jump_def
proof (intro allI impI, elim conjE)
  fix tf bb s s'
  assume g: "gen_cond_jmp other (EX_COMPARE k t l r) tf bb s = Some s'" and w: "wf_cg s"
    and Vb: "V \<subseteq> {..<vreg_count s}"
  from g obtain ckind s1 where gc: "gen_compare_expr other k l r s = Some (ckind, s1)"
    by (auto simp del: gen_compare_expr.simps split: option.splits)
  note C = cmp_ok [OF L R mo mo2 w Vb gc]
  have eqne: "ckind = COND_EQ \<or> ckind = COND_NE" if "k = EX_EQ \<or> k = EX_NE"
    unfolding C(1) by (rule cond_of_eq_ne [OF that])
  from g gc have body:
    "(if k = EX_EQ \<or> k = EX_NE then Some (jmp_pair ckind COND_EQ COND_NE tf bb s1)
      else if ckind = COND_LT \<or> ckind = COND_GE then Some (jmp_pair ckind COND_LT COND_GE tf bb s1)
      else if ckind = COND_GT \<or> ckind = COND_LE then Some (jmp_pair ckind COND_GT COND_LE tf bb s1)
      else if ckind = COND_ULT \<or> ckind = COND_UGE then Some (jmp_pair ckind COND_ULT COND_UGE tf bb s1)
      else if ckind = COND_UGT \<or> ckind = COND_ULE then Some (jmp_pair ckind COND_UGT COND_ULE tf bb s1)
      else None) = Some s'"
    by (simp del: gen_compare_expr.simps)
  have pairs: "\<exists>yes no. (ckind = yes \<or> ckind = no) \<and> (\<forall>f. cond_taken no f = (\<not> cond_taken yes f)) \<and>
       s' = jmp_pair ckind yes no tf bb s1"
  proof (cases "k = EX_EQ \<or> k = EX_NE")
    case True
    with body have "s' = jmp_pair ckind COND_EQ COND_NE tf bb s1" by simp
    with eqne [OF True] cond_taken_negations(1) show ?thesis by blast
  next
    case k: False
    show ?thesis
    proof (cases "ckind = COND_LT \<or> ckind = COND_GE")
      case True
      with body k have "s' = jmp_pair ckind COND_LT COND_GE tf bb s1" by simp
      with True cond_taken_negations(2) show ?thesis by blast
    next
      case a: False
      show ?thesis
      proof (cases "ckind = COND_GT \<or> ckind = COND_LE")
        case True
        with body k a have "s' = jmp_pair ckind COND_GT COND_LE tf bb s1" by simp
        with True cond_taken_negations(3) show ?thesis by blast
      next
        case b: False
        show ?thesis
        proof (cases "ckind = COND_ULT \<or> ckind = COND_UGE")
          case True
          with body k a b have "s' = jmp_pair ckind COND_ULT COND_UGE tf bb s1" by simp
          with True cond_taken_negations(4) show ?thesis by blast
        next
          case c: False
          with body k a b have u: "ckind = COND_UGT \<or> ckind = COND_ULE"
            and "s' = jmp_pair ckind COND_UGT COND_ULE tf bb s1"
            by (simp_all split: if_splits)
          with cond_taken_negations(5) show ?thesis by blast
        qed
      qed
    qed
  qed
  then obtain yes no where p: "ckind = yes \<or> ckind = no"
    "\<And>f. cond_taken no f = (\<not> cond_taken yes f)" and s'0: "s' = jmp_pair ckind yes no tf bb s1"
    by blast
  from jmp_pair_sem [OF p, of tf bb s1] obtain cj where
    s': "s' = new_ir (Ir_jmp cj bb) s1" and cj: "\<And>f. cond_taken cj f = (cond_taken ckind f = tf)"
    unfolding s'0 by blast
  have w1: "wf_cg s1" by (rule grows_wf [OF w C(2)])
  from wf_shape [OF w1] obtain pre c post where sh1: "shape s1 pre c post" by blast
  note sh' = shape_new_ir [OF sh1, of "Ir_jmp cj bb", folded s']
  have G1: "grows s1 s'" unfolding s' by (rule grows_new_ir [OF w1])
  show "grows s s' \<and>
        (\<forall>S m. ext s' S \<longrightarrow>
           (\<exists>m'. reaches (bbs S) env (cur_end s, m)
                    (if truthy (sem om (EX_COMPARE k t l r) m) = tf then (bb, 0) else cur_end s', m') \<and>
                 agree V m' (snd (sem om (EX_COMPARE k t l r) m)) \<and>
                 (\<forall>q<vreg_count s. q \<notin> V \<longrightarrow> regs m' q = regs m q)))"
  proof (intro conjI allI impI)
    show "grows s s'" by (rule grows_trans [OF w C(2) G1])
    fix S and m :: mstate
    assume E: "ext s' S"
    from ext_trans [OF ext_grows [OF sh1 G1] E] have E1: "ext s1 S" .
    let ?B = "sem om r (snd (sem om l m))"
    from C(3) [OF E1, of m] obtain m1 where
      r1: "reaches (bbs S) env (cur_end s, m) (cur_end s1, m1)"
      and v1: "cond_taken ckind (flags m1) =
                 compare_holds k l r (read (fst (sem om l m)) (snd ?B)) (read (fst ?B) (snd ?B))"
      and ag: "agree V m1 (snd ?B)"
      and pr1: "\<forall>q<vreg_count s. q \<notin> V \<longrightarrow> regs m1 q = regs m q"
      by blast
    have tr: "(truthy (sem om (EX_COMPARE k t l r) m) = tf) = cond_taken cj (flags m1)"
      unfolding cj v1 sem_compare by (simp add: truthy_def)
    have "step (bbs S) env (cur_end s1, m1) =
            Some (if cond_taken cj (flags m1) then (bb, 0) else cur_end s', m1)"
      using step_appended [OF E sh', of "irs c" "[Ir_jmp cj bb]" 0 env m1]
      by (simp add: shape_cur_end [OF sh1] shape_cur_end [OF sh'] exec_ir_def)
    note r2 = reaches_trans [OF r1 reaches_step [OF this]]
    have "reaches (bbs S) env (cur_end s, m)
            (if truthy (sem om (EX_COMPARE k t l r) m) = tf then (bb, 0) else cur_end s', m1)"
      unfolding tr using r2 by (simp split: if_splits)
    moreover have "agree V m1 (snd (sem om (EX_COMPARE k t l r) m))"
      unfolding sem_compare using ag by simp
    ultimately
    show "\<exists>m'. reaches (bbs S) env (cur_end s, m)
                    (if truthy (sem om (EX_COMPARE k t l r) m) = tf then (bb, 0) else cur_end s', m') \<and>
                 agree V m' (snd (sem om (EX_COMPARE k t l r) m)) \<and>
                 (\<forall>q<vreg_count s. q \<notin> V \<longrightarrow> regs m' q = regs m q)"
      using pr1 by blast
  qed
qed

section \<open>Variables, assignments and comma expressions\<close>

lemma ge_variable:
  assumes "\<not> vreg_const reg" "vreg_id reg \<in> V"
  shows "ge_ok V env other om (EX_VARIABLE t reg)"
  unfolding ge_ok_def lowers_value_def
proof (intro allI impI, elim conjE)
  fix s r s'
  assume g: "gen_expr other (EX_VARIABLE t reg) s = Some (r, s')" and w: "wf_cg s"
  from g have r: "r = reg" and s': "s' = s" by (simp_all split: if_splits)
  show "grows s s' \<and>
        (vreg_const r \<or> vreg_id r \<in> V \<or> (vreg_count s \<le> vreg_id r \<and> vreg_id r < vreg_count s')) \<and>
        (\<forall>S m. ext s' S \<longrightarrow>
           (\<exists>m'. reaches (bbs S) env (cur_end s, m) (cur_end s', m') \<and>
                 agree V m' (snd (sem om (EX_VARIABLE t reg) m)) \<and>
                 holds V r (fst (sem om (EX_VARIABLE t reg) m)) m' \<and>
                 (\<forall>q<vreg_count s. q \<notin> V \<longrightarrow> regs m' q = regs m q)))"
  proof (intro conjI allI impI)
    show "grows s s'" unfolding s' by (rule grows_refl [OF w])
    show "vreg_const r \<or> vreg_id r \<in> V \<or> (vreg_count s \<le> vreg_id r \<and> vreg_id r < vreg_count s')"
      using assms by (simp add: r)
    fix S m
    show "\<exists>m'. reaches (bbs S) env (cur_end s, m) (cur_end s', m') \<and>
                 agree V m' (snd (sem om (EX_VARIABLE t reg) m)) \<and>
                 holds V r (fst (sem om (EX_VARIABLE t reg) m)) m' \<and>
                 (\<forall>q<vreg_count s. q \<notin> V \<longrightarrow> regs m' q = regs m q)"
      using assms by (intro exI [of _ m]) (simp add: s' r holds_def reaches.here)
  qed
qed

lemma holds_assigned:
  assumes "holds V r p m" "x \<in> V"
  shows "holds V r p (m\<lparr>regs := (regs m)(x := v)\<rparr>)"
  using assms by (cases p) (auto simp: holds_def val_def)

lemma ge_assign:
  assumes ok: "ge_ok V env other om rhs" and mo: "stable_meaning V (sem om rhs)"
    and lo: "\<not> vreg_const reg" "vreg_id reg \<in> V"
  shows "ge_ok V env other om (EX_ASSIGN t reg rhs)"
  unfolding ge_ok_def lowers_value_def
proof (intro allI impI, elim conjE)
  fix s src s'
  assume g: "gen_expr other (EX_ASSIGN t reg rhs) s = Some (src, s')" and w: "wf_cg s"
    and Vb: "V \<subseteq> {..<vreg_count s}"
  from g obtain s1 where g1: "gen_expr other rhs s = Some (src, s1)"
    and s': "s' = new_ir (Ir_mov reg src) s1"
    by (auto simp: new_ir_mov_cg_def split: option.splits)
  from ok have LV: "lowers_value V env (gen_expr other rhs) (sem om rhs)" by (simp add: ge_ok_def)
  have "shape s' pre (c\<lparr>irs := irs c @ [Ir_mov reg src]\<rparr>) post"
    if "shape s1 pre c post" for pre c post
    using shape_new_ir [OF that, of "Ir_mov reg src"] by (simp add: s')
  then have app: "\<forall>pre c post. shape s1 pre c post \<longrightarrow>
      shape s' pre (c\<lparr>irs := irs c @ [Ir_mov reg src]\<rparr>) post" by blast
  have loc: "\<forall>m x. fst (sem om rhs m) = Loc x \<longrightarrow> x \<in> V" using sem_loc [OF mo] by blast
  have cnt: "bb_count s1 \<le> bb_count s'" "vreg_count s1 \<le> vreg_count s'" by (simp_all add: s')
  note A = after_value [OF LV w Vb g1 app cnt loc]
  note D = lowers_valueD [OF LV g1 w Vb]
  show "grows s s' \<and>
        (vreg_const src \<or> vreg_id src \<in> V \<or> (vreg_count s \<le> vreg_id src \<and> vreg_id src < vreg_count s')) \<and>
        (\<forall>S m. ext s' S \<longrightarrow>
           (\<exists>m'. reaches (bbs S) env (cur_end s, m) (cur_end s', m') \<and>
                 agree V m' (snd (sem om (EX_ASSIGN t reg rhs) m)) \<and>
                 holds V src (fst (sem om (EX_ASSIGN t reg rhs) m)) m' \<and>
                 (\<forall>q<vreg_count s. q \<notin> V \<longrightarrow> regs m' q = regs m q)))"
  proof (intro conjI allI impI)
    show "grows s s'" by (rule A(1))
    show "vreg_const src \<or> vreg_id src \<in> V \<or> (vreg_count s \<le> vreg_id src \<and> vreg_id src < vreg_count s')"
      using D(2) by (auto simp: s')
    fix S and m :: mstate
    assume E: "ext s' S"
    from A(2) [OF E, of m] obtain m1 l k where
      ce': "cur_end s' = (l, k + length [Ir_mov reg src])"
      and r1: "reaches (bbs S) env (cur_end s, m) ((l, k), m1)"
      and st: "\<forall>j<length [Ir_mov reg src]. \<forall>mm. step (bbs S) env ((l, k + j), mm) =
                  Some (exec_ir env ([Ir_mov reg src] ! j) (l, k + j) mm)"
      and v: "val m1 src = read (fst (sem om rhs m)) (snd (sem om rhs m))"
      and ho: "holds V src (fst (sem om rhs m)) m1"
      and ag: "agree V m1 (snd (sem om rhs m))"
      and pr: "\<forall>q<vreg_count s. q \<notin> V \<longrightarrow> regs m1 q = regs m q"
      by blast
    define m2 where "m2 = m1\<lparr>regs := (regs m1)(vreg_id reg := val m1 src)\<rparr>"
    have "step (bbs S) env ((l, k), m1) = Some (cur_end s', m2)"
      using st [rule_format, of 0 m1] by (simp add: exec_ir_def m2_def ce')
    note r2 = reaches_trans [OF r1 reaches_step [OF this]]
    have "\<forall>q<vreg_count s. q \<notin> V \<longrightarrow> regs m2 q = regs m q"
      using pr lo by (auto simp: m2_def)
    moreover have "agree V m2 (snd (sem om (EX_ASSIGN t reg rhs) m))"
      using ag v by (simp add: m2_def case_prod_beta agree_def)
    moreover have "holds V src (fst (sem om (EX_ASSIGN t reg rhs) m)) m2"
      using holds_assigned [OF ho lo(2)] by (simp add: m2_def case_prod_beta)
    ultimately
    show "\<exists>m'. reaches (bbs S) env (cur_end s, m) (cur_end s', m') \<and>
                 agree V m' (snd (sem om (EX_ASSIGN t reg rhs) m)) \<and>
                 holds V src (fst (sem om (EX_ASSIGN t reg rhs) m)) m' \<and>
                 (\<forall>q<vreg_count s. q \<notin> V \<longrightarrow> regs m' q = regs m q)"
      using r2 by blast
  qed
qed

lemma ge_comma:
  assumes L: "ge_ok V env other om a" and R: "ge_ok V env other om b"
    and mo: "stable_meaning V (sem om b)"
  shows "ge_ok V env other om (EX_COMMA t a b)"
  unfolding ge_ok_def lowers_value_def
proof (intro allI impI, elim conjE)
  fix s r s'
  assume g: "gen_expr other (EX_COMMA t a b) s = Some (r, s')" and w: "wf_cg s"
    and Vb: "V \<subseteq> {..<vreg_count s}"
  from g obtain u s1 where g1: "gen_expr other a s = Some (u, s1)"
    and g2: "gen_expr other b s1 = Some (r, s')"
    by (auto split: option.splits)
  note D1 = ge_okD [OF L g1 w Vb]
  have w1: "wf_cg s1" by (rule grows_wf [OF w D1(1)])
  have c1: "vreg_count s \<le> vreg_count s1" by (rule grows_counts(2) [OF D1(1)])
  have Vb1: "V \<subseteq> {..<vreg_count s1}" using Vb c1 by auto
  note D2 = ge_okD [OF R g2 w1 Vb1]
  from wf_shape [OF w1] obtain pre c post where sh1: "shape s1 pre c post" by blast
  show "grows s s' \<and>
        (vreg_const r \<or> vreg_id r \<in> V \<or> (vreg_count s \<le> vreg_id r \<and> vreg_id r < vreg_count s')) \<and>
        (\<forall>S m. ext s' S \<longrightarrow>
           (\<exists>m'. reaches (bbs S) env (cur_end s, m) (cur_end s', m') \<and>
                 agree V m' (snd (sem om (EX_COMMA t a b) m)) \<and>
                 holds V r (fst (sem om (EX_COMMA t a b) m)) m' \<and>
                 (\<forall>q<vreg_count s. q \<notin> V \<longrightarrow> regs m' q = regs m q)))"
  proof (intro conjI allI impI)
    show "grows s s'" by (rule grows_trans [OF w D1(1) D2(1)])
    show "vreg_const r \<or> vreg_id r \<in> V \<or> (vreg_count s \<le> vreg_id r \<and> vreg_id r < vreg_count s')"
      using D2(2) c1 by auto
    fix S and m :: mstate
    assume E: "ext s' S"
    from ext_trans [OF ext_grows [OF sh1 D2(1)] E] have E1: "ext s1 S" .
    let ?A = "sem om a m"
    from D1(3) [OF E1, of m] obtain m1 where
      r1: "reaches (bbs S) env (cur_end s, m) (cur_end s1, m1)"
      and ag1: "agree V m1 (snd ?A)"
      and pr1: "\<forall>q<vreg_count s. q \<notin> V \<longrightarrow> regs m1 q = regs m q"
      by blast
    from D2(3) [OF E, of m1] obtain m2 where
      r2: "reaches (bbs S) env (cur_end s1, m1) (cur_end s', m2)"
      and ag2: "agree V m2 (snd (sem om b m1))"
      and h2: "holds V r (fst (sem om b m1)) m2"
      and pr2: "\<forall>q<vreg_count s1. q \<notin> V \<longrightarrow> regs m2 q = regs m1 q"
      by blast
    from sem_congr [OF mo ag1]
    have fB: "fst (sem om b m1) = fst (sem om b (snd ?A))"
      and aB: "agree V (snd (sem om b m1)) (snd (sem om b (snd ?A)))"
      by simp_all
    have "reaches (bbs S) env (cur_end s, m) (cur_end s', m2)" by (rule reaches_trans [OF r1 r2])
    moreover have "agree V m2 (snd (sem om (EX_COMMA t a b) m))"
      using agree_trans [OF ag2 aB] by simp
    moreover have "holds V r (fst (sem om (EX_COMMA t a b) m)) m2" using h2 by (simp add: fB)
    moreover have "\<forall>q<vreg_count s. q \<notin> V \<longrightarrow> regs m2 q = regs m q"
      using pr1 pr2 c1 by simp
    ultimately
    show "\<exists>m'. reaches (bbs S) env (cur_end s, m) (cur_end s', m') \<and>
                 agree V m' (snd (sem om (EX_COMMA t a b) m)) \<and>
                 holds V r (fst (sem om (EX_COMMA t a b) m)) m' \<and>
                 (\<forall>q<vreg_count s. q \<notin> V \<longrightarrow> regs m' q = regs m q)"
      by blast
  qed
qed

section \<open>Conditional expressions\<close>

lemma split_three:
  assumes sh: "shape s pre c post"
    and d: "s1 = snd (bb_split (curbb s) s)" "s2 = snd (bb_split (bb_count s) s1)"
      "s3 = snd (bb_split (Suc (bb_count s)) s2)"
  shows "shape s3 pre c (\<lparr>label = bb_count s, irs = []\<rparr> # \<lparr>label = Suc (bb_count s), irs = []\<rparr> #
           \<lparr>label = Suc (Suc (bb_count s)), irs = []\<rparr> # post)"
    and "fst (bb_split (Suc (bb_count s)) s2) = Suc (Suc (bb_count s))"
    and "bb_count s3 = Suc (Suc (Suc (bb_count s)))" and "vreg_count s3 = vreg_count s"
proof -
  note T = split_twice [OF sh d(1,2)]
  have sh2: "shape s2 pre c ([\<lparr>label = bb_count s, irs = []\<rparr>, \<lparr>label = Suc (bb_count s), irs = []\<rparr>] @ post)"
    using T(1) by simp
  have l2: "Suc (bb_count s) =
      label (last (c # [\<lparr>label = bb_count s, irs = []\<rparr>, \<lparr>label = Suc (bb_count s), irs = []\<rparr>]))"
    by simp
  note A = shape_bb_split [OF sh2 l2]
  show "shape s3 pre c (\<lparr>label = bb_count s, irs = []\<rparr> # \<lparr>label = Suc (bb_count s), irs = []\<rparr> #
           \<lparr>label = Suc (Suc (bb_count s)), irs = []\<rparr> # post)"
    using A(1) T(4) by (simp add: d)
  show "fst (bb_split (Suc (bb_count s)) s2) = Suc (Suc (bb_count s))" using A(2) T(4) by simp
  show "bb_count s3 = Suc (Suc (Suc (bb_count s)))" using A(3) T(4) by (simp add: d)
  show "vreg_count s3 = vreg_count s" using A(4) T(5) by (simp add: d)
qed

lemma ge_ternary_elim:
  assumes "gen_expr other (EX_TERNARY t cnd tv fv) s = Some (result, s')"
    and "tbb = fst (bb_split (curbb s) s)" "s1 = snd (bb_split (curbb s) s)"
    and "fbb = fst (bb_split tbb s1)" "s2 = snd (bb_split tbb s1)"
    and "nbb = fst (bb_split fbb s2)" "s3 = snd (bb_split fbb s2)"
  shows "\<exists>s5 tval s6 fval s7.
       result = fst (add_new_reg t s3) \<and>
       gen_cond_jmp other cnd False fbb (snd (add_new_reg t s3)) = Some s5 \<and>
       gen_expr other tv (set_curbb tbb s5) = Some (tval, s6) \<and>
       gen_expr other fv
         (set_curbb fbb (new_ir_jmp COND_ANY nbb (new_ir_mov_cg result tval s6))) = Some (fval, s7) \<and>
       s' = set_curbb nbb (new_ir_mov_cg result fval s7)"
  using assms by (auto simp: case_prod_beta split: option.splits)

lemma sem_ternary:
  "sem om (EX_TERNARY t cnd tv fv) m =
     (if truthy (sem om cnd m)
      then (Imm (read (fst (sem om tv (snd (sem om cnd m)))) (snd (sem om tv (snd (sem om cnd m))))),
            snd (sem om tv (snd (sem om cnd m))))
      else (Imm (read (fst (sem om fv (snd (sem om cnd m)))) (snd (sem om fv (snd (sem om cnd m))))),
            snd (sem om fv (snd (sem om cnd m)))))"
  by (simp add: truthy_def case_prod_beta)

lemma ge_ternary:
  assumes C: "cj_ok V env other om cnd" and A: "ge_ok V env other om tv"
    and B: "ge_ok V env other om fv"
    and moA: "stable_meaning V (sem om tv)" and moB: "stable_meaning V (sem om fv)"
  shows "ge_ok V env other om (EX_TERNARY t cnd tv fv)"
  unfolding ge_ok_def lowers_value_def
proof (intro allI impI, elim conjE)
  fix s result s'
  assume g: "gen_expr other (EX_TERNARY t cnd tv fv) s = Some (result, s')" and w: "wf_cg s"
    and Vb: "V \<subseteq> {..<vreg_count s}"
  from wf_shape [OF w] obtain pre cb post where sh: "shape s pre cb post" by blast
  define s1 where "s1 = snd (bb_split (curbb s) s)"
  define s2 where "s2 = snd (bb_split (bb_count s) s1)"
  define s3 where "s3 = snd (bb_split (Suc (bb_count s)) s2)"
  note T = split_twice [OF sh s1_def s2_def]
  note H = split_three [OF sh s1_def s2_def s3_def]
  define TB where "TB = \<lparr>label = bb_count s, irs = []\<rparr>"
  define FB where "FB = \<lparr>label = Suc (bb_count s), irs = []\<rparr>"
  define NB where "NB = \<lparr>label = Suc (Suc (bb_count s)), irs = []\<rparr>"
  have e: "irs TB = []" "irs FB = []" "irs NB = []" "label TB = bb_count s"
    "label FB = Suc (bb_count s)" "label NB = Suc (Suc (bb_count s))"
    by (simp_all add: TB_def FB_def NB_def)
  define s4 where "s4 = snd (add_new_reg t s3)"
  from ge_ternary_elim [OF g T(2) [symmetric] s1_def T(3) [symmetric] s2_def H(2) [symmetric] s3_def]
  obtain s5 tval s6 fval s7 where
    res: "result = fst (add_new_reg t s3)"
    and g1: "gen_cond_jmp other cnd False (Suc (bb_count s)) s4 = Some s5"
    and g2: "gen_expr other tv (set_curbb (bb_count s) s5) = Some (tval, s6)"
    and g3: "gen_expr other fv
         (set_curbb (Suc (bb_count s))
            (new_ir_jmp COND_ANY (Suc (Suc (bb_count s))) (new_ir_mov_cg result tval s6))) =
           Some (fval, s7)"
    and fin: "s' = set_curbb (Suc (Suc (bb_count s))) (new_ir_mov_cg result fval s7)"
    unfolding s4_def by blast
  have rid: "result = \<lparr>vreg_id = vreg_count s, vreg_const = False, vreg_fixnum = 0,
                       vtype = to_vtype t\<rparr>"
    using res H(4) by simp
  have s4': "s4 = s3\<lparr>vreg_count := Suc (vreg_count s)\<rparr>" using H(4) by (simp add: s4_def)
  have sh4: "shape s4 pre cb (TB # FB # NB # post)"
    using H(1) by (simp add: s4' TB_def FB_def NB_def)
  have w4: "wf_cg s4" by (rule shape_wf [OF sh4])
  have c4: "vreg_count s4 = Suc (vreg_count s)" "bb_count s4 = Suc (Suc (Suc (bb_count s)))"
    using H(3) by (simp_all add: s4')
  have Vb4: "V \<subseteq> {..<vreg_count s4}" using Vb c4 by auto
  have nV: "vreg_id result \<notin> V" using Vb rid by auto
  note G1 = cj_okD(1) [OF C g1 w4 Vb4]
  from grows_shapeD [OF G1 sh4] obtain code region f l where
    a: "cb\<lparr>irs := irs cb @ code\<rparr> # region = f @ [l]"
       "shape s5 (pre @ f) l (TB # FB # NB # post)"
    by blast
  have c5: "vreg_count s4 \<le> vreg_count s5" "bb_count s4 \<le> bb_count s5"
    using grows_counts [OF G1] by simp_all
  define sT where "sT = set_curbb (label TB) s5"
  have a': "shape s5 (pre @ f) l ([] @ TB # FB # NB # post)" using a(2) by simp
  have shT: "shape sT ((pre @ f) @ [l]) TB (FB # NB # post)"
    using shape_set_curbb [OF a'] by (simp add: sT_def)
  have wT: "wf_cg sT" by (rule shape_wf [OF shT])
  have cT: "vreg_count sT = vreg_count s5" "bb_count sT = bb_count s5" by (simp_all add: sT_def)
  have VbT: "V \<subseteq> {..<vreg_count sT}" using Vb4 c5 cT by auto
  have g2': "gen_expr other tv sT = Some (tval, s6)" using g2 e by (simp add: sT_def)
  from A have LA: "lowers_value V env (gen_expr other tv) (sem om tv)" by (simp add: ge_ok_def)
  define codeT where "codeT = [Ir_mov result tval, Ir_jmp COND_ANY (Suc (Suc (bb_count s)))]"
  define sM where "sM = new_ir_jmp COND_ANY (Suc (Suc (bb_count s))) (new_ir_mov_cg result tval s6)"
  have "shape sM p (x\<lparr>irs := irs x @ codeT\<rparr>) q" if "shape s6 p x q" for p x q
    using shape_new_ir [OF shape_new_ir [OF that, of "Ir_mov result tval"],
        of "Ir_jmp COND_ANY (Suc (Suc (bb_count s)))"]
    by (simp add: sM_def new_ir_jmp_def new_ir_mov_cg_def codeT_def)
  then have appT: "\<forall>p x q. shape s6 p x q \<longrightarrow> shape sM p (x\<lparr>irs := irs x @ codeT\<rparr>) q" by blast
  have cntT: "bb_count s6 \<le> bb_count sM" "vreg_count s6 \<le> vreg_count sM"
    by (simp_all add: sM_def new_ir_jmp_def new_ir_mov_cg_def)
  have locA: "\<forall>m x. fst (sem om tv m) = Loc x \<longrightarrow> x \<in> V" using sem_loc [OF moA] by blast
  note AT = after_value [OF LA wT VbT g2' appT cntT locA]
  from grows_shapeD [OF AT(1) shT] obtain code2 region2 f2 l2 where
    b: "TB\<lparr>irs := irs TB @ code2\<rparr> # region2 = f2 @ [l2]"
       "shape sM (((pre @ f) @ [l]) @ f2) l2 (FB # NB # post)"
    by blast
  have cM: "vreg_count sT \<le> vreg_count sM" "bb_count sT \<le> bb_count sM"
    using grows_counts [OF AT(1)] by simp_all
  define sF where "sF = set_curbb (label FB) sM"
  have b': "shape sM (((pre @ f) @ [l]) @ f2) l2 ([] @ FB # NB # post)" using b(2) by simp
  have shF: "shape sF ((((pre @ f) @ [l]) @ f2) @ [l2]) FB (NB # post)"
    using shape_set_curbb [OF b'] by (simp add: sF_def)
  have wF: "wf_cg sF" by (rule shape_wf [OF shF])
  have cF: "vreg_count sF = vreg_count sM" "bb_count sF = bb_count sM" by (simp_all add: sF_def)
  have VbF: "V \<subseteq> {..<vreg_count sF}" using VbT cM cF by auto
  have g3': "gen_expr other fv sF = Some (fval, s7)" using g3 e by (simp add: sF_def sM_def)
  from B have LB: "lowers_value V env (gen_expr other fv) (sem om fv)" by (simp add: ge_ok_def)
  define sE where "sE = new_ir_mov_cg result fval s7"
  have "shape sE p (x\<lparr>irs := irs x @ [Ir_mov result fval]\<rparr>) q" if "shape s7 p x q" for p x q
    using shape_new_ir [OF that, of "Ir_mov result fval"] by (simp add: sE_def new_ir_mov_cg_def)
  then have appF: "\<forall>p x q. shape s7 p x q \<longrightarrow> shape sE p (x\<lparr>irs := irs x @ [Ir_mov result fval]\<rparr>) q"
    by blast
  have cntF: "bb_count s7 \<le> bb_count sE" "vreg_count s7 \<le> vreg_count sE"
    by (simp_all add: sE_def new_ir_mov_cg_def)
  have locB: "\<forall>m x. fst (sem om fv m) = Loc x \<longrightarrow> x \<in> V" using sem_loc [OF moB] by blast
  note AF = after_value [OF LB wF VbF g3' appF cntF locB]
  from grows_shapeD [OF AF(1) shF] obtain code3 region3 f3 l3 where
    c: "FB\<lparr>irs := irs FB @ code3\<rparr> # region3 = f3 @ [l3]"
       "shape sE (((((pre @ f) @ [l]) @ f2) @ [l2]) @ f3) l3 (NB # post)"
    by blast
  have cE: "vreg_count sF \<le> vreg_count sE" "bb_count sF \<le> bb_count sE"
    using grows_counts [OF AF(1)] by simp_all
  have s'': "s' = set_curbb (label NB) sE" using fin e by (simp add: sE_def)
  have c': "shape sE (((((pre @ f) @ [l]) @ f2) @ [l2]) @ f3) l3 ([] @ NB # post)"
    using c(2) by simp
  have sh': "shape s' ((((((pre @ f) @ [l]) @ f2) @ [l2]) @ f3) @ [l3]) NB post"
    using shape_set_curbb [OF c'] by (simp add: s'')
  have cnt': "vreg_count s' = vreg_count sE" "bb_count s' = bb_count sE" by (simp_all add: s'')
  have vc: "Suc (vreg_count s) \<le> vreg_count s'" "bb_count s \<le> bb_count s'"
    using c4 c5 cT cM cF cE cnt' by simp_all
  have "pre @ (cb\<lparr>irs := irs cb @ code\<rparr> # region) @ f2 @ [l2] @ f3 @ [l3] =
        pre @ (f @ [l]) @ f2 @ [l2] @ f3 @ [l3]"
    by (simp only: a(1))
  then have eq: "(((((pre @ f) @ [l]) @ f2) @ [l2]) @ f3) @ [l3] =
        pre @ (cb\<lparr>irs := irs cb @ code\<rparr> # region @ f2 @ [l2] @ f3 @ [l3])"
    by simp
  have G: "grows s s'"
  proof (rule grows_shapeI [OF sh _ _ vc(2)])
    show "shape s' (pre @ (cb\<lparr>irs := irs cb @ code\<rparr> # region @ f2 @ [l2] @ f3 @ [l3])) NB post"
      using sh' unfolding eq .
    show "cb\<lparr>irs := irs cb @ code\<rparr> # (region @ f2 @ [l2] @ f3 @ [l3] @ [NB]) =
          (cb\<lparr>irs := irs cb @ code\<rparr> # region @ f2 @ [l2] @ f3 @ [l3]) @ [NB]"
      by simp
    show "vreg_count s \<le> vreg_count s'" using vc(1) by simp
  qed
  show "grows s s' \<and>
        (vreg_const result \<or> vreg_id result \<in> V \<or>
           (vreg_count s \<le> vreg_id result \<and> vreg_id result < vreg_count s')) \<and>
        (\<forall>S m. ext s' S \<longrightarrow>
           (\<exists>m'. reaches (bbs S) env (cur_end s, m) (cur_end s', m') \<and>
                 agree V m' (snd (sem om (EX_TERNARY t cnd tv fv) m)) \<and>
                 holds V result (fst (sem om (EX_TERNARY t cnd tv fv) m)) m' \<and>
                 (\<forall>q<vreg_count s. q \<notin> V \<longrightarrow> regs m' q = regs m q)))"
  proof (intro conjI allI impI)
    show "grows s s'" by (rule G)
    show "vreg_const result \<or> vreg_id result \<in> V \<or>
           (vreg_count s \<le> vreg_id result \<and> vreg_id result < vreg_count s')"
      using vc(1) by (simp add: rid)
    fix S and m :: mstate
    assume E: "ext s' S"
    from ext_trans [OF ext_set_curbb [OF c'] E [unfolded s'']] have EE: "ext sE S" .
    from ext_trans [OF ext_grows [OF shF AF(1)] EE] have EF: "ext sF S" .
    from ext_trans [OF ext_set_curbb [OF b'] EF [unfolded sF_def]] have EM: "ext sM S" .
    from ext_trans [OF ext_grows [OF shT AT(1)] EM] have ET: "ext sT S" .
    from ext_trans [OF ext_set_curbb [OF a'] ET [unfolded sT_def]] have E5: "ext s5 S" .
    have ce: "cur_end s = (label cb, length (irs cb))" by (rule shape_cur_end [OF sh])
    have ce4: "cur_end s4 = (label cb, length (irs cb))" by (rule shape_cur_end [OF sh4])
    have ce5: "cur_end s5 = (label l, length (irs l))" by (rule shape_cur_end [OF a(2)])
    have ceT: "cur_end sT = (label TB, 0)" using shape_cur_end [OF shT] e by simp
    have ceF: "cur_end sF = (Suc (bb_count s), 0)" using shape_cur_end [OF shF] e by simp
    have ceE: "cur_end sE = (label l3, length (irs l3))" by (rule shape_cur_end [OF c(2)])
    have ce': "cur_end s' = (Suc (Suc (bb_count s)), 0)" using shape_cur_end [OF sh'] e by simp
    let ?C = "sem om cnd m"
    from cj_okD(2) [OF C g1 w4 Vb4 E5, of m] obtain m1 where
      r1: "reaches (bbs S) env (cur_end s, m)
             (if truthy ?C = False then (Suc (bb_count s), 0) else (label l, length (irs l)), m1)"
      and ag1: "agree V m1 (snd ?C)"
      and pr1: "\<forall>q<vreg_count s4. q \<notin> V \<longrightarrow> regs m1 q = regs m q"
      unfolding ce ce4 ce5 by blast
    show "\<exists>m'. reaches (bbs S) env (cur_end s, m) (cur_end s', m') \<and>
                 agree V m' (snd (sem om (EX_TERNARY t cnd tv fv) m)) \<and>
                 holds V result (fst (sem om (EX_TERNARY t cnd tv fv) m)) m' \<and>
                 (\<forall>q<vreg_count s. q \<notin> V \<longrightarrow> regs m' q = regs m q)"
    proof (cases "truthy ?C")
      case True
      from r1 True have r1': "reaches (bbs S) env (cur_end s, m) ((label l, length (irs l)), m1)"
        by simp
      note f1 = reaches_step [OF step_fall [OF ET shT, of env m1]]
      let ?X = "sem om tv (snd ?C)"
      from AT(2) [OF EM, of m1] obtain m2 l' k where
        ceM: "cur_end sM = (l', k + length codeT)"
        and r2: "reaches (bbs S) env (cur_end sT, m1) ((l', k), m2)"
        and st: "\<forall>j<length codeT. \<forall>mm. step (bbs S) env ((l', k + j), mm) =
                    Some (exec_ir env (codeT ! j) (l', k + j) mm)"
        and ag2: "agree V m2 (snd (sem om tv m1))"
        and h2: "holds V tval (fst (sem om tv m1)) m2"
        and pr2: "\<forall>q<vreg_count sT. q \<notin> V \<longrightarrow> regs m2 q = regs m1 q"
        by blast
      from sem_congr [OF moA ag1]
      have fX: "fst (sem om tv m1) = fst ?X" and aX: "agree V (snd (sem om tv m1)) (snd ?X)"
        by simp_all
      have ag: "agree V m2 (snd ?X)" by (rule agree_trans [OF ag2 aX])
      have hX: "holds V tval (fst ?X) m2" using h2 by (simp add: fX)
      have v: "val m2 tval = read (fst ?X) (snd ?X)"
        by (rule holds_val [OF hX ag sem_loc [OF moA]])
      define m3 where "m3 = m2\<lparr>regs := (regs m2)(vreg_id result := val m2 tval)\<rparr>"
      have "step (bbs S) env ((l', k), m2) = Some ((l', Suc k), m3)"
        using st [rule_format, of 0 m2] by (simp add: exec_ir_def m3_def codeT_def)
      note x1 = reaches_step [OF this]
      have "step (bbs S) env ((l', Suc k), m3) = Some (cur_end s', m3)"
        using st [rule_format, of 1 m3] by (simp add: exec_ir_def codeT_def cond_taken_simps ce')
      note x2 = reaches_step [OF this]
      have "reaches (bbs S) env (cur_end s, m) (cur_end s', m3)"
        using reaches_trans [OF reaches_trans [OF reaches_trans [OF reaches_trans [OF r1' f1]
              r2 [unfolded ceT]] x1] x2] .
      moreover have "agree V m3 (snd (sem om (EX_TERNARY t cnd tv fv) m))"
        unfolding sem_ternary using ag nV True by (simp add: m3_def)
      moreover have "holds V result (fst (sem om (EX_TERNARY t cnd tv fv) m)) m3"
        unfolding sem_ternary using v nV True by (simp add: holds_def m3_def val_def rid)
      moreover have "\<forall>q<vreg_count s. q \<notin> V \<longrightarrow> regs m3 q = regs m q"
        using pr1 pr2 c4 c5 cT by (simp add: m3_def rid)
      ultimately show ?thesis by blast
    next
      case False
      from r1 False have r1': "reaches (bbs S) env (cur_end s, m) (cur_end sF, m1)"
        unfolding ceF by simp
      let ?X = "sem om fv (snd ?C)"
      from AF(2) [OF EE, of m1] obtain m2 l' k where
        ce7: "cur_end sE = (l', k + length [Ir_mov result fval])"
        and r2: "reaches (bbs S) env (cur_end sF, m1) ((l', k), m2)"
        and st: "\<forall>j<length [Ir_mov result fval]. \<forall>mm. step (bbs S) env ((l', k + j), mm) =
                    Some (exec_ir env ([Ir_mov result fval] ! j) (l', k + j) mm)"
        and ag2: "agree V m2 (snd (sem om fv m1))"
        and h2: "holds V fval (fst (sem om fv m1)) m2"
        and pr2: "\<forall>q<vreg_count sF. q \<notin> V \<longrightarrow> regs m2 q = regs m1 q"
        by blast
      from sem_congr [OF moB ag1]
      have fX: "fst (sem om fv m1) = fst ?X" and aX: "agree V (snd (sem om fv m1)) (snd ?X)"
        by simp_all
      have ag: "agree V m2 (snd ?X)" by (rule agree_trans [OF ag2 aX])
      have hX: "holds V fval (fst ?X) m2" using h2 by (simp add: fX)
      have v: "val m2 fval = read (fst ?X) (snd ?X)"
        by (rule holds_val [OF hX ag sem_loc [OF moB]])
      define m3 where "m3 = m2\<lparr>regs := (regs m2)(vreg_id result := val m2 fval)\<rparr>"
      have "step (bbs S) env ((l', k), m2) = Some ((label l3, length (irs l3)), m3)"
        using st [rule_format, of 0 m2] ce7 by (simp add: exec_ir_def m3_def ceE)
      note x1 = reaches_step [OF this]
      have "step (bbs S) env ((label l3, length (irs l3)), m3) = Some (cur_end s', m3)"
        using step_fall [OF E sh', of env m3] by (simp add: ce' e)
      note x2 = reaches_step [OF this]
      have "reaches (bbs S) env (cur_end s, m) (cur_end s', m3)"
        using reaches_trans [OF reaches_trans [OF reaches_trans [OF r1' r2] x1] x2] .
      moreover have "agree V m3 (snd (sem om (EX_TERNARY t cnd tv fv) m))"
        unfolding sem_ternary using ag nV False by (simp add: m3_def)
      moreover have "holds V result (fst (sem om (EX_TERNARY t cnd tv fv) m)) m3"
        unfolding sem_ternary using v nV False by (simp add: holds_def m3_def val_def rid)
      moreover have "\<forall>q<vreg_count s. q \<notin> V \<longrightarrow> regs m3 q = regs m q"
        using pr1 pr2 c4 c5 cT cM cF by (simp add: m3_def rid)
      ultimately show ?thesis by blast
    qed
  qed
qed

section \<open>All expressions\<close>

lemma ge_logand_elim:
  assumes "gen_expr other (EX_LOGAND t lhs rhs) s = Some (result, s')"
    and "bb1 = fst (bb_split (curbb s) s)" "s1 = snd (bb_split (curbb s) s)"
    and "bb2 = fst (bb_split bb1 s1)" "s2 = snd (bb_split bb1 s1)"
    and "b3 = fst (bb_split bb2 s2)" "s3 = snd (bb_split bb2 s2)"
    and "b4 = fst (bb_split b3 s3)" "s4 = snd (bb_split b3 s3)"
  shows "\<exists>s5 s6. gen_cond_jmp other lhs False b3 s4 = Some s5 \<and>
       gen_cond_jmp other rhs False b3 (set_curbb bb1 s5) = Some s6 \<and>
       result = fst (add_new_reg tyBool (set_curbb bb2 s6)) \<and>
       s' = set_curbb b4 (new_ir_mov_cg result
              (fst (new_const_vreg 0 (to_vtype tyBool) (set_curbb b3 (new_ir_jmp COND_ANY b4 (new_ir_mov_cg result (fst (new_const_vreg 1 (to_vtype tyBool) (snd (add_new_reg tyBool (set_curbb bb2 s6))))) (snd (new_const_vreg 1 (to_vtype tyBool) (snd (add_new_reg tyBool (set_curbb bb2 s6))))))))))
              (snd (new_const_vreg 0 (to_vtype tyBool) (set_curbb b3 (new_ir_jmp COND_ANY b4 (new_ir_mov_cg result (fst (new_const_vreg 1 (to_vtype tyBool) (snd (add_new_reg tyBool (set_curbb bb2 s6))))) (snd (new_const_vreg 1 (to_vtype tyBool) (snd (add_new_reg tyBool (set_curbb bb2 s6)))))))))))"
  using assms by (auto simp: case_prod_beta split: option.splits)

lemma ge_logior_elim:
  assumes "gen_expr other (EX_LOGIOR t lhs rhs) s = Some (result, s')"
    and "bb1 = fst (bb_split (curbb s) s)" "s1 = snd (bb_split (curbb s) s)"
    and "bb2 = fst (bb_split bb1 s1)" "s2 = snd (bb_split bb1 s1)"
    and "b3 = fst (bb_split bb2 s2)" "s3 = snd (bb_split bb2 s2)"
    and "b4 = fst (bb_split b3 s3)" "s4 = snd (bb_split b3 s3)"
  shows "\<exists>s5 s6. gen_cond_jmp other lhs True b3 s4 = Some s5 \<and>
       gen_cond_jmp other rhs True b3 (set_curbb bb1 s5) = Some s6 \<and>
       result = fst (add_new_reg tyBool (set_curbb bb2 s6)) \<and>
       s' = set_curbb b4 (new_ir_mov_cg result
              (fst (new_const_vreg 1 (to_vtype tyBool) (set_curbb b3 (new_ir_jmp COND_ANY b4 (new_ir_mov_cg result (fst (new_const_vreg 0 (to_vtype tyBool) (snd (add_new_reg tyBool (set_curbb bb2 s6))))) (snd (new_const_vreg 0 (to_vtype tyBool) (snd (add_new_reg tyBool (set_curbb bb2 s6))))))))))
              (snd (new_const_vreg 1 (to_vtype tyBool) (set_curbb b3 (new_ir_jmp COND_ANY b4 (new_ir_mov_cg result (fst (new_const_vreg 0 (to_vtype tyBool) (snd (add_new_reg tyBool (set_curbb bb2 s6))))) (snd (new_const_vreg 0 (to_vtype tyBool) (snd (add_new_reg tyBool (set_curbb bb2 s6)))))))))))"
  using assms by (auto simp: case_prod_beta split: option.splits)

lemma ge_logand_run:
  assumes L: "cj_ok V env other om lhs" and R: "cj_ok V env other om rhs" and mo: "stable_meaning V (sem om rhs)"
    and g: "gen_expr other (EX_LOGAND t lhs rhs) s = Some (result, s')" and sh: "shape s pre c post"
    and Vb: "V \<subseteq> {..<vreg_count s}"
  shows "\<exists>code f one zero.
           vreg_const one \<and> vreg_fixnum one = 1 \<and> vreg_const zero \<and> vreg_fixnum zero = 0 \<and>
           shape s' (pre @ c\<lparr>irs := irs c @ code\<rparr> # f @
             [\<lparr>label = Suc (bb_count s),
                irs = [Ir_mov result one, Ir_jmp COND_ANY (Suc (Suc (Suc (bb_count s))))]\<rparr>,
              \<lparr>label = Suc (Suc (bb_count s)), irs = [Ir_mov result zero]\<rparr>])
             \<lparr>label = Suc (Suc (Suc (bb_count s))), irs = []\<rparr> post"
    and "\<not> vreg_const result" and "vreg_count s \<le> vreg_id result"
    and "vreg_id result < vreg_count s'" and "bb_count s \<le> bb_count s'"
    and "ext s' S \<Longrightarrow>
         \<exists>m'. reaches (bbs S) env (cur_end s, m) (cur_end s', m') \<and>
               agree V m' (snd (sem om (EX_LOGAND t lhs rhs) m)) \<and>
               holds V result (fst (sem om (EX_LOGAND t lhs rhs) m)) m' \<and>
               (\<forall>q<vreg_count s. q \<notin> V \<longrightarrow> regs m' q = regs m q)"
proof -
  define s1 where "s1 = snd (bb_split (curbb s) s)"
  define s2 where "s2 = snd (bb_split (bb_count s) s1)"
  define s3 where "s3 = snd (bb_split (Suc (bb_count s)) s2)"
  define s4 where "s4 = snd (bb_split (Suc (Suc (bb_count s))) s3)"
  note T = split_twice [OF sh s1_def s2_def]
  note F = split_four [OF sh s1_def s2_def s3_def s4_def]
  from ge_logand_elim [OF g T(2) [symmetric] s1_def T(3) [symmetric] s2_def F(2) [symmetric] s3_def
      F(3) [symmetric] s4_def]
  obtain s5 s6 where g1: "gen_cond_jmp other lhs False (Suc (Suc (bb_count s))) s4 = Some s5"
    and g2: "gen_cond_jmp other rhs False (Suc (Suc (bb_count s))) (set_curbb (bb_count s) s5) = Some s6"
    and res: "result = fst (add_new_reg tyBool (set_curbb (Suc (bb_count s)) s6))"
    and fin: "s' = set_curbb (Suc (Suc (Suc (bb_count s)))) (new_ir_mov_cg result
              (fst (new_const_vreg 0 (to_vtype tyBool) (set_curbb (Suc (Suc (bb_count s))) (new_ir_jmp COND_ANY (Suc (Suc (Suc (bb_count s)))) (new_ir_mov_cg result (fst (new_const_vreg 1 (to_vtype tyBool) (snd (add_new_reg tyBool (set_curbb (Suc (bb_count s)) s6))))) (snd (new_const_vreg 1 (to_vtype tyBool) (snd (add_new_reg tyBool (set_curbb (Suc (bb_count s)) s6))))))))))
              (snd (new_const_vreg 0 (to_vtype tyBool) (set_curbb (Suc (Suc (bb_count s))) (new_ir_jmp COND_ANY (Suc (Suc (Suc (bb_count s)))) (new_ir_mov_cg result (fst (new_const_vreg 1 (to_vtype tyBool) (snd (add_new_reg tyBool (set_curbb (Suc (bb_count s)) s6))))) (snd (new_const_vreg 1 (to_vtype tyBool) (snd (add_new_reg tyBool (set_curbb (Suc (bb_count s)) s6)))))))))))"
    by blast
  note Q = ge_seq [OF L R mo sh Vb s1_def s2_def s3_def s4_def g1 g2 res refl refl refl refl refl refl fin]
  from Q(1) show "\<exists>code f one zero.
           vreg_const one \<and> vreg_fixnum one = 1 \<and> vreg_const zero \<and> vreg_fixnum zero = 0 \<and>
           shape s' (pre @ c\<lparr>irs := irs c @ code\<rparr> # f @
             [\<lparr>label = Suc (bb_count s),
                irs = [Ir_mov result one, Ir_jmp COND_ANY (Suc (Suc (Suc (bb_count s))))]\<rparr>,
              \<lparr>label = Suc (Suc (bb_count s)), irs = [Ir_mov result zero]\<rparr>])
             \<lparr>label = Suc (Suc (Suc (bb_count s))), irs = []\<rparr> post"
    by (elim exE) (intro exI conjI, auto)
  show nc: "\<not> vreg_const result" by (simp add: res)
  show lo: "vreg_count s \<le> vreg_id result" using Q(2,3) by simp
  show "vreg_id result < vreg_count s'" using Q(2,4) by simp
  show "bb_count s \<le> bb_count s'" by (rule Q(5))
  have nV: "vreg_id result \<notin> V" using Vb lo by auto
  assume "ext s' S"
  from Q(6) [OF this, of m] obtain m' where
    r: "reaches (bbs S) env (cur_end s, m) (cur_end s', m')"
    and v: "regs m' (vreg_id result) =
                 (if truthy (sem om lhs m) = False \<or> truthy (sem om rhs (snd (sem om lhs m))) = False
                  then 0 else 1)"
    and ag: "agree V m' (if truthy (sem om lhs m) = False then snd (sem om lhs m)
                           else snd (sem om rhs (snd (sem om lhs m))))"
    and pr: "\<forall>q<vreg_count s. q \<notin> V \<longrightarrow> regs m' q = regs m q"
    by blast
  have "holds V result (fst (sem om (EX_LOGAND t lhs rhs) m)) m'"
    using v nc nV by (auto simp: holds_def val_def truthy_def case_prod_beta split: if_splits)
  moreover have "agree V m' (snd (sem om (EX_LOGAND t lhs rhs) m))"
    using ag by (auto simp: truthy_def case_prod_beta split: if_splits)
  ultimately show "\<exists>m'. reaches (bbs S) env (cur_end s, m) (cur_end s', m') \<and>
               agree V m' (snd (sem om (EX_LOGAND t lhs rhs) m)) \<and>
               holds V result (fst (sem om (EX_LOGAND t lhs rhs) m)) m' \<and>
               (\<forall>q<vreg_count s. q \<notin> V \<longrightarrow> regs m' q = regs m q)"
    using r pr by blast
qed

lemma ge_logior_run:
  assumes L: "cj_ok V env other om lhs" and R: "cj_ok V env other om rhs" and mo: "stable_meaning V (sem om rhs)"
    and g: "gen_expr other (EX_LOGIOR t lhs rhs) s = Some (result, s')" and sh: "shape s pre c post"
    and Vb: "V \<subseteq> {..<vreg_count s}"
  shows "\<exists>code f one zero.
           vreg_const one \<and> vreg_fixnum one = 1 \<and> vreg_const zero \<and> vreg_fixnum zero = 0 \<and>
           shape s' (pre @ c\<lparr>irs := irs c @ code\<rparr> # f @
             [\<lparr>label = Suc (bb_count s),
                irs = [Ir_mov result zero, Ir_jmp COND_ANY (Suc (Suc (Suc (bb_count s))))]\<rparr>,
              \<lparr>label = Suc (Suc (bb_count s)), irs = [Ir_mov result one]\<rparr>])
             \<lparr>label = Suc (Suc (Suc (bb_count s))), irs = []\<rparr> post"
    and "\<not> vreg_const result" and "vreg_count s \<le> vreg_id result"
    and "vreg_id result < vreg_count s'" and "bb_count s \<le> bb_count s'"
    and "ext s' S \<Longrightarrow>
         \<exists>m'. reaches (bbs S) env (cur_end s, m) (cur_end s', m') \<and>
               agree V m' (snd (sem om (EX_LOGIOR t lhs rhs) m)) \<and>
               holds V result (fst (sem om (EX_LOGIOR t lhs rhs) m)) m' \<and>
               (\<forall>q<vreg_count s. q \<notin> V \<longrightarrow> regs m' q = regs m q)"
proof -
  define s1 where "s1 = snd (bb_split (curbb s) s)"
  define s2 where "s2 = snd (bb_split (bb_count s) s1)"
  define s3 where "s3 = snd (bb_split (Suc (bb_count s)) s2)"
  define s4 where "s4 = snd (bb_split (Suc (Suc (bb_count s))) s3)"
  note T = split_twice [OF sh s1_def s2_def]
  note F = split_four [OF sh s1_def s2_def s3_def s4_def]
  from ge_logior_elim [OF g T(2) [symmetric] s1_def T(3) [symmetric] s2_def F(2) [symmetric] s3_def
      F(3) [symmetric] s4_def]
  obtain s5 s6 where g1: "gen_cond_jmp other lhs True (Suc (Suc (bb_count s))) s4 = Some s5"
    and g2: "gen_cond_jmp other rhs True (Suc (Suc (bb_count s))) (set_curbb (bb_count s) s5) = Some s6"
    and res: "result = fst (add_new_reg tyBool (set_curbb (Suc (bb_count s)) s6))"
    and fin: "s' = set_curbb (Suc (Suc (Suc (bb_count s)))) (new_ir_mov_cg result
              (fst (new_const_vreg 1 (to_vtype tyBool) (set_curbb (Suc (Suc (bb_count s))) (new_ir_jmp COND_ANY (Suc (Suc (Suc (bb_count s)))) (new_ir_mov_cg result (fst (new_const_vreg 0 (to_vtype tyBool) (snd (add_new_reg tyBool (set_curbb (Suc (bb_count s)) s6))))) (snd (new_const_vreg 0 (to_vtype tyBool) (snd (add_new_reg tyBool (set_curbb (Suc (bb_count s)) s6))))))))))
              (snd (new_const_vreg 1 (to_vtype tyBool) (set_curbb (Suc (Suc (bb_count s))) (new_ir_jmp COND_ANY (Suc (Suc (Suc (bb_count s)))) (new_ir_mov_cg result (fst (new_const_vreg 0 (to_vtype tyBool) (snd (add_new_reg tyBool (set_curbb (Suc (bb_count s)) s6))))) (snd (new_const_vreg 0 (to_vtype tyBool) (snd (add_new_reg tyBool (set_curbb (Suc (bb_count s)) s6)))))))))))"
    by blast
  note Q = ge_seq [OF L R mo sh Vb s1_def s2_def s3_def s4_def g1 g2 res refl refl refl refl refl refl fin]
  from Q(1) show "\<exists>code f one zero.
           vreg_const one \<and> vreg_fixnum one = 1 \<and> vreg_const zero \<and> vreg_fixnum zero = 0 \<and>
           shape s' (pre @ c\<lparr>irs := irs c @ code\<rparr> # f @
             [\<lparr>label = Suc (bb_count s),
                irs = [Ir_mov result zero, Ir_jmp COND_ANY (Suc (Suc (Suc (bb_count s))))]\<rparr>,
              \<lparr>label = Suc (Suc (bb_count s)), irs = [Ir_mov result one]\<rparr>])
             \<lparr>label = Suc (Suc (Suc (bb_count s))), irs = []\<rparr> post"
    by (elim exE) (intro exI conjI, auto)
  show nc: "\<not> vreg_const result" by (simp add: res)
  show lo: "vreg_count s \<le> vreg_id result" using Q(2,3) by simp
  show "vreg_id result < vreg_count s'" using Q(2,4) by simp
  show "bb_count s \<le> bb_count s'" by (rule Q(5))
  have nV: "vreg_id result \<notin> V" using Vb lo by auto
  assume "ext s' S"
  from Q(6) [OF this, of m] obtain m' where
    r: "reaches (bbs S) env (cur_end s, m) (cur_end s', m')"
    and v: "regs m' (vreg_id result) =
                 (if truthy (sem om lhs m) = True \<or> truthy (sem om rhs (snd (sem om lhs m))) = True
                  then 1 else 0)"
    and ag: "agree V m' (if truthy (sem om lhs m) = True then snd (sem om lhs m)
                           else snd (sem om rhs (snd (sem om lhs m))))"
    and pr: "\<forall>q<vreg_count s. q \<notin> V \<longrightarrow> regs m' q = regs m q"
    by blast
  have "holds V result (fst (sem om (EX_LOGIOR t lhs rhs) m)) m'"
    using v nc nV by (auto simp: holds_def val_def truthy_def case_prod_beta split: if_splits)
  moreover have "agree V m' (snd (sem om (EX_LOGIOR t lhs rhs) m))"
    using ag by (auto simp: truthy_def case_prod_beta split: if_splits)
  ultimately show "\<exists>m'. reaches (bbs S) env (cur_end s, m) (cur_end s', m') \<and>
               agree V m' (snd (sem om (EX_LOGIOR t lhs rhs) m)) \<and>
               holds V result (fst (sem om (EX_LOGIOR t lhs rhs) m)) m' \<and>
               (\<forall>q<vreg_count s. q \<notin> V \<longrightarrow> regs m' q = regs m q)"
    using r pr by blast
qed

lemma ge_logand:
  assumes L: "cj_ok V env other om lhs" and R: "cj_ok V env other om rhs" and mo: "stable_meaning V (sem om rhs)"
  shows "ge_ok V env other om (EX_LOGAND t lhs rhs)"
  unfolding ge_ok_def lowers_value_def
proof (intro allI impI, elim conjE)
  fix s result s'
  assume g: "gen_expr other (EX_LOGAND t lhs rhs) s = Some (result, s')" and w: "wf_cg s"
    and Vb: "V \<subseteq> {..<vreg_count s}"
  from wf_shape [OF w] obtain pre c post where sh: "shape s pre c post" by blast
  note Q = ge_logand_run [OF L R mo g sh Vb]
  from Q(1) obtain code f B2 B3 where
    sh': "shape s' (pre @ c\<lparr>irs := irs c @ code\<rparr> # f @ [B2, B3])
             \<lparr>label = Suc (Suc (Suc (bb_count s))), irs = []\<rparr> post"
    by blast
  have "shape s' (pre @ (c\<lparr>irs := irs c @ code\<rparr> # f @ [B2, B3]))
             \<lparr>label = Suc (Suc (Suc (bb_count s))), irs = []\<rparr> post"
    using sh' by simp
  moreover have "c\<lparr>irs := irs c @ code\<rparr> # (f @ [B2, B3, \<lparr>label = Suc (Suc (Suc (bb_count s))), irs = []\<rparr>]) =
      (c\<lparr>irs := irs c @ code\<rparr> # f @ [B2, B3]) @ [\<lparr>label = Suc (Suc (Suc (bb_count s))), irs = []\<rparr>]"
    by simp
  moreover have "vreg_count s \<le> vreg_count s'" using Q(3,4) by simp
  ultimately have G: "grows s s'" using grows_shapeI [OF sh] Q(5) by blast
  have "\<exists>m'. reaches (bbs S) env (cur_end s, m) (cur_end s', m') \<and>
                 agree V m' (snd (sem om (EX_LOGAND t lhs rhs) m)) \<and>
                 holds V result (fst (sem om (EX_LOGAND t lhs rhs) m)) m' \<and>
                 (\<forall>q<vreg_count s. q \<notin> V \<longrightarrow> regs m' q = regs m q)" if "ext s' S" for S m
    by (rule Q(6) [OF that])
  with G Q(3,4) show "grows s s' \<and>
        (vreg_const result \<or> vreg_id result \<in> V \<or>
           (vreg_count s \<le> vreg_id result \<and> vreg_id result < vreg_count s')) \<and>
        (\<forall>S m. ext s' S \<longrightarrow>
           (\<exists>m'. reaches (bbs S) env (cur_end s, m) (cur_end s', m') \<and>
                 agree V m' (snd (sem om (EX_LOGAND t lhs rhs) m)) \<and>
                 holds V result (fst (sem om (EX_LOGAND t lhs rhs) m)) m' \<and>
                 (\<forall>q<vreg_count s. q \<notin> V \<longrightarrow> regs m' q = regs m q)))"
    by blast
qed

lemma ge_logior:
  assumes L: "cj_ok V env other om lhs" and R: "cj_ok V env other om rhs" and mo: "stable_meaning V (sem om rhs)"
  shows "ge_ok V env other om (EX_LOGIOR t lhs rhs)"
  unfolding ge_ok_def lowers_value_def
proof (intro allI impI, elim conjE)
  fix s result s'
  assume g: "gen_expr other (EX_LOGIOR t lhs rhs) s = Some (result, s')" and w: "wf_cg s"
    and Vb: "V \<subseteq> {..<vreg_count s}"
  from wf_shape [OF w] obtain pre c post where sh: "shape s pre c post" by blast
  note Q = ge_logior_run [OF L R mo g sh Vb]
  from Q(1) obtain code f B2 B3 where
    sh': "shape s' (pre @ c\<lparr>irs := irs c @ code\<rparr> # f @ [B2, B3])
             \<lparr>label = Suc (Suc (Suc (bb_count s))), irs = []\<rparr> post"
    by blast
  have "shape s' (pre @ (c\<lparr>irs := irs c @ code\<rparr> # f @ [B2, B3]))
             \<lparr>label = Suc (Suc (Suc (bb_count s))), irs = []\<rparr> post"
    using sh' by simp
  moreover have "c\<lparr>irs := irs c @ code\<rparr> # (f @ [B2, B3, \<lparr>label = Suc (Suc (Suc (bb_count s))), irs = []\<rparr>]) =
      (c\<lparr>irs := irs c @ code\<rparr> # f @ [B2, B3]) @ [\<lparr>label = Suc (Suc (Suc (bb_count s))), irs = []\<rparr>]"
    by simp
  moreover have "vreg_count s \<le> vreg_count s'" using Q(3,4) by simp
  ultimately have G: "grows s s'" using grows_shapeI [OF sh] Q(5) by blast
  have "\<exists>m'. reaches (bbs S) env (cur_end s, m) (cur_end s', m') \<and>
                 agree V m' (snd (sem om (EX_LOGIOR t lhs rhs) m)) \<and>
                 holds V result (fst (sem om (EX_LOGIOR t lhs rhs) m)) m' \<and>
                 (\<forall>q<vreg_count s. q \<notin> V \<longrightarrow> regs m' q = regs m q)" if "ext s' S" for S m
    by (rule Q(6) [OF that])
  with G Q(3,4) show "grows s s' \<and>
        (vreg_const result \<or> vreg_id result \<in> V \<or>
           (vreg_count s \<le> vreg_id result \<and> vreg_id result < vreg_count s')) \<and>
        (\<forall>S m. ext s' S \<longrightarrow>
           (\<exists>m'. reaches (bbs S) env (cur_end s, m) (cur_end s', m') \<and>
                 agree V m' (snd (sem om (EX_LOGIOR t lhs rhs) m)) \<and>
                 holds V result (fst (sem om (EX_LOGIOR t lhs rhs) m)) m' \<and>
                 (\<forall>q<vreg_count s. q \<notin> V \<longrightarrow> regs m' q = regs m q)))"
    by blast
qed

lemma other_ok_meaning: "other_ok V env other om \<Longrightarrow> meaning_ok V om"
  by (simp add: other_ok_def)

lemma lowering_ok:
  assumes ok: "other_ok V env other om"
  shows "locals_in V e \<Longrightarrow> cj_ok V env other om e \<and> ge_ok V env other om e"
proof (induction e)
  case (EX_FIXNUM t v)
  show ?case by (simp add: cj_fixnum ge_fixnum)
next
  case (EX_COMPARE k t l r)
  from EX_COMPARE.prems have lo: "locals_in V l" "locals_in V r" by simp_all
  note st = sem_stable [OF other_ok_meaning [OF ok] lo(1)] sem_stable [OF other_ok_meaning [OF ok] lo(2)]
  from EX_COMPARE.IH(1) [OF lo(1)] EX_COMPARE.IH(2) [OF lo(2)]
  show ?case by (simp add: cj_compare ge_compare st)
next
  case (EX_LOGAND t l r)
  from EX_LOGAND.prems have lo: "locals_in V l" "locals_in V r" by simp_all
  note st = sem_stable [OF other_ok_meaning [OF ok] lo(2)]
  from EX_LOGAND.IH(1) [OF lo(1)] EX_LOGAND.IH(2) [OF lo(2)]
  show ?case by (simp add: cj_logand ge_logand st)
next
  case (EX_LOGIOR t l r)
  from EX_LOGIOR.prems have lo: "locals_in V l" "locals_in V r" by simp_all
  note st = sem_stable [OF other_ok_meaning [OF ok] lo(2)]
  from EX_LOGIOR.IH(1) [OF lo(1)] EX_LOGIOR.IH(2) [OF lo(2)]
  show ?case by (simp add: cj_logior ge_logior st)
next
  case (EX_NOT t e)
  from EX_NOT.prems have lo: "locals_in V e" by simp
  from EX_NOT.IH [OF lo] show ?case by (simp add: cj_not ge_not sem_stable [OF other_ok_meaning [OF ok] lo])
next
  case (EX_GROUP t e)
  then show ?case by (simp add: cj_group ge_group)
next
  case (EX_VARIABLE t reg)
  then have lo: "\<not> vreg_const reg" "vreg_id reg \<in> V" by simp_all
  have ge: "ge_ok V env other om (EX_VARIABLE t reg)" by (rule ge_variable [OF lo])
  have "cj_ok V env other om (EX_VARIABLE t reg)"
    by (rule cj_default [OF ge sem_stable [OF other_ok_meaning [OF ok] EX_VARIABLE.prems]]) simp
  with ge show ?case by simp
next
  case (EX_ASSIGN t reg rhs)
  then have lo: "\<not> vreg_const reg" "vreg_id reg \<in> V" and lr: "locals_in V rhs" by simp_all
  from EX_ASSIGN.IH [OF lr] have "ge_ok V env other om rhs" by simp
  from ge_assign [OF this sem_stable [OF other_ok_meaning [OF ok] lr] lo]
  have ge: "ge_ok V env other om (EX_ASSIGN t reg rhs)" .
  have "cj_ok V env other om (EX_ASSIGN t reg rhs)"
    by (rule cj_default [OF ge sem_stable [OF other_ok_meaning [OF ok] EX_ASSIGN.prems]]) simp
  with ge show ?case by simp
next
  case (EX_COMMA t a b)
  then have lo: "locals_in V a" "locals_in V b" by simp_all
  from EX_COMMA.IH(1) [OF lo(1)] EX_COMMA.IH(2) [OF lo(2)]
  have "ge_ok V env other om a" "ge_ok V env other om b" by simp_all
  from ge_comma [OF this sem_stable [OF other_ok_meaning [OF ok] lo(2)]]
  have ge: "ge_ok V env other om (EX_COMMA t a b)" .
  have "cj_ok V env other om (EX_COMMA t a b)"
    by (rule cj_default [OF ge sem_stable [OF other_ok_meaning [OF ok] EX_COMMA.prems]]) simp
  with ge show ?case by simp
next
  case (EX_TERNARY t c a b)
  then have lo: "locals_in V c" "locals_in V a" "locals_in V b" by simp_all
  from EX_TERNARY.IH(1) [OF lo(1)] EX_TERNARY.IH(2) [OF lo(2)] EX_TERNARY.IH(3) [OF lo(3)]
  have "cj_ok V env other om c" "ge_ok V env other om a" "ge_ok V env other om b" by simp_all
  from ge_ternary [OF this sem_stable [OF other_ok_meaning [OF ok] lo(2)] sem_stable [OF other_ok_meaning [OF ok] lo(3)]]
  have ge: "ge_ok V env other om (EX_TERNARY t c a b)" .
  have "cj_ok V env other om (EX_TERNARY t c a b)"
    by (rule cj_default [OF ge sem_stable [OF other_ok_meaning [OF ok] EX_TERNARY.prems]]) simp
  with ge show ?case by simp
next
  case (EX_OTHER n t)
  have ge: "ge_ok V env other om (EX_OTHER n t)" by (rule ge_other [OF ok])
  have "cj_ok V env other om (EX_OTHER n t)"
    by (rule cj_default [OF ge sem_stable [OF other_ok_meaning [OF ok] EX_OTHER.prems]]) simp
  with ge show ?case by simp
qed

section \<open>Short circuit of \<open>&&\<close>\<close>

lemma shape_pre_block:
  assumes "shape s (P1 @ b # P2) d Q"
  shows "irs_of (bbs s) (label b) = irs b"
proof -
  from assms have bs0: "bbs s = (P1 @ b # P2) @ d # Q"
    and di: "distinct (map label ((P1 @ b # P2) @ d # Q))"
    unfolding shape_def by blast+
  have bs: "bbs s = P1 @ b # (P2 @ d # Q)" using bs0 by simp
  have n: "label b \<notin> set (map label P1)" using di by simp
  show ?thesis unfolding irs_of_def bs get_bb_decomp [OF n] by simp
qed

lemma shape_pre_last:
  assumes "shape s (P1 @ [b]) d Q"
  shows "next_label (bbs s) (label b) = Some (label d)"
proof -
  from assms have bs0: "bbs s = (P1 @ [b]) @ d # Q"
    and di: "distinct (map label ((P1 @ [b]) @ d # Q))"
    unfolding shape_def by blast+
  have bs: "bbs s = P1 @ b # d # Q" using bs0 by simp
  have n: "label b \<notin> set (map label P1)" using di by simp
  show ?thesis unfolding bs by (rule next_label_decomp [OF n])
qed

lemma lower_var_ok: "other_ok V env (lower_var V) (meaning_var V)"
  unfolding other_ok_def
proof (intro conjI allI)
  show "meaning_ok V (meaning_var V)"
    by (auto simp: meaning_ok_def stable_meaning_def meaning_var_def split: if_splits)
  fix n t
  show "lowers_value V env (lower_var V n t) (meaning_var V n)"
    unfolding lowers_value_def
  proof (intro allI impI, elim conjE)
    fix s r s'
    assume g: "lower_var V n t s = Some (r, s')" and w: "wf_cg s"
    from g have n: "n \<in> V" and s': "s' = s"
      and r: "r = \<lparr>vreg_id = n, vreg_const = False, vreg_fixnum = 0, vtype = to_vtype t\<rparr>"
      by (auto simp: lower_var_def split: if_splits)
    have "\<exists>m'. reaches (bbs S) env (cur_end s, m) (cur_end s, m') \<and>
              agree V m' (snd (meaning_var V n m)) \<and> holds V r (fst (meaning_var V n m)) m' \<and>
              (\<forall>q<vreg_count s. q \<notin> V \<longrightarrow> regs m' q = regs m q)" for S m
      by (rule exI [of _ m]) (simp add: reaches.here meaning_var_def n holds_def r)
    then show "grows s s' \<and>
        (vreg_const r \<or> vreg_id r \<in> V \<or> (vreg_count s \<le> vreg_id r \<and> vreg_id r < vreg_count s')) \<and>
        (\<forall>S m. ext s' S \<longrightarrow>
           (\<exists>m'. reaches (bbs S) env (cur_end s, m) (cur_end s', m') \<and>
                 agree V m' (snd (meaning_var V n m)) \<and> holds V r (fst (meaning_var V n m)) m' \<and>
                 (\<forall>q<vreg_count s. q \<notin> V \<longrightarrow> regs m' q = regs m q)))"
      unfolding s' using grows_refl [OF w] n by (auto simp: r)
  qed
qed



section \<open>Properties of the WebAssembly module assembly\<close>

declare uleb128.simps [simp del] sleb128.simps [simp del]

lemma bindE_Inr:
  "bindE m f = Inr y \<longleftrightarrow> (\<exists>v. m = Inr v \<and> f v = Inr y)"
  by (cases m) (simp_all add: bindE_def)

lemma bindE_InrE:
  assumes "bindE m f = Inr y"
  obtains v where "m = Inr v" "f v = Inr y"
  using assms by (cases m) (simp_all add: bindE_def)

lemma bindE_Inr_simp: "bindE (Inr v) f = f v"
  by (simp add: bindE_def)

lemma bindE_Inl_simp: "bindE (Inl e) f = Inl e"
  by (simp add: bindE_def)

lemma emit_uleb128_front: "emit_uleb128 ds 0 v = uleb128 v @ ds"
  by (simp add: emit_uleb128_def data_insert_def)

lemma emit_uleb128_back: "emit_uleb128 ds (length ds) v = ds @ uleb128 v"
  by (simp add: emit_uleb128_def data_insert_def)

lemma counted_section:
  "sid # emit_uleb128 (emit_uleb128 body 0 cnt) 0 (length (emit_uleb128 body 0 cnt))
     = wasm_section sid (uleb128 cnt @ body)"
  by (simp add: emit_uleb128_front wasm_section_def)

lemma code_section:
  "emit_uleb128 (emit_uleb128 [SEC_CODE_w] (length [SEC_CODE_w]) cnt) (length [SEC_CODE_w])
       ((length (emit_uleb128 [SEC_CODE_w] (length [SEC_CODE_w]) cnt) - length [SEC_CODE_w])
        + length code) @ code
     = wasm_section SEC_CODE_w (uleb128 cnt @ code)"
  by (simp add: emit_uleb128_def data_insert_def wasm_section_def)

lemma data_section:
  "emit_uleb128
     (data_insert (emit_uleb128 (data_insert d 0 seg_info) (length seg_info) (length d)) 0
        [SEC_DATA_w])
     1 (length (emit_uleb128 (data_insert d 0 seg_info) (length seg_info) (length d)))
   = wasm_section SEC_DATA_w (seg_info @ uleb128 (length d) @ d)"
  by (simp add: emit_uleb128_def data_insert_def wasm_section_def)

text \<open>The output of emit_wasm when none of its loops fails.\<close>

lemma emit_wasm_out:
  assumes t: "types_loop (func_info_table env) [] [] = Inr (ftab, types, tbody)"
    and i: "imports_loop (global_scope env) ftab [] 0 = Inr (ibody, icount)"
    and f: "functions_loop ftab [] 0 = (fbody, fcount)"
    and g: "globals_loop (gvar_info_table env) [] 0 = Inr (gbody, gcount)"
    and e0: "exports_loop (global_scope env) ftab exports [] 0 = Inr (e0, n0)"
    and e1: "(if data_end_address env > 0
              then bindE (export_global (gvar_info_table env) (DATA_END_ADDRESS_NAME env) e0)
                     (\<lambda>ds. Inr (ds, Suc n0))
              else Inr (e0, n0)) = Inr (e1, n1)"
    and e2: "export_global (gvar_info_table env) (SP_NAME env) e1 = Inr e2"
    and d: "construct_data_segment (gvar_info_table env) [] 0 = Inr dbody"
  shows "emit_wasm env exports = Inr (emit_wasm_header
         @ wasm_section SEC_TYPE (uleb128 (length types) @ tbody)
         @ (if Suc icount > 0
            then wasm_section SEC_IMPORT (uleb128 (Suc icount) @ import_memory ibody) else [])
         @ wasm_section SEC_FUNC (uleb128 fcount @ fbody)
         @ (if gcount > 0 then wasm_section SEC_GLOBAL (uleb128 gcount @ gbody) else [])
         @ wasm_section SEC_EXPORT (uleb128 (Suc n1) @ e2)
         @ wasm_section SEC_CODE_w (uleb128 fcount @ concat (function_codes ftab))
         @ (if length dbody > 0
            then wasm_section SEC_DATA_w (seg_info @ uleb128 (length dbody) @ dbody) else []))"
  unfolding emit_wasm_def Let_def
  apply (simp only: t i f g e0 e1 e2 d bindE_Inr_simp prod.case fst_conv snd_conv)
  apply (simp add: data_push_def data_append_def data_concat_def emit_uleb128_def
      data_insert_def wasm_section_def)
  done

text \<open>
  C7: the module emit_wasm writes is the magic \<open>\0asm\<close> and the version 1, followed by
  the sections Type, Import, Function, Global, Export, Code and Data in this order, where
  Import and Global are left out when their count of entries is 0 and Data when the data
  segment is empty; every section is its one-byte id, the ULEB128 length of its body, and
  the body (the count of entries, then the entries).
\<close>

theorem emit_wasm_sections:
  assumes "emit_wasm env exports = Inr out"
  shows "\<exists>ftab types tbody ibody icount fbody fcount gbody gcount ebody ecount dbody.
     types_loop (func_info_table env) [] [] = Inr (ftab, types, tbody) \<and>
     imports_loop (global_scope env) ftab [] 0 = Inr (ibody, icount) \<and>
     functions_loop ftab [] 0 = (fbody, fcount) \<and>
     globals_loop (gvar_info_table env) [] 0 = Inr (gbody, gcount) \<and>
     construct_data_segment (gvar_info_table env) [] 0 = Inr dbody \<and>
     take 8 out = [0x00, 0x61, 0x73, 0x6d, 0x01, 0x00, 0x00, 0x00] \<and>
     out = emit_wasm_header
         @ wasm_section SEC_TYPE (uleb128 (length types) @ tbody)
         @ (if Suc icount > 0
            then wasm_section SEC_IMPORT (uleb128 (Suc icount) @ import_memory ibody) else [])
         @ wasm_section SEC_FUNC (uleb128 fcount @ fbody)
         @ (if gcount > 0 then wasm_section SEC_GLOBAL (uleb128 gcount @ gbody) else [])
         @ wasm_section SEC_EXPORT (uleb128 ecount @ ebody)
         @ wasm_section SEC_CODE_w (uleb128 fcount @ concat (function_codes ftab))
         @ (if length dbody > 0
            then wasm_section SEC_DATA_w (seg_info @ uleb128 (length dbody) @ dbody) else [])"
proof -
  obtain r1 where t': "types_loop (func_info_table env) [] [] = Inr r1"
  proof (cases "types_loop (func_info_table env) [] []")
    case (Inl e)
    with assms show ?thesis by (simp add: emit_wasm_def bindE_def)
  next
    case (Inr r)
    then show ?thesis by (rule that)
  qed
  obtain ftab types tbody where r1: "r1 = (ftab, types, tbody)" by (cases r1)
  note t = t' [unfolded r1]
  obtain r2 where i': "imports_loop (global_scope env) ftab [] 0 = Inr r2"
  proof (cases "imports_loop (global_scope env) ftab [] 0")
    case (Inl e)
    with assms show ?thesis
      unfolding emit_wasm_def Let_def
      by (simp only: t bindE_Inr_simp bindE_Inl_simp prod.case) simp
  next
    case (Inr r)
    then show ?thesis by (rule that)
  qed
  obtain ibody icount where r2: "r2 = (ibody, icount)" by (cases r2)
  note i = i' [unfolded r2]
  obtain fbody fcount where f: "functions_loop ftab [] 0 = (fbody, fcount)"
    by (cases "functions_loop ftab [] 0")
  obtain r3 where g': "globals_loop (gvar_info_table env) [] 0 = Inr r3"
  proof (cases "globals_loop (gvar_info_table env) [] 0")
    case (Inl e)
    with assms show ?thesis
      unfolding emit_wasm_def Let_def
      by (simp only: t i bindE_Inr_simp bindE_Inl_simp prod.case) simp
  next
    case (Inr r)
    then show ?thesis by (rule that)
  qed
  obtain gbody gcount where r3: "r3 = (gbody, gcount)" by (cases r3)
  note g = g' [unfolded r3]
  obtain r4 where e0': "exports_loop (global_scope env) ftab exports [] 0 = Inr r4"
  proof (cases "exports_loop (global_scope env) ftab exports [] 0")
    case (Inl e)
    with assms show ?thesis
      unfolding emit_wasm_def Let_def
      by (simp only: t i g bindE_Inr_simp bindE_Inl_simp prod.case) simp
  next
    case (Inr r)
    then show ?thesis by (rule that)
  qed
  obtain e0 n0 where r4: "r4 = (e0, n0)" by (cases r4)
  note e0 = e0' [unfolded r4]
  let ?de = "if data_end_address env > 0
             then bindE (export_global (gvar_info_table env) (DATA_END_ADDRESS_NAME env) e0)
                    (\<lambda>ds. Inr (ds, Suc n0))
             else Inr (e0, n0)"
  obtain r5 where e1': "?de = Inr r5"
  proof (cases ?de)
    case (Inl e)
    with assms show ?thesis
      unfolding emit_wasm_def Let_def
      by (simp only: t i g e0 bindE_Inr_simp bindE_Inl_simp prod.case) simp
  next
    case (Inr r)
    then show ?thesis by (rule that)
  qed
  obtain e1 n1 where r5: "r5 = (e1, n1)" by (cases r5)
  note e1 = e1' [unfolded r5]
  obtain e2 where e2: "export_global (gvar_info_table env) (SP_NAME env) e1 = Inr e2"
  proof (cases "export_global (gvar_info_table env) (SP_NAME env) e1")
    case (Inl e)
    with assms show ?thesis
      unfolding emit_wasm_def Let_def
      by (simp only: t i g e0 e1 bindE_Inr_simp bindE_Inl_simp prod.case) simp
  next
    case (Inr r)
    then show ?thesis by (rule that)
  qed
  obtain dbody where d: "construct_data_segment (gvar_info_table env) [] 0 = Inr dbody"
  proof (cases "construct_data_segment (gvar_info_table env) [] 0")
    case (Inl e)
    with assms show ?thesis
      unfolding emit_wasm_def Let_def
      by (simp only: t i g e0 e1 e2 bindE_Inr_simp bindE_Inl_simp prod.case) simp
  next
    case (Inr r)
    then show ?thesis by (rule that)
  qed
  note out = assms [unfolded emit_wasm_out [OF t i f g e0 e1 e2 d] sum.inject, symmetric]
  have hd: "take 8 out = [0x00, 0x61, 0x73, 0x6d, 0x01, 0x00, 0x00, 0x00]"
    unfolding out by (simp add: emit_wasm_header_def)
  from t i f g d hd out show ?thesis by blast
qed

theorem emit_wasm_sections_witness:
  "emit_wasm sample_env [''f''] =
     Inr [0, 97, 115, 109, 1, 0, 0, 0,
          1, 4, 1, 96, 0, 0,
          2, 15, 1, 3, 101, 110, 118, 6, 109, 101, 109, 111, 114, 121, 2, 0, 1,
          3, 2, 1, 0,
          6, 8, 1, 127, 1, 65, 128, 192, 0, 11,
          7, 10, 2, 1, 102, 0, 0, 2, 115, 112, 3, 0,
          10, 4, 1, 2, 0, 11,
          11, 8, 1, 0, 65, 0, 11, 2, 1, 2]
   \<and> take 8 [0, 97, 115, 109, 1, 0, 0, 0,
          1, 4, 1, 96, 0, 0,
          2, 15, 1, 3, 101, 110, 118, 6, 109, 101, 109, 111, 114, 121, 2, 0, 1,
          3, 2, 1, 0,
          6, 8, 1, 127, 1, 65, 128, 192, 0, 11,
          7, 10, 2, 1, 102, 0, 0, 2, 115, 112, 3, 0,
          10, 4, 1, 2, 0, 11,
          11, 8, 1, 0, 65, 0, 11, 2, 1, 2] = [0x00, 0x61, 0x73, 0x6d, 0x01, 0x00, 0x00, 0x00 :: byte]"
proof -
  let ?out = "[0, 97, 115, 109, 1, 0, 0, 0,
          1, 4, 1, 96, 0, 0,
          2, 15, 1, 3, 101, 110, 118, 6, 109, 101, 109, 111, 114, 121, 2, 0, 1,
          3, 2, 1, 0,
          6, 8, 1, 127, 1, 65, 128, 192, 0, 11,
          7, 10, 2, 1, 102, 0, 0, 2, 115, 112, 3, 0,
          10, 4, 1, 2, 0, 11,
          11, 8, 1, 0, 65, 0, 11, 2, 1, 2] :: byte list"
  have h: "emit_wasm sample_env [''f''] = Inr ?out"
    by code_simp
  from emit_wasm_sections [OF h]
  have "take 8 ?out = [0x00, 0x61, 0x73, 0x6d, 0x01, 0x00, 0x00, 0x00]" by blast
  with h show ?thesis by blast
qed

section \<open>Properties of the data emitter of the WebAssembly back-end\<close>

text \<open>
  C4 fails on construct_initial_value of wcc.c: the padding loop of the array case stands
  inside \<open>if (init != NULL)\<close>, so an array with a NULL initializer emits nothing. For
  \<open>int a[2][2] = {{1, 2}}\<close> the second row is padded by a call with NULL and the
  function emits 8 bytes for a type of 16. (construct_initial_value of emit_code.c has the
  padding loop outside the test.)
\<close>

theorem construct_initial_value_w_null_array:
  "construct_initial_value_w (Array_t (Array_t (Fixnum_t FX_INT False) 2) 2)
     (Some (IK_MULTI [Some (IK_MULTI [Some (IK_SINGLE (Const_fixnum True 1)),
                                      Some (IK_SINGLE (Const_fixnum True 2))])]))
     = Inr [1, 0, 0, 0, 2, 0, 0, 0]
   \<and> type_size_w (Array_t (Array_t (Fixnum_t FX_INT False) 2) 2) = 16
   \<and> construct_initial_value_w (Array_t (Fixnum_t FX_INT False) 2) None = Inr []
   \<and> type_size_w (Array_t (Fixnum_t FX_INT False) 2) = 8"
  by code_simp

end
